(* ===== verification/Prelude.thy ===== *)
theory Prelude
  imports Complex_Main "HOL-Library.Sublist" "HOL-Library.List_Lexorder" "HOL-Library.Char_ord"
begin

text \<open>
  The prelude of the development: the exception kinds and the result type of fallible
  operations, Python's insertion-ordered dictionaries as association lists (with the
  interface \<open>py_dict\<close> the components rely on), sorted sets, and the string operations the
  source uses on OSC paths (\<open>split\<close>, \<open>strip\<close>, \<open>startswith\<close>, \<open>"%d" % n\<close>, \<open>int(s)\<close>).
  Strings are ASCII and hence \<^typ>\<open>string\<close>; the order on them is the lexicographic order of
  the character codes, which is Python's.
\<close>

named_theorems res_simps \<open>unfolding and inversion rules of the result type\<close>
named_theorems dict_simps \<open>lookup and key rules of the dictionary model\<close>
named_theorems path_simps \<open>splitting and printing of OSC paths\<close>

section \<open>Results\<close>

text \<open>
  The exceptions the modelled code raises, by class. The message text is not modelled: no
  code branches on it. An \<open>OSError\<close> carries its errno, \<open>None\<close> for one built from a message
  alone; \<open>BackendControlError\<close> and \<open>WriteFailed\<close> are its subclasses, and the latter carries the
  paths sent and pending as well, as in \<^verbatim>\<open>errors.py\<close>.
\<close>

datatype exc =
    TypeError
  | ValueError
  | OverflowError
  | StructError
  | IndexError
  | KeyError
  | ZeroDivisionError
  | ConfigError
  | DeviceAmbiguous
  | DeviceLockUnavailable
  | OSErr "nat option"
  | BackendControlError "nat option"
  | WriteFailed "nat option" "string list" "string list"

text \<open>\<open>isinstance(exc, OSError)\<close>, its \<open>errno\<close>, and \<open>WriteFailed.refused\<close>.\<close>

definition is_os_error :: "exc \<Rightarrow> bool" where
  "is_os_error e = (case e of OSErr _ \<Rightarrow> True | BackendControlError _ \<Rightarrow> True
     | WriteFailed _ _ _ \<Rightarrow> True | _ \<Rightarrow> False)"

definition errno_of :: "exc \<Rightarrow> nat option" where
  "errno_of e = (case e of OSErr n \<Rightarrow> n | BackendControlError n \<Rightarrow> n | WriteFailed n _ _ \<Rightarrow> n | _ \<Rightarrow> None)"

definition refused :: "exc \<Rightarrow> bool" where
  "refused e = (errno_of e = None)"

lemma is_os_error_simps [simp]:
  "is_os_error (OSErr n)" "is_os_error (BackendControlError n)" "is_os_error (WriteFailed n wr un)"
  "\<not> is_os_error TypeError" "\<not> is_os_error ValueError" "\<not> is_os_error OverflowError"
  "\<not> is_os_error StructError" "\<not> is_os_error ConfigError" "\<not> is_os_error DeviceLockUnavailable"
  by (simp_all add: is_os_error_def)

type_synonym 'a res = "exc + 'a"

abbreviation Ok :: "'a \<Rightarrow> 'a res" where "Ok \<equiv> Inr"
abbreviation Raise :: "exc \<Rightarrow> 'a res" where "Raise \<equiv> Inl"

definition rbind :: "'a res \<Rightarrow> ('a \<Rightarrow> 'b res) \<Rightarrow> 'b res" where
  "rbind m f = (case m of Inl e \<Rightarrow> Inl e | Inr x \<Rightarrow> f x)"

lemma rbind_simps [simp]:
  "rbind (Inl e) f = Inl e"
  "rbind (Inr x) f = f x"
  by (simp_all add: rbind_def)

lemma rbind_Ok_iff [res_simps]: "rbind m f = Inr y \<longleftrightarrow> (\<exists>x. m = Inr x \<and> f x = Inr y)"
  by (cases m) auto

lemma rbind_Raise_iff [res_simps]:
  "rbind m f = Inl e \<longleftrightarrow> m = Inl e \<or> (\<exists>x. m = Inr x \<and> f x = Inl e)"
  by (cases m) auto

lemma rbind_cong [fundef_cong]:
  "m = m' \<Longrightarrow> (\<And>x. m' = Inr x \<Longrightarrow> f x = g x) \<Longrightarrow> rbind m f = rbind m' g"
  by (cases m') auto

definition is_ok :: "'a res \<Rightarrow> bool" where
  "is_ok m = (case m of Inl _ \<Rightarrow> False | Inr _ \<Rightarrow> True)"

lemma is_ok_simps [simp]: "\<not> is_ok (Inl e)" "is_ok (Inr x)"
  by (simp_all add: is_ok_def)

lemma is_ok_iff: "is_ok m \<longleftrightarrow> (\<exists>x. m = Inr x)"
  by (cases m) auto

text \<open>Raise unless a condition holds; a loop over a list that stops at the first exception.\<close>

definition check :: "bool \<Rightarrow> exc \<Rightarrow> unit res" where
  "check b e = (if b then Inr () else Inl e)"

lemma check_simps [simp]:
  "check True e = Inr ()" "check False e = Inl e"
  "check b e = Inr u \<longleftrightarrow> b" "check b e = Inl e' \<longleftrightarrow> \<not> b \<and> e' = e"
  by (auto simp: check_def)

fun map_res :: "('a \<Rightarrow> 'b res) \<Rightarrow> 'a list \<Rightarrow> 'b list res" where
  "map_res f [] = Inr []"
| "map_res f (x # xs) = rbind (f x) (\<lambda>y. rbind (map_res f xs) (\<lambda>ys. Inr (y # ys)))"

lemma map_res_Ok_iff:
  "map_res f xs = Inr ys \<longleftrightarrow> list_all2 (\<lambda>x y. f x = Inr y) xs ys"
  by (induction xs arbitrary: ys) (auto simp: res_simps list_all2_Cons1)

lemma map_res_all: "map_res f xs = Ok ys \<Longrightarrow> x \<in> set xs \<Longrightarrow> is_ok (f x)"
  by (induction xs arbitrary: ys) (auto simp: res_simps)

lemma map_res_from: "map_res f xs = Ok ys \<Longrightarrow> y \<in> set ys \<Longrightarrow> \<exists>x\<in>set xs. f x = Ok y"
  by (induction xs arbitrary: ys) (auto simp: res_simps)

lemma map_res_to: "map_res f xs = Ok ys \<Longrightarrow> x \<in> set xs \<Longrightarrow> \<exists>y\<in>set ys. f x = Ok y"
  by (induction xs arbitrary: ys) (auto simp: res_simps)

lemma map_res_map: "map_res f xs = Ok ys \<Longrightarrow> (\<And>x y. f x = Ok y \<Longrightarrow> y = g x) \<Longrightarrow> ys = map g xs"
  by (induction xs arbitrary: ys) (auto simp: res_simps)

lemma map_res_okI: "(\<And>x. x \<in> set xs \<Longrightarrow> f x = Ok (g x)) \<Longrightarrow> map_res f xs = Ok (map g xs)"
  by (induction xs) auto

fun fold_res :: "('a \<Rightarrow> 's \<Rightarrow> 's res) \<Rightarrow> 'a list \<Rightarrow> 's \<Rightarrow> 's res" where
  "fold_res f [] s = Inr s"
| "fold_res f (x # xs) s = rbind (f x s) (fold_res f xs)"

lemma map_res_total: "(\<And>x. x \<in> set xs \<Longrightarrow> is_ok (f x)) \<Longrightarrow> is_ok (map_res f xs)"
proof (induction xs)
  case (Cons x xs)
  then obtain y ys where "f x = Ok y" "map_res f xs = Ok ys" by (fastforce simp: is_ok_iff)
  then show ?case by simp
qed simp

lemma fold_res_append: "fold_res f (xs @ ys) s = rbind (fold_res f xs s) (fold_res f ys)"
  by (induction xs arbitrary: s) (auto simp: rbind_def split: sum.splits)

lemma fold_res_invariant:
  assumes "fold_res f xs s = Inr t" and "I s"
    and "\<And>x s t. x \<in> set xs \<Longrightarrow> I s \<Longrightarrow> f x s = Inr t \<Longrightarrow> I t"
  shows "I t"
  using assms by (induction xs arbitrary: s) (auto simp: res_simps)

section \<open>Dictionaries\<close>

text \<open>
  A Python dictionary keeps the order in which its keys were first stored; storing an
  existing key keeps its position.
\<close>

type_synonym ('k, 'v) dict = "('k \<times> 'v) list"

fun dset :: "'k \<Rightarrow> 'v \<Rightarrow> ('k, 'v) dict \<Rightarrow> ('k, 'v) dict" where
  "dset k v [] = [(k, v)]"
| "dset k v ((k', v') # d) = (if k = k' then (k, v) # d else (k', v') # dset k v d)"

abbreviation dget :: "('k, 'v) dict \<Rightarrow> 'k \<Rightarrow> 'v option" where
  "dget \<equiv> map_of"

abbreviation dkeys :: "('k, 'v) dict \<Rightarrow> 'k list" where
  "dkeys \<equiv> map fst"

text \<open>\<open>d.update(e)\<close>.\<close>

definition dupdate :: "('k, 'v) dict \<Rightarrow> ('k \<times> 'v) list \<Rightarrow> ('k, 'v) dict" where
  "dupdate d e = foldl (\<lambda>m kv. dset (fst kv) (snd kv) m) d e"

text \<open>The interface: what a client of a dictionary may rely on.\<close>

locale py_dict =
  fixes empty :: "'m"
    and lookup :: "'m \<Rightarrow> 'k \<Rightarrow> 'v option"
    and store :: "'k \<Rightarrow> 'v \<Rightarrow> 'm \<Rightarrow> 'm"
    and keys :: "'m \<Rightarrow> 'k list"
  assumes lookup_empty: "lookup empty k = None"
    and lookup_store: "lookup (store k v m) k' = (if k' = k then Some v else lookup m k')"
    and keys_empty: "keys empty = []"
    and keys_store: "keys (store k v m) = (if k \<in> set (keys m) then keys m else keys m @ [k])"
    and lookup_keys: "lookup m k = None \<longleftrightarrow> k \<notin> set (keys m)"
begin

lemma distinct_store: "distinct (keys m) \<Longrightarrow> distinct (keys (store k v m))"
  by (simp add: keys_store)

lemma set_keys_store: "set (keys (store k v m)) = insert k (set (keys m))"
  by (auto simp: keys_store)

lemma distinct_fill:
  "distinct (keys m) \<Longrightarrow> distinct (keys (foldl (\<lambda>m kv. store (fst kv) (snd kv) m) m kvs))"
  by (induction kvs arbitrary: m) (auto simp: distinct_store)

lemma set_keys_fill:
  "set (keys (foldl (\<lambda>m kv. store (fst kv) (snd kv) m) m kvs)) = set (keys m) \<union> fst ` set kvs"
  by (induction kvs arbitrary: m) (auto simp: set_keys_store)

text \<open>The last stored value wins.\<close>

lemma lookup_fill:
  "lookup (foldl (\<lambda>m kv. store (fst kv) (snd kv) m) m kvs) k =
     (case map_of (rev kvs) k of Some v \<Rightarrow> Some v | None \<Rightarrow> lookup m k)"
  by (induction kvs arbitrary: m) (auto simp: lookup_store map_add_def split: option.splits)

text \<open>The position is the first one that claimed the key.\<close>

lemma keys_fill:
  "\<exists>new. keys (foldl (\<lambda>m kv. store (fst kv) (snd kv) m) m kvs) = keys m @ new"
proof (induction kvs arbitrary: m)
  case Nil
  then show ?case by simp
next
  case (Cons kv kvs)
  obtain new where new: "keys (foldl (\<lambda>m kv. store (fst kv) (snd kv) m)
      (store (fst kv) (snd kv) m) kvs) = keys (store (fst kv) (snd kv) m) @ new"
    using Cons by blast
  then show ?case by (auto simp: keys_store split: if_splits)
qed

end

lemma dget_dset [dict_simps]: "dget (dset k v d) k' = (if k' = k then Some v else dget d k')"
  by (induction d) auto

lemma dkeys_dset [dict_simps]:
  "dkeys (dset k v d) = (if k \<in> set (dkeys d) then dkeys d else dkeys d @ [k])"
  by (induction k v d rule: dset.induct) auto

lemma dget_None: "dget d k = None \<longleftrightarrow> k \<notin> set (dkeys d)"
  by (simp add: map_of_eq_None_iff)

interpretation pd: py_dict "[] :: ('k \<times> 'v) list" map_of dset "map fst"
  by unfold_locales (auto simp: dict_simps dget_None)

lemmas dict_laws = pd.distinct_store pd.set_keys_store

lemma dset_in_set:
  "distinct (dkeys d) \<Longrightarrow> x \<in> set (dset k v d) \<Longrightarrow> x = (k, v) \<or> x \<in> set d"
  by (induction d) (auto split: if_splits)

lemma dget_in_set: "dget d k = Some v \<Longrightarrow> (k, v) \<in> set d"
  by (rule map_of_SomeD)

section \<open>Sorted sets\<close>

text \<open>\<open>sorted(set(xs))\<close>.\<close>

definition sorted_set :: "('a::linorder) list \<Rightarrow> 'a list" where
  "sorted_set xs = sort (remdups xs)"

lemma set_sorted_set [simp]: "set (sorted_set xs) = set xs"
  by (simp add: sorted_set_def)

lemma sorted_sorted_set [simp]: "sorted (sorted_set xs)"
  by (simp add: sorted_set_def)

lemma distinct_sorted_set [simp]: "distinct (sorted_set xs)"
  by (simp add: sorted_set_def)

lemma sorted_set_Nil [simp]: "sorted_set [] = []"
  by (simp add: sorted_set_def)

section \<open>Strings\<close>

abbreviation startswith :: "string \<Rightarrow> string \<Rightarrow> bool" where
  "startswith s p \<equiv> prefix p s"

abbreviation endswith :: "string \<Rightarrow> string \<Rightarrow> bool" where
  "endswith s p \<equiv> suffix p s"

text \<open>\<open>s.split(c)\<close>.\<close>

fun split_on :: "char \<Rightarrow> string \<Rightarrow> string list" where
  "split_on c [] = [[]]"
| "split_on c (x # xs) =
     (if x = c then [] # split_on c xs
      else (case split_on c xs of [] \<Rightarrow> [[x]] | p # ps \<Rightarrow> (x # p) # ps))"

text \<open>\<open>c.join(ps)\<close> for a one-character separator.\<close>

fun join_on :: "char \<Rightarrow> string list \<Rightarrow> string" where
  "join_on c [] = []"
| "join_on c [p] = p"
| "join_on c (p # q # ps) = p @ c # join_on c (q # ps)"

lemma split_on_not_Nil [simp]: "split_on c s \<noteq> []"
  by (induction s) (auto split: list.splits)

lemma split_on_no_sep [path_simps]: "c \<notin> set a \<Longrightarrow> split_on c a = [a]"
  by (induction a) auto

lemma split_on_append [path_simps]:
  "c \<notin> set a \<Longrightarrow> split_on c (a @ c # b) = a # split_on c b"
  by (induction a) auto

lemma join_split [simp]: "join_on c (split_on c s) = s"
proof (induction s)
  case Nil
  then show ?case by simp
next
  case (Cons x xs)
  obtain p ps where p: "split_on c xs = p # ps"
    by (meson neq_Nil_conv split_on_not_Nil)
  with Cons show ?case by (cases ps) auto
qed

lemma split_on_inject: "split_on c s = split_on c t \<Longrightarrow> s = t"
  by (metis join_split)

lemma split_on_parts: "p \<in> set (split_on c s) \<Longrightarrow> c \<notin> set p"
proof (induction s arbitrary: p)
  case Nil
  then show ?case by simp
next
  case (Cons x xs)
  obtain q qs where q: "split_on c xs = q # qs"
    by (meson neq_Nil_conv split_on_not_Nil)
  with Cons show ?case by (auto split: if_splits)
qed

text \<open>\<open>s.strip(c)\<close>, \<open>s.strip()\<close> and \<open>s.lower()\<close>.\<close>

definition strip_with :: "(char \<Rightarrow> bool) \<Rightarrow> string \<Rightarrow> string" where
  "strip_with P s = rev (dropWhile P (rev (dropWhile P s)))"

definition strip_slash :: "string \<Rightarrow> string" where
  "strip_slash s = strip_with (\<lambda>c. c = CHR ''/'') s"

definition is_space :: "char \<Rightarrow> bool" where
  "is_space c = (c \<in> set [CHR '' '', CHR 0x09, CHR 0x0A, CHR 0x0B, CHR 0x0C, CHR 0x0D,
                         CHR 0x1C, CHR 0x1D, CHR 0x1E, CHR 0x1F])"

definition strip_space :: "string \<Rightarrow> string" where
  "strip_space s = strip_with is_space s"

definition lower_char :: "char \<Rightarrow> char" where
  "lower_char c = (let n = of_char c :: nat in if 65 \<le> n \<and> n \<le> 90 then char_of (n + 32) else c)"

definition lower :: "string \<Rightarrow> string" where
  "lower s = map lower_char s"

subsection \<open>Decimal numbers\<close>

definition digit_char :: "nat \<Rightarrow> char" where
  "digit_char n = ''0123456789'' ! n"

definition digit_val :: "char \<Rightarrow> nat" where
  "digit_val c = of_char c - 48"

definition is_digit :: "char \<Rightarrow> bool" where
  "is_digit c = (c \<in> set ''0123456789'')"

text \<open>\<open>s.isascii() and s.isdigit()\<close>.\<close>

definition is_digits :: "string \<Rightarrow> bool" where
  "is_digits s = (s \<noteq> [] \<and> list_all is_digit s)"

text \<open>\<open>"%d" % n\<close>, and \<open>int(s)\<close> of a string of digits.\<close>

fun show_nat :: "nat \<Rightarrow> string" where
  "show_nat n = (if n < 10 then [digit_char n] else show_nat (n div 10) @ [digit_char (n mod 10)])"

declare show_nat.simps [simp del]

definition show_int :: "int \<Rightarrow> string" where
  "show_int i = (if i < 0 then CHR ''-'' # show_nat (nat (- i)) else show_nat (nat i))"

definition nat_of_digits :: "string \<Rightarrow> nat" where
  "nat_of_digits s = foldl (\<lambda>a c. 10 * a + digit_val c) 0 s"

lemma digit_cases: "n < 10 \<Longrightarrow> n \<in> {0, 1, 2, 3, 4, 5, 6, 7, 8, 9 :: nat}"
  by auto

lemma digit_char_digit [simp]: "n < 10 \<Longrightarrow> is_digit (digit_char n)"
  by (drule digit_cases) (auto simp: is_digit_def digit_char_def)

lemma digit_val_char [simp]: "n < 10 \<Longrightarrow> digit_val (digit_char n) = n"
  by (drule digit_cases) (auto simp: digit_val_def digit_char_def)

lemma show_nat_digits: "list_all is_digit (show_nat n)"
  by (induction n rule: show_nat.induct) (subst show_nat.simps, auto)

lemma show_nat_not_Nil [simp]: "show_nat n \<noteq> []"
  by (subst show_nat.simps) auto

lemma is_digits_show_nat [simp]: "is_digits (show_nat n)"
  by (simp add: is_digits_def show_nat_digits)

lemma nat_of_digits_snoc: "nat_of_digits (s @ [c]) = 10 * nat_of_digits s + digit_val c"
  by (simp add: nat_of_digits_def)

lemma nat_of_digits_show [simp]: "nat_of_digits (show_nat n) = n"
proof (induction n rule: show_nat.induct)
  case (1 n)
  show ?case
  proof (cases "n < 10")
    case True
    then show ?thesis by (subst show_nat.simps) (simp add: nat_of_digits_def)
  next
    case False
    with 1 show ?thesis by (subst show_nat.simps) (simp add: nat_of_digits_snoc)
  qed
qed

lemma show_nat_inject [simp]: "show_nat m = show_nat n \<longleftrightarrow> m = n"
  by (metis nat_of_digits_show)

lemma is_digit_not [simp]:
  "is_digit c \<Longrightarrow> c \<noteq> CHR ''/''" "is_digit c \<Longrightarrow> c \<noteq> CHR ''-''"
  by (auto simp: is_digit_def)

lemma slash_not_in_digits: "list_all is_digit s \<Longrightarrow> CHR ''/'' \<notin> set s \<and> CHR ''-'' \<notin> set s"
  by (induction s) (auto simp: is_digit_def)

lemma slash_not_in_show_nat [simp]: "CHR ''/'' \<notin> set (show_nat n)" "CHR ''-'' \<notin> set (show_nat n)"
  using slash_not_in_digits [OF show_nat_digits] by auto

lemma slash_not_in_show_int [simp]: "CHR ''/'' \<notin> set (show_int i)"
  by (simp add: show_int_def)

lemma show_int_inject [simp]: "show_int i = show_int j \<longleftrightarrow> i = j"
proof
  assume eq: "show_int i = show_int j"
  have "\<And>m n. CHR ''-'' # show_nat m \<noteq> show_nat n"
    by (metis list.set_intros(1) slash_not_in_show_nat(2))
  with eq show "i = j"
    by (auto simp: show_int_def split: if_splits) (metis nat_of_digits_show list.sel(3))+
qed simp

text \<open>
  \<open>int(s)\<close>: surrounding white space, an optional sign, digits with single underscores between
  them; None where Python raises ValueError.
\<close>

definition py_int_unsigned :: "string \<Rightarrow> int option" where
  "py_int_unsigned s = (let groups = split_on CHR ''_'' s in
     if list_all is_digits groups then Some (int (nat_of_digits (concat groups))) else None)"

definition py_int :: "string \<Rightarrow> int option" where
  "py_int s = (case strip_space s of
       [] \<Rightarrow> None
     | c # cs \<Rightarrow> if c = CHR ''-'' then map_option uminus (py_int_unsigned cs)
                 else if c = CHR ''+'' then py_int_unsigned cs
                 else py_int_unsigned (c # cs))"

lemma digit_facts: "is_digit c \<Longrightarrow> c \<noteq> CHR ''_'' \<and> c \<noteq> CHR ''+'' \<and> \<not> is_space c"
  by (auto simp: is_digit_def is_space_def)

lemma digits_no_underscore: "list_all is_digit s \<Longrightarrow> CHR ''_'' \<notin> set s"
  by (induction s) (auto dest: digit_facts)

lemma strip_space_ends:
  assumes "s \<noteq> []" and "\<not> is_space (hd s)" and "\<not> is_space (last s)"
  shows "strip_space s = s"
proof -
  have keep: "dropWhile is_space t = t" if "t \<noteq> []" "\<not> is_space (hd t)" for t
    using that by (cases t) simp_all
  have "dropWhile is_space (rev s) = rev s" using assms by (intro keep) (simp_all add: hd_rev)
  then show ?thesis using keep [OF assms(1,2)] by (simp add: strip_space_def strip_with_def)
qed

lemma digits_last: "is_digits s \<Longrightarrow> s \<noteq> [] \<and> is_digit (hd s) \<and> is_digit (last s)"
  by (simp add: is_digits_def list_all_iff)

lemma strip_space_digits: "is_digits s \<Longrightarrow> strip_space s = s"
  using digits_last digit_facts by (intro strip_space_ends) blast+

lemma py_int_unsigned_digits: "is_digits s \<Longrightarrow> py_int_unsigned s = Some (int (nat_of_digits s))"
  by (simp add: py_int_unsigned_def split_on_no_sep digits_no_underscore is_digits_def)

lemma py_int_digits: "is_digits s \<Longrightarrow> py_int s = Some (int (nat_of_digits s))"
  using digits_last [of s] digit_facts [of "hd s"]
  by (cases s) (auto simp: py_int_def strip_space_digits py_int_unsigned_digits)

lemma py_int_show_nat [simp]: "py_int (show_nat n) = Some (int n)"
  by (simp add: py_int_digits)

lemma py_int_minus_digits: "is_digits s \<Longrightarrow> py_int (CHR ''-'' # s) = Some (- int (nat_of_digits s))"
proof -
  assume s: "is_digits s"
  have "strip_space (CHR ''-'' # s) = CHR ''-'' # s"
    using digits_last [OF s] digit_facts [of "last s"]
    by (intro strip_space_ends) (auto simp: is_space_def)
  with s show ?thesis by (simp add: py_int_def py_int_unsigned_digits)
qed

lemma py_int_show_int [simp]: "py_int (show_int i) = Some i"
  by (cases "i < 0") (simp_all add: show_int_def py_int_minus_digits)

text \<open>\<open>try: ... except (A, B): raise E\<close>.\<close>

definition catching :: "exc list \<Rightarrow> exc \<Rightarrow> 'a res \<Rightarrow> 'a res" where
  "catching es e m = (case m of Inl x \<Rightarrow> if x \<in> set es then Inl e else Inl x | Inr y \<Rightarrow> Inr y)"

lemma catching_Ok_iff [res_simps]: "catching es e m = Inr y \<longleftrightarrow> m = Inr y"
  by (auto simp: catching_def split: sum.splits)

lemma catching_Ok [simp]: "catching es e (Inr y) = Inr y"
  by (simp add: catching_def)

text \<open>\<open>/family/channel/option\<close>, the concrete path of a per-channel register.\<close>

definition chan_path :: "string \<Rightarrow> int \<Rightarrow> string \<Rightarrow> string" where
  "chan_path family channel option =
     CHR ''/'' # family @ CHR ''/'' # show_int channel @ CHR ''/'' # option"

lemma split_chan_path [path_simps]:
  "CHR ''/'' \<notin> set family \<Longrightarrow>
     split_on CHR ''/'' (chan_path family channel option)
       = [] # family # show_int channel # split_on CHR ''/'' option"
  by (simp add: chan_path_def split_on_append)

lemma chan_path_inject:
  assumes "CHR ''/'' \<notin> set f" and "CHR ''/'' \<notin> set g"
  shows "chan_path f c opt = chan_path g d opt' \<longleftrightarrow> f = g \<and> c = d \<and> opt = opt'"
proof
  assume "chan_path f c opt = chan_path g d opt'"
  then have "split_on CHR ''/'' (chan_path f c opt) = split_on CHR ''/'' (chan_path g d opt')" by simp
  then show "f = g \<and> c = d \<and> opt = opt'"
    using assms by (auto simp: split_chan_path dest: split_on_inject)
qed simp

end
