(* ===== verification/PyFloat.thy ===== *)
theory PyFloat
  imports Prelude
begin

text \<open>
  Python floats. A finite float is the rational it denotes (the sign of a zero is not
  modelled), and every operation of the source rounds as IEEE 754 does: to the nearest
  multiple of the unit in the last place, ties to even, with 53 bits and least exponent
  -1074 for a Python float (\<open>dround\<close>) and with 24 bits and least exponent -149 for a
  float packed with \<open>struct.pack("!f", x)\<close> (\<open>struct_f32\<close>). The lemmas give what the
  numeric contracts rest on: rounding is monotone, keeps representable values, and errs by
  at most half a unit.
\<close>

section \<open>Rounding to a binary format\<close>

fun bit_length :: "nat \<Rightarrow> nat" where
  "bit_length n = (if n = 0 then 0 else Suc (bit_length (n div 2)))"

declare bit_length.simps [simp del]

text \<open>The exponent of a positive rational: \<open>2 powi ilog2 q \<le> q < 2 powi (ilog2 q + 1)\<close>.\<close>

definition ilog2 :: "rat \<Rightarrow> int" where
  "ilog2 q = (let (a, b) = quotient_of q;
                  k = int (bit_length (nat a)) - int (bit_length (nat b))
              in if 2 powi k \<le> q then k else k - 1)"

text \<open>Nearest integer, ties to even.\<close>

definition round_he :: "rat \<Rightarrow> int" where
  "round_he x = (let f = \<lfloor>x\<rfloor>; d = x - of_int f
                 in if d < 1/2 then f else if 1/2 < d then f + 1
                    else if even f then f else f + 1)"

definition ulp_exp :: "nat \<Rightarrow> int \<Rightarrow> rat \<Rightarrow> int" where
  "ulp_exp p emin q = max (ilog2 \<bar>q\<bar> - (int p - 1)) emin"

definition rnd :: "nat \<Rightarrow> int \<Rightarrow> rat \<Rightarrow> rat" where
  "rnd p emin q =
     (if q = 0 then 0
      else of_int (round_he (q / 2 powi ulp_exp p emin q)) * 2 powi ulp_exp p emin q)"

lemma bit_length_bounds: "0 < n \<Longrightarrow> 2 ^ (bit_length n - 1) \<le> n \<and> n < 2 ^ bit_length n"
proof (induction n rule: bit_length.induct)
  case (1 n)
  show ?case
  proof (cases "n div 2 = 0")
    case True
    with 1 have "n = 1" by simp
    then show ?thesis by (simp add: bit_length.simps)
  next
    case False
    with 1 have IH: "2 ^ (bit_length (n div 2) - 1) \<le> n div 2" "n div 2 < 2 ^ bit_length (n div 2)"
      by auto
    from False have "0 < bit_length (n div 2)" by (simp add: bit_length.simps)
    then obtain k where k: "bit_length (n div 2) = Suc k" by (cases "bit_length (n div 2)") auto
    have "bit_length n = Suc (Suc k)" using 1 k by (simp add: bit_length.simps [of n])
    with IH k show ?thesis by auto
  qed
qed

lemma powi_add: "(2::rat) powi (i + j) = 2 powi i * 2 powi j"
  by (rule power_int_add) simp

lemma powi_nat: "0 \<le> k \<Longrightarrow> (2::rat) powi k = 2 ^ nat k"
  by (simp add: power_int_def)

lemma powi_quot: "j \<le> i \<Longrightarrow> (2::rat) powi i / 2 powi j = of_int (2 ^ nat (i - j))"
  by (simp add: power_int_diff [symmetric] powi_nat)

lemma ilog2_bounds:
  assumes "0 < q"
  shows "2 powi ilog2 q \<le> q" and "q < 2 powi (ilog2 q + 1)"
proof -
  obtain a b where ab: "quotient_of q = (a, b)" by (cases "quotient_of q")
  have b: "0 < b" using ab by (rule quotient_of_denom_pos)
  have q: "q = of_int a / of_int b" using ab by (rule quotient_of_div)
  have a: "0 < a" using assms b by (simp add: q zero_less_divide_iff)
  define m n where "m = bit_length (nat a)" and "n = bit_length (nat b)"
  define k where "k = int m - int n"
  have ma: "2 ^ (m - 1) \<le> nat a" "nat a < 2 ^ m" and nb: "2 ^ (n - 1) \<le> nat b" "nat b < 2 ^ n"
    using bit_length_bounds [of "nat a"] bit_length_bounds [of "nat b"] a b
    by (auto simp: m_def n_def)
  have pos: "0 < m" "0 < n" using a b by (simp_all add: m_def n_def bit_length.simps)
  have ma': "(2::rat) powi (int m - 1) \<le> of_int a" "(of_int a :: rat) < 2 powi int m"
    and nb': "(2::rat) powi (int n - 1) \<le> of_int b" "(of_int b :: rat) < 2 powi int n"
  proof -
    have *: "(2::rat) powi (int j - 1) = 2 ^ (j - 1)" if "0 < j" for j
      using that by (simp add: power_int_def nat_diff_distrib)
    have "(2::int) ^ (m - 1) \<le> a" "a < 2 ^ m" "(2::int) ^ (n - 1) \<le> b" "b < 2 ^ n"
      using ma nb a b by (simp_all add: le_nat_iff nat_less_iff)
    then have "(of_int (2 ^ (m - 1)) :: rat) \<le> of_int a" "(of_int a :: rat) < of_int (2 ^ m)"
      "(of_int (2 ^ (n - 1)) :: rat) \<le> of_int b" "(of_int b :: rat) < of_int (2 ^ n)"
      by (simp_all only: of_int_le_iff of_int_less_iff)
    then show "(2::rat) powi (int m - 1) \<le> of_int a" "(of_int a :: rat) < 2 powi int m"
      "(2::rat) powi (int n - 1) \<le> of_int b" "(of_int b :: rat) < 2 powi int n"
      by (simp_all add: * pos)
  qed
  have low: "2 powi (k - 1) \<le> q"
  proof -
    have "(2::rat) powi (k - 1) * of_int b \<le> 2 powi (k - 1) * 2 powi int n"
      using nb'(2) by (intro mult_left_mono) auto
    also have "\<dots> = 2 powi (k - 1 + int n)" by (simp only: powi_add)
    also have "\<dots> = 2 powi (int m - 1)" by (simp add: k_def)
    also have "\<dots> \<le> of_int a" by (rule ma')
    finally show ?thesis using b by (simp add: q pos_le_divide_eq)
  qed
  have high: "q < 2 powi (k + 1)"
  proof -
    have "of_int a < (2::rat) powi int m" by (rule ma')
    also have "\<dots> = 2 powi (k + 1 + (int n - 1))" by (simp add: k_def)
    also have "\<dots> = 2 powi (k + 1) * 2 powi (int n - 1)" by (rule power_int_add) simp
    also have "\<dots> \<le> 2 powi (k + 1) * of_int b" using nb'(1) by (intro mult_left_mono) auto
    finally show ?thesis using b by (simp add: q pos_divide_less_eq)
  qed
  have il: "ilog2 q = (if 2 powi k \<le> q then k else k - 1)"
    by (simp add: ilog2_def ab k_def m_def n_def)
  show "2 powi ilog2 q \<le> q" using low by (simp add: il)
  show "q < 2 powi (ilog2 q + 1)" using high by (auto simp: il not_le)
qed

lemma powi_less_cancel: "(2::rat) powi i < 2 powi j \<longleftrightarrow> i < j"
  by (metis linorder_neqE_linordered_idom one_less_numeral_iff order_less_asym order_less_irrefl
      power_int_strict_increasing semiring_norm(76))

lemma powi_le_cancel: "(2::rat) powi i \<le> 2 powi j \<longleftrightarrow> i \<le> j"
  using powi_less_cancel [of j i] by (simp add: not_less [symmetric])

lemma ilog2_less:
  assumes "0 < q" and "q < 2 powi k"
  shows "ilog2 q < k"
proof -
  have "(2::rat) powi ilog2 q < 2 powi k" using ilog2_bounds(1) [OF assms(1)] assms(2) by linarith
  then show ?thesis by (simp add: powi_less_cancel)
qed

lemma ilog2_mono:
  assumes "0 < x" and "x \<le> y"
  shows "ilog2 x \<le> ilog2 y"
proof -
  have "x < 2 powi (ilog2 y + 1)" using ilog2_bounds(2) [of y] assms by linarith
  then show ?thesis using ilog2_less [OF assms(1)] by fastforce
qed

subsection \<open>Rounding to an integer\<close>

lemma round_he_err: "\<bar>of_int (round_he x) - x\<bar> \<le> 1/2"
proof -
  have "of_int \<lfloor>x\<rfloor> \<le> x" "x < of_int \<lfloor>x\<rfloor> + 1" by linarith+
  then show ?thesis unfolding round_he_def Let_def by (simp split: if_split)
qed

lemma round_he_int [simp]: "round_he (of_int i) = i"
  by (simp add: round_he_def)

lemma round_he_mono: "x \<le> y \<Longrightarrow> round_he x \<le> round_he y"
proof (rule ccontr)
  assume le: "x \<le> y" and "\<not> round_he x \<le> round_he y"
  then have "(of_int (round_he y) :: rat) + 1 \<le> of_int (round_he x)"
    by (metis linorder_not_le of_int_1 of_int_add of_int_le_iff zless_imp_add1_zle)
  moreover have "\<bar>of_int (round_he x) - x\<bar> \<le> 1/2" "\<bar>of_int (round_he y) - y\<bar> \<le> 1/2"
    by (rule round_he_err)+
  ultimately have "x = y" using le by linarith
  with \<open>\<not> round_he x \<le> round_he y\<close> show False by simp
qed

lemma round_he_minus: "round_he (- x) = - round_he x"
proof (cases "x = of_int \<lfloor>x\<rfloor>")
  case True
  then have "- x = of_int (- \<lfloor>x\<rfloor>)" by simp
  then show ?thesis by (metis True round_he_int)
next
  case False
  then have fl: "\<lfloor>- x\<rfloor> = - \<lfloor>x\<rfloor> - 1" by linarith
  have "of_int \<lfloor>x\<rfloor> \<le> x" "x < of_int \<lfloor>x\<rfloor> + 1" by linarith+
  with fl show ?thesis by (auto simp: round_he_def Let_def)
qed

subsection \<open>Rounding to the format\<close>

lemma rnd_zero [simp]: "rnd p emin 0 = 0"
  by (simp add: rnd_def)

lemma rnd_minus: "rnd p emin (- q) = - rnd p emin q"
proof -
  have "ulp_exp p emin (- q) = ulp_exp p emin q" by (simp add: ulp_exp_def)
  then show ?thesis by (simp add: rnd_def round_he_minus minus_divide_left [symmetric])
qed

lemma rnd_err_ulp:
  assumes "q \<noteq> 0"
  shows "\<bar>rnd p emin q - q\<bar> \<le> 2 powi ulp_exp p emin q / 2"
proof -
  let ?e = "ulp_exp p emin q"
  have pos: "0 < (2::rat) powi ?e" by simp
  have "rnd p emin q - q = (of_int (round_he (q / 2 powi ?e)) - q / 2 powi ?e) * 2 powi ?e"
    using assms by (simp add: rnd_def left_diff_distrib)
  then have "\<bar>rnd p emin q - q\<bar>
      = \<bar>of_int (round_he (q / 2 powi ?e)) - q / 2 powi ?e\<bar> * 2 powi ?e"
    by (simp add: abs_mult)
  also have "\<dots> \<le> 1/2 * 2 powi ?e"
    by (intro mult_right_mono round_he_err) simp
  finally show ?thesis by simp
qed

text \<open>The error: relative to the value, or half the least unit near zero.\<close>

lemma rnd_err: "\<bar>rnd p emin q - q\<bar> \<le> max (\<bar>q\<bar> / 2 ^ p) (2 powi emin / 2)"
proof (cases "q = 0")
  case True
  then show ?thesis by simp
next
  case False
  let ?e = "ulp_exp p emin q"
  have "2 powi ?e / 2 \<le> max (\<bar>q\<bar> / 2 ^ p) (2 powi emin / 2)"
  proof (cases "?e = emin")
    case True
    then show ?thesis by simp
  next
    case ne: False
    then have e: "?e = ilog2 \<bar>q\<bar> - (int p - 1)" by (auto simp: ulp_exp_def max_def split: if_splits)
    have "(2::rat) powi ?e / 2 = 2 powi (?e - 1)" by (simp add: power_int_diff)
    also have "\<dots> = 2 powi ilog2 \<bar>q\<bar> / 2 ^ p"
      by (simp add: e power_int_diff)
    also have "\<dots> \<le> \<bar>q\<bar> / 2 ^ p"
      using ilog2_bounds(1) [of "\<bar>q\<bar>"] False by (intro divide_right_mono) auto
    finally show ?thesis by (simp add: max.coboundedI1 del: divide_le_eq_numeral1)
  qed
  with rnd_err_ulp [OF False, of p emin] show ?thesis by linarith
qed

text \<open>A value with at most \<open>p\<close> significant bits is kept.\<close>

lemma rnd_fix:
  assumes "x = of_int m * 2 powi e" and "\<bar>m\<bar> < 2 ^ p" and "emin \<le> e"
  shows "rnd p emin x = x"
proof (cases "x = 0")
  case True
  then show ?thesis by simp
next
  case False
  have mm: "\<bar>(of_int m :: rat)\<bar> < 2 ^ p"
  proof -
    have "(of_int \<bar>m\<bar> :: rat) < of_int (2 ^ p)" using assms(2) by (simp only: of_int_less_iff)
    then show ?thesis by simp
  qed
  have "\<bar>x\<bar> < 2 ^ p * 2 powi e"
    using mm by (simp add: assms(1) abs_mult)
  then have "\<bar>x\<bar> < 2 powi (int p + e)" by (simp add: power_int_add)
  then have "ilog2 \<bar>x\<bar> < int p + e" using False by (intro ilog2_less) auto
  then have le: "ulp_exp p emin x \<le> e" using assms(3) by (auto simp: ulp_exp_def)
  let ?u = "ulp_exp p emin x"
  have "x / 2 powi ?u = of_int m * 2 powi (e - ?u)"
    by (simp add: assms(1) power_int_diff)
  also have "\<dots> = of_int (m * 2 ^ nat (e - ?u))" using le by (simp add: power_int_def)
  finally have "x / 2 powi ?u = of_int (m * 2 ^ nat (e - ?u))" .
  then have "of_int (round_he (x / 2 powi ?u)) = x / 2 powi ?u" by (metis round_he_int)
  with False show ?thesis by (simp add: rnd_def)
qed

lemma rnd_fix_int: "\<bar>m\<bar> < 2 ^ p \<Longrightarrow> emin \<le> 0 \<Longrightarrow> rnd p emin (of_int m) = of_int m"
  by (rule rnd_fix [of _ m 0]) auto

text \<open>Every result has at most \<open>p\<close> significant bits.\<close>

lemma rnd_representable:
  assumes "0 < p"
  obtains m e where "rnd p emin q = of_int m * 2 powi e" and "\<bar>m\<bar> < 2 ^ p" and "emin \<le> e"
proof (cases "q = 0")
  case True
  show ?thesis using that [of 0 emin] True by simp
next
  case False
  let ?e = "ulp_exp p emin q" and ?m = "round_he (q / 2 powi ulp_exp p emin q)"
  have "\<bar>q\<bar> < 2 powi (ilog2 \<bar>q\<bar> + 1)" using False by (intro ilog2_bounds) simp
  also have "\<dots> \<le> 2 powi (int p + ?e)" by (simp add: powi_le_cancel ulp_exp_def)
  finally have "\<bar>q\<bar> < 2 ^ p * 2 powi ?e" by (simp add: power_int_add)
  then have "\<bar>q / 2 powi ?e\<bar> < 2 ^ p" by (simp add: pos_divide_less_eq)
  then have "- (2 ^ p) \<le> q / 2 powi ?e" "q / 2 powi ?e \<le> 2 ^ p" by linarith+
  then have "round_he (of_int (- (2 ^ p))) \<le> ?m" "?m \<le> round_he (of_int (2 ^ p))"
    by (intro round_he_mono; simp)+
  then have mb: "\<bar>?m\<bar> \<le> 2 ^ p" unfolding round_he_int by linarith
  have r: "rnd p emin q = of_int ?m * 2 powi ?e" using False by (simp add: rnd_def)
  have ee: "emin \<le> ?e" by (simp add: ulp_exp_def)
  show ?thesis
  proof (cases "\<bar>?m\<bar> = 2 ^ p")
    case False
    with mb have "\<bar>?m\<bar> < 2 ^ p" by simp
    with that [OF r] ee show ?thesis by blast
  next
    case True
    obtain k where k: "p = Suc k" using assms by (cases p) auto
    define s where "s = (if 0 \<le> ?m then 1 else - 1 :: int)"
    have ms: "?m = s * 2 ^ p" using True by (auto simp: s_def)
    have "rnd p emin q = of_int (s * 2 ^ k) * 2 powi (?e + 1)"
      unfolding r ms by (simp add: k powi_add)
    moreover have "\<bar>s * 2 ^ k\<bar> < 2 ^ p" by (simp add: s_def abs_mult k)
    ultimately show ?thesis using that [of "s * 2 ^ k" "?e + 1"] ee by auto
  qed
qed

lemma rnd_idem: "0 < p \<Longrightarrow> rnd p emin (rnd p emin q) = rnd p emin q"
  by (metis rnd_fix rnd_representable)

lemma rnd_nonneg: "0 \<le> q \<Longrightarrow> 0 \<le> rnd p emin q"
proof -
  assume "0 \<le> q"
  then have "round_he 0 \<le> round_he (q / 2 powi ulp_exp p emin q)" by (intro round_he_mono) simp
  moreover have "round_he 0 = 0" using round_he_int [of 0] by simp
  ultimately show ?thesis by (simp add: rnd_def)
qed

text \<open>Powers of two at or above the least unit are kept, so rounding stays within its binade.\<close>

lemma rnd_powi: "0 < p \<Longrightarrow> emin \<le> k \<Longrightarrow> rnd p emin (2 powi k) = 2 powi k"
  by (rule rnd_fix [of _ 1 k]) auto

lemma rnd_mono_same_exp:
  "0 < x \<Longrightarrow> x \<le> y \<Longrightarrow> ulp_exp p emin x = ulp_exp p emin y \<Longrightarrow> rnd p emin x \<le> rnd p emin y"
  by (simp add: rnd_def round_he_mono divide_right_mono)

lemma rnd_le_powi:
  assumes "0 < x" and "x \<le> 2 powi k" and "emin \<le> k" and "ulp_exp p emin x \<le> k"
  shows "rnd p emin x \<le> 2 powi k"
proof -
  let ?e = "ulp_exp p emin x"
  have "x / 2 powi ?e \<le> 2 powi k / 2 powi ?e" using assms(2) by (simp add: divide_right_mono)
  also have "\<dots> = of_int (2 ^ nat (k - ?e))"
    using assms(4) by (rule powi_quot)
  finally have "round_he (x / 2 powi ?e) \<le> 2 ^ nat (k - ?e)"
    using round_he_mono round_he_int by metis
  then have "(of_int (round_he (x / 2 powi ?e)) :: rat) \<le> of_int (2 ^ nat (k - ?e))"
    by (simp only: of_int_le_iff)
  also have "\<dots> = 2 powi (k - ?e)" using assms(4) by (simp add: power_int_def)
  finally have "of_int (round_he (x / 2 powi ?e)) * 2 powi ?e \<le> (2 powi (k - ?e) * 2 powi ?e :: rat)"
    by (intro mult_right_mono) auto
  also have "\<dots> = 2 powi k" by (simp add: power_int_add [symmetric])
  finally show ?thesis using assms(1) by (simp add: rnd_def)
qed

lemma rnd_ge_powi:
  assumes "2 powi k \<le> y" and "ulp_exp p emin y \<le> k"
  shows "2 powi k \<le> rnd p emin y"
proof -
  let ?e = "ulp_exp p emin y"
  have y: "0 < y" using assms(1) by (rule less_le_trans [rotated]) simp
  have "of_int (2 ^ nat (k - ?e)) = (2 powi k / 2 powi ?e :: rat)"
    using powi_quot [OF assms(2)] by simp
  also have "\<dots> \<le> y / 2 powi ?e" using assms(1) by (simp add: divide_right_mono)
  finally have "2 ^ nat (k - ?e) \<le> round_he (y / 2 powi ?e)"
    using round_he_mono round_he_int by metis
  then have "(of_int (2 ^ nat (k - ?e)) :: rat) \<le> of_int (round_he (y / 2 powi ?e))"
    by (simp only: of_int_le_iff)
  then have "2 powi (k - ?e) * 2 powi ?e \<le> (of_int (round_he (y / 2 powi ?e)) * 2 powi ?e :: rat)"
    using assms(2) by (intro mult_right_mono) (auto simp: power_int_def)
  moreover have "2 powi (k - ?e) * 2 powi ?e = (2 powi k :: rat)"
    by (simp add: power_int_add [symmetric])
  ultimately show ?thesis using y by (simp add: rnd_def)
qed

lemma rnd_mono_pos:
  assumes p: "0 < p" and x: "0 < x" and le: "x \<le> y"
  shows "rnd p emin x \<le> rnd p emin y"
proof (cases "ulp_exp p emin x = ulp_exp p emin y")
  case True
  then show ?thesis using rnd_mono_same_exp x le by blast
next
  case False
  have il: "ilog2 x \<le> ilog2 y" by (rule ilog2_mono [OF x le])
  with False x le have ey: "ulp_exp p emin y = ilog2 y - (int p - 1)"
    and lt: "ilog2 x < ilog2 y"
    by (auto simp: ulp_exp_def max_def split: if_splits)
  have big: "emin < ilog2 y - (int p - 1)"
    using False il x le by (auto simp: ulp_exp_def max_def split: if_splits)
  have "x \<le> 2 powi ilog2 y"
  proof -
    have "x < 2 powi (ilog2 x + 1)" by (rule ilog2_bounds(2) [OF x])
    also have "\<dots> \<le> 2 powi ilog2 y" using lt by (simp add: powi_le_cancel)
    finally show ?thesis by simp
  qed
  moreover have "ulp_exp p emin x \<le> ilog2 y"
    using big lt p x by (auto simp: ulp_exp_def)
  ultimately have "rnd p emin x \<le> 2 powi ilog2 y"
    using big p by (intro rnd_le_powi x) auto
  also have "\<dots> \<le> rnd p emin y"
    using ilog2_bounds(1) [of y] x le p by (intro rnd_ge_powi) (auto simp: ey)
  finally show ?thesis .
qed

lemma rnd_mono:
  assumes p: "0 < p" and le: "x \<le> y"
  shows "rnd p emin x \<le> rnd p emin y"
proof -
  consider "0 < x" | "x \<le> 0" "0 \<le> y" | "y < 0" by linarith
  then show ?thesis
  proof cases
    case 1
    then show ?thesis using rnd_mono_pos p le by blast
  next
    case 2
    then have "0 \<le> rnd p emin (- x)" "0 \<le> rnd p emin y" by (auto intro: rnd_nonneg)
    then show ?thesis by (simp add: rnd_minus)
  next
    case 3
    then have "rnd p emin (- y) \<le> rnd p emin (- x)" using rnd_mono_pos p le by simp
    then show ?thesis by (simp add: rnd_minus)
  qed
qed

section \<open>The rounding interface\<close>

text \<open>
  What the numeric contracts use of a float format: rounding is monotone, idempotent,
  odd, keeps small integers and has a bounded error. Both formats of the program, the
  Python float and the OSC float, are interpretations.
\<close>

locale float_format =
  fixes r :: "rat \<Rightarrow> rat" and p :: nat and least :: rat
  assumes mono: "x \<le> y \<Longrightarrow> r x \<le> r y"
    and idem: "r (r x) = r x"
    and odd: "r (- x) = - r x"
    and keeps_int: "\<bar>m\<bar> < 2 ^ p \<Longrightarrow> r (of_int m) = of_int m"
    and err: "\<bar>r x - x\<bar> \<le> max (\<bar>x\<bar> / 2 ^ p) least"
    and least_pos: "0 < least"
begin

lemma zero [simp]: "r 0 = 0"
  using keeps_int [of 0] by simp

lemma nonneg: "0 \<le> x \<Longrightarrow> 0 \<le> r x"
  using mono [of 0 x] by simp

lemma nonpos: "x \<le> 0 \<Longrightarrow> r x \<le> 0"
  using mono [of x 0] by simp

lemma le_int: "x \<le> of_int m \<Longrightarrow> \<bar>m\<bar> < 2 ^ p \<Longrightarrow> r x \<le> of_int m"
  using mono [of x "of_int m"] by (simp add: keeps_int)

lemma ge_int: "of_int m \<le> x \<Longrightarrow> \<bar>m\<bar> < 2 ^ p \<Longrightarrow> of_int m \<le> r x"
  using mono [of "of_int m" x] by (simp add: keeps_int)

lemma abs_le: "\<bar>r x\<bar> \<le> \<bar>x\<bar> + max (\<bar>x\<bar> / 2 ^ p) least"
  using err [of x] by linarith

lemma err_within: "\<bar>x\<bar> \<le> B \<Longrightarrow> \<bar>r x - x\<bar> \<le> max (B / 2 ^ p) least"
  using err [of x] divide_right_mono [of "\<bar>x\<bar>" B "2 ^ p"] by (simp add: max_def split: if_splits)

end

text \<open>\<open>d64\<close> rounds to a Python float, \<open>f32\<close> to an OSC float; range is checked separately.\<close>

definition d64 :: "rat \<Rightarrow> rat" where
  "d64 q = rnd 53 (-1074) q"

definition f32 :: "rat \<Rightarrow> rat" where
  "f32 q = rnd 24 (-149) q"

lemma format_laws:
  assumes "0 < p" and "emin \<le> 0"
  shows "float_format (rnd p emin) p (2 powi emin / 2)"
  using assms by unfold_locales
    (auto intro: rnd_mono rnd_idem rnd_minus rnd_fix_int rnd_err simp del: less_divide_eq_numeral1)

interpretation d64: float_format d64 53 "2 powi (-1074) / 2"
  using format_laws [of 53 "-1074"] by (simp add: d64_def [abs_def])

interpretation f32: float_format f32 24 "2 powi (-149) / 2"
  using format_laws [of 24 "-149"] by (simp add: f32_def [abs_def])

text \<open>Every OSC float is a Python float.\<close>

lemma d64_f32 [simp]: "d64 (f32 q) = f32 q"
proof -
  obtain m e where r: "f32 q = of_int m * 2 powi e" and m: "\<bar>m\<bar> < 2 ^ 24" and e: "-149 \<le> e"
    unfolding f32_def by (rule rnd_representable [of 24]) auto
  from m have "\<bar>m\<bar> < 2 ^ 53" by simp
  with r e show ?thesis unfolding d64_def by (intro rnd_fix [of _ m e]) auto
qed

section \<open>Python floats\<close>

text \<open>The first magnitudes beyond the finite range.\<close>

definition F32_LIMIT :: rat where "F32_LIMIT = 2 ^ 128"
definition D64_LIMIT :: rat where "D64_LIMIT = 2 ^ 1024"

lemma format_limits: "70000 < F32_LIMIT" "70000 < D64_LIMIT" "F32_LIMIT < D64_LIMIT"
  by (simp_all add: F32_LIMIT_def D64_LIMIT_def)

datatype fl = Fin rat | PInf | NInf | NaN

text \<open>The float of an exact result; beyond the range it is an infinity.\<close>

definition dround :: "rat \<Rightarrow> fl" where
  "dround q = (let r = d64 q in if D64_LIMIT \<le> r then PInf else if r \<le> - D64_LIMIT then NInf else Fin r)"

text \<open>A literal of the source, such as \<open>0.1\<close>.\<close>

abbreviation dlit :: "rat \<Rightarrow> rat" where
  "dlit \<equiv> d64"

text \<open>Comparison of floats; every comparison with NaN fails.\<close>

fun fl_eq :: "fl \<Rightarrow> fl \<Rightarrow> bool" where
  "fl_eq (Fin a) (Fin b) = (a = b)"
| "fl_eq PInf PInf = True"
| "fl_eq NInf NInf = True"
| "fl_eq _ _ = False"

fun fl_less :: "fl \<Rightarrow> fl \<Rightarrow> bool" where
  "fl_less (Fin a) (Fin b) = (a < b)"
| "fl_less (Fin a) PInf = True"
| "fl_less NInf (Fin b) = True"
| "fl_less NInf PInf = True"
| "fl_less _ _ = False"

definition fl_le :: "fl \<Rightarrow> fl \<Rightarrow> bool" where
  "fl_le a b = (fl_less a b \<or> fl_eq a b)"

lemma fl_le_Fin [simp]: "fl_le (Fin a) (Fin b) \<longleftrightarrow> a \<le> b"
  by (auto simp: fl_le_def)

lemma fl_eq_Fin: "fl_eq x (Fin b) \<longleftrightarrow> x = Fin b"
  by (cases x) auto

text \<open>\<open>struct.unpack("!f", struct.pack("!f", x))\<close>: a finite value that rounds past the range
  raises OverflowError, an infinity or NaN passes.\<close>

fun struct_f32 :: "fl \<Rightarrow> fl res" where
  "struct_f32 (Fin q) = (if F32_LIMIT \<le> \<bar>f32 q\<bar> then Raise OverflowError else Ok (Fin (f32 q)))"
| "struct_f32 x = Ok x"

section \<open>Dynamic values\<close>

text \<open>
  A value of the code whose class matters: an OSC argument (\<^verbatim>\<open>osc.Value\<close>, where a Python bool
  may be passed as well) or a setting of the config (\<^verbatim>\<open>model.SettingValue\<close>).
\<close>

datatype pyval = VInt int | VFloat fl | VBool bool | VStr string

text \<open>\<open>float(x)\<close> of an int: exact up to 53 bits, else rounded; OverflowError beyond the range.\<close>

definition float_of_int :: "int \<Rightarrow> fl res" where
  "float_of_int i = (case dround (of_int i) of Fin q \<Rightarrow> Ok (Fin q) | _ \<Rightarrow> Raise OverflowError)"

text \<open>The exact number a value stands for in a comparison; None for a string.\<close>

fun num_of :: "pyval \<Rightarrow> fl option" where
  "num_of (VInt i) = Some (Fin (of_int i))"
| "num_of (VFloat x) = Some x"
| "num_of (VBool b) = Some (Fin (if b then 1 else 0))"
| "num_of (VStr s) = None"

text \<open>Python's \<open>==\<close>: numbers compare by value whatever their class.\<close>

definition py_eq :: "pyval \<Rightarrow> pyval \<Rightarrow> bool" where
  "py_eq a b = (case (a, b) of (VStr s, VStr t) \<Rightarrow> s = t
                | _ \<Rightarrow> (case (num_of a, num_of b) of
                         (Some x, Some y) \<Rightarrow> fl_eq x y | _ \<Rightarrow> False))"

lemma py_eq_simps [simp]:
  "py_eq (VInt i) (VInt j) \<longleftrightarrow> i = j"
  "py_eq (VInt i) (VFloat (Fin q)) \<longleftrightarrow> of_int i = q"
  "py_eq (VFloat (Fin q)) (VInt i) \<longleftrightarrow> q = of_int i"
  "py_eq (VFloat x) (VFloat y) \<longleftrightarrow> fl_eq x y"
  "py_eq (VStr s) (VStr t) \<longleftrightarrow> s = t"
  "py_eq (VBool b) (VBool c) \<longleftrightarrow> b = c"
  "py_eq (VBool b) (VInt i) \<longleftrightarrow> i = (if b then 1 else 0)"
  "py_eq (VInt i) (VBool b) \<longleftrightarrow> i = (if b then 1 else 0)"
  "\<not> py_eq (VInt i) (VStr t)" "\<not> py_eq (VFloat x) (VStr t)" "\<not> py_eq (VBool b) (VStr t)"
  "\<not> py_eq (VStr t) (VInt i)" "\<not> py_eq (VStr t) (VFloat x)" "\<not> py_eq (VStr t) (VBool b)"
  by (auto simp: py_eq_def)

text \<open>Equality of argument tuples.\<close>

definition args_eq :: "pyval list \<Rightarrow> pyval list \<Rightarrow> bool" where
  "args_eq xs ys = list_all2 py_eq xs ys"

end
