(* ===== verification/Registers.thy ===== *)
theory Registers
  imports PyFloat
begin

text \<open>
  \<^verbatim>\<open>registers.py\<close>: what a register row and a device are, and the lookups the parser, the
  planner and the verifier ask. A device is optional everywhere (\<open>None\<close>: nobody modelled it),
  and every question answers that case with no opinion. \<^verbatim>\<open>constants.py\<close> is here as far as the
  pure code uses it.
\<close>

section \<open>Constants\<close>

definition LEVEL_MIN :: rat where "LEVEL_MIN = -65"
definition LEVEL_MAX :: rat where "LEVEL_MAX = 6"
definition CHANNEL_MIN :: int where "CHANNEL_MIN = 1"
definition CHANNEL_MAX :: int where "CHANNEL_MAX = 64"

text \<open>
  \<open>20.0 * math.log10(2.0)\<close> as the Python float it evaluates to, 6.020599913279624: the
  rational is that double exactly (the correctly rounded product of 20 and the double
  nearest to log10 2).
\<close>

definition UNLINKED_GAIN_OFFSET :: rat where
  "UNLINKED_GAIN_OFFSET = 6778592881498239 / 1125899906842624"

definition WATCH_SETTLE :: rat where "WATCH_SETTLE = 2"
definition WATCH_LONGEST :: rat where "WATCH_LONGEST = 10"
definition WATCH_REPEATS :: nat where "WATCH_REPEATS = 3"
definition WATCH_REPEAT_WINDOW :: rat where "WATCH_REPEAT_WINDOW = 60"
definition WATCH_CONNECTIONS :: nat where "WATCH_CONNECTIONS = 3"

definition DEFAULT_DEVICE_NAME :: string where "DEFAULT_DEVICE_NAME = ''Fireface UCX II''"
definition DEFAULT_USB_ID :: string where "DEFAULT_USB_ID = ''2a39:3fd9''"
definition DEFAULT_OSC_PORT :: int where "DEFAULT_OSC_PORT = 7222"
definition DEFAULT_OSC_RECV_PORT :: int where "DEFAULT_OSC_RECV_PORT = 8222"

section \<open>Rows and devices\<close>

datatype verify_class = VERIFIABLE | WRITE_ONLY | REESTABLISHED

datatype policy = PIN | REMEMBER

datatype domain = BOOL | ENUM | NUMBER

text \<open>The capability of a register without a channel dimension.\<close>

definition GLOBAL :: string where "GLOBAL = ''global''"

text \<open>What a section calls a family's own on/off register.\<close>

definition ENABLE_OPTION :: string where "ENABLE_OPTION = ''enabled''"

record register =
  reg_template :: string
  reg_tags :: string
  reg_verify :: verify_class
  reg_channels :: string
  reg_domain :: "domain option"
  reg_choices :: "string list"
  reg_values :: "int list"
  reg_lo :: "rat option"
  reg_hi :: "rat option"
  reg_unit :: string
  reg_policy :: policy
  reg_scale :: "rat option"
  reg_truncates :: bool
  reg_mix_level :: bool

text \<open>A row with every optional field at its default.\<close>

definition Register :: "string \<Rightarrow> string \<Rightarrow> verify_class \<Rightarrow> string \<Rightarrow> register" where
  "Register template tags verify channels =
     \<lparr>reg_template = template, reg_tags = tags, reg_verify = verify, reg_channels = channels,
      reg_domain = None, reg_choices = [], reg_values = [], reg_lo = None, reg_hi = None,
      reg_unit = [], reg_policy = REMEMBER, reg_scale = None, reg_truncates = False,
      reg_mix_level = False\<rparr>"

record device =
  dev_key :: string
  dev_name :: string
  dev_usb_id :: string
  dev_channels :: "(string, int list) dict"
  dev_registers :: "register list"
  dev_supported :: bool
  dev_complete_after_cold_plug :: "string list"

definition is_placeholder :: "string \<Rightarrow> bool" where
  "is_placeholder part = (startswith part ''{'' \<and> endswith part ''}'')"

definition segments :: "string \<Rightarrow> string list" where
  "segments path = split_on CHR ''/'' path"

text \<open>
  \<open>"{ch}" in template\<close>. Every placeholder of the tables is a whole segment; the string
  search is stated on segments.
\<close>

definition per_channel :: "register \<Rightarrow> bool" where
  "per_channel r = (''{ch}'' \<in> set (segments (reg_template r)))"

definition subst_segment :: "string \<Rightarrow> int \<Rightarrow> string \<Rightarrow> string" where
  "subst_segment holder n template =
     join_on CHR ''/'' (map (\<lambda>s. if s = holder then show_int n else s) (segments template))"

text \<open>\<open>register.path(ch=n)\<close>.\<close>

definition reg_path_ch :: "register \<Rightarrow> int \<Rightarrow> string" where
  "reg_path_ch r n = subst_segment ''{ch}'' n (reg_template r)"

definition channels_for :: "device \<Rightarrow> string \<Rightarrow> int list" where
  "channels_for d capability = (case dget (dev_channels d) capability of None \<Rightarrow> [] | Some cs \<Rightarrow> cs)"

definition has :: "device \<Rightarrow> string \<Rightarrow> int \<Rightarrow> bool" where
  "has d capability channel = (channel \<in> set (channels_for d capability))"

section \<open>Which row a concrete path is an instance of\<close>

fun match_parts :: "string list \<Rightarrow> string list \<Rightarrow> bool" where
  "match_parts [] [] = True"
| "match_parts (w # ws) (g # gs) =
     ((if is_placeholder w then is_digits g else w = g) \<and> match_parts ws gs)"
| "match_parts _ _ = False"

text \<open>\<open>_matches\<close>: the lengths agree and every pair of segments does.\<close>

definition matches_template :: "string \<Rightarrow> string \<Rightarrow> bool" where
  "matches_template template path = match_parts (segments template) (segments path)"

fun channel_in_parts :: "string list \<Rightarrow> string list \<Rightarrow> int option" where
  "channel_in_parts (w # ws) (g # gs) =
     (if is_placeholder w then Some (int (nat_of_digits g)) else channel_in_parts ws gs)"
| "channel_in_parts _ _ = None"

definition channel_in :: "string \<Rightarrow> string \<Rightarrow> int option" where
  "channel_in template path = channel_in_parts (segments template) (segments path)"

definition first_match :: "device option \<Rightarrow> string \<Rightarrow> register option" where
  "first_match device path = (case device of None \<Rightarrow> None
     | Some d \<Rightarrow> find (\<lambda>r. matches_template (reg_template r) path) (dev_registers d))"

definition register_policy :: "device option \<Rightarrow> string \<Rightarrow> policy" where
  "register_policy device path =
     (case first_match device path of None \<Rightarrow> REMEMBER | Some r \<Rightarrow> reg_policy r)"

definition verify_class_of :: "device option \<Rightarrow> string \<Rightarrow> verify_class option" where
  "verify_class_of device path = map_option reg_verify (first_match device path)"

text \<open>The row of a concrete path whose channel the device has.\<close>

definition names_register :: "device \<Rightarrow> string \<Rightarrow> register \<Rightarrow> bool" where
  "names_register d path r =
     (matches_template (reg_template r) path
      \<and> (case channel_in (reg_template r) path of None \<Rightarrow> True
         | Some channel \<Rightarrow> has d (reg_channels r) channel))"

definition register_at :: "device option \<Rightarrow> string \<Rightarrow> register option" where
  "register_at device path = (case device of None \<Rightarrow> None
     | Some d \<Rightarrow> find (names_register d path) (dev_registers d))"

definition cold_plug_complete :: "device option \<Rightarrow> string \<Rightarrow> bool" where
  "cold_plug_complete device path = (case device of None \<Rightarrow> False
     | Some d \<Rightarrow> list_ex (\<lambda>template. matches_template template path) (dev_complete_after_cold_plug d))"

text \<open>Every concrete path the model declares; \<open>overrides\<close> is \<open>capability_channels or {}\<close>.\<close>

definition declared_paths :: "device \<Rightarrow> (string, int list) dict \<Rightarrow> string list" where
  "declared_paths d overrides =
     concat (map (\<lambda>r.
       if ''{out}'' \<in> set (segments (reg_template r)) then []
       else if \<not> per_channel r then [reg_template r]
       else map (reg_path_ch r)
              (case dget overrides (reg_channels r) of Some cs \<Rightarrow> cs
               | None \<Rightarrow> channels_for d (reg_channels r)))
     (dev_registers d))"

section \<open>What a section of the config may set\<close>

definition settable_globals :: "device option \<Rightarrow> string \<Rightarrow> (string, register) dict" where
  "settable_globals device family = (case device of None \<Rightarrow> []
     | Some d \<Rightarrow> let pre = CHR ''/'' # family in
         foldl (\<lambda>found r.
           if reg_channels r \<noteq> GLOBAL \<or> reg_domain r = None then found
           else if reg_template r = pre then dset ENABLE_OPTION r found
           else if startswith (reg_template r) (pre @ ''/'')
                then dset (drop (length pre + 1) (reg_template r)) r found
           else found) [] (dev_registers d))"

definition global_families :: "device option \<Rightarrow> string list" where
  "global_families device = (case device of None \<Rightarrow> []
     | Some d \<Rightarrow> sorted_set (map (\<lambda>r. hd (segments (strip_slash (reg_template r))))
                   (filter (\<lambda>r. reg_channels r = GLOBAL) (dev_registers d))))"

text \<open>\<open>template.rsplit("/", 1)[0]\<close>.\<close>

definition parent_of :: "string \<Rightarrow> string" where
  "parent_of t = (let ps = segments t in
     if length ps \<le> 1 then t else join_on CHR ''/'' (butlast ps))"

definition family_prefix :: "string \<Rightarrow> string" where
  "family_prefix family = ''/'' @ family @ ''/{ch}/''"

definition settable_option_rows :: "device option \<Rightarrow> string \<Rightarrow> (string \<times> register) list" where
  "settable_option_rows device family = (case device of None \<Rightarrow> []
     | Some d \<Rightarrow> let pre = family_prefix family;
                     parents = map (\<lambda>r. parent_of (reg_template r)) (dev_registers d)
       in map (\<lambda>r. (drop (length pre) (reg_template r), r))
            (filter (\<lambda>r. reg_domain r \<noteq> None \<and> startswith (reg_template r) pre
                       \<and> CHR ''/'' \<notin> set (drop (length pre) (reg_template r))
                       \<and> reg_template r \<notin> set parents) (dev_registers d)))"

definition settable_options :: "device option \<Rightarrow> string \<Rightarrow> (string, register) dict" where
  "settable_options device family = dupdate [] (settable_option_rows device family)"

definition nested_families :: "device option \<Rightarrow> string \<Rightarrow> string list" where
  "nested_families device family = (case device of None \<Rightarrow> []
     | Some d \<Rightarrow> let pre = family_prefix family in
         sorted_set (concat (map (\<lambda>r.
           if \<not> startswith (reg_template r) pre then []
           else let rest = drop (length pre) (reg_template r) in
             if CHR ''/'' \<in> set rest then [hd (segments rest)] else []) (dev_registers d))))"

definition option_template :: "string \<Rightarrow> string \<Rightarrow> string" where
  "option_template family option = family_prefix family @ option"

definition option_register :: "device option \<Rightarrow> string \<Rightarrow> string \<Rightarrow> int \<Rightarrow> register option" where
  "option_register device family option channel = (case device of None \<Rightarrow> None
     | Some d \<Rightarrow> find (\<lambda>r. reg_template r = option_template family option \<and> reg_domain r \<noteq> None
                           \<and> has d (reg_channels r) channel) (dev_registers d))"

definition option_channels :: "device option \<Rightarrow> string \<Rightarrow> string \<Rightarrow> int list" where
  "option_channels device family option = (case device of None \<Rightarrow> []
     | Some d \<Rightarrow> sorted_set (concat (map (\<lambda>r. channels_for d (reg_channels r))
         (filter (\<lambda>r. reg_template r = option_template family option \<and> reg_domain r \<noteq> None)
            (dev_registers d)))))"

definition settable_nested :: "device option \<Rightarrow> string \<Rightarrow> string \<Rightarrow> (string, register) dict" where
  "settable_nested device sub family = (case device of None \<Rightarrow> []
     | Some d \<Rightarrow> if sub \<notin> set (nested_families device family) then []
       else let pre = family_prefix family @ sub in
         foldl (\<lambda>found r.
           if reg_domain r = None then found
           else if reg_template r = pre then dset ENABLE_OPTION r found
           else if startswith (reg_template r) (pre @ ''/'')
                then dset (drop (length pre + 1) (reg_template r)) r found
           else found) [] (dev_registers d))"

end
