(* ===== verification/Devices.thy ===== *)
theory Devices
  imports Registers
begin

text \<open>
  \<^verbatim>\<open>devices.py\<close>: the register table of the UCX II and the channel map of the 802, row by row.
  A bound or scale of the source is a Python float literal; the decimals that are no
  double, such as \<open>0.1\<close>, are the constants \<open>D0_1\<close>, ... below. The families that repeat per channel (EQ, Room EQ, dynamics, auto
  level, low cut) are built by the same two row generators as in the source.
\<close>

section \<open>Float literals of the table\<close>

definition D0_1 :: rat where "D0_1 = dlit (1/10)"
definition D0_01 :: rat where "D0_01 = dlit (1/100)"
definition D0_001 :: rat where "D0_001 = dlit (1/1000)"
definition D0_4 :: rat where "D0_4 = dlit (2/5)"
definition D9_9 :: rat where "D9_9 = dlit (99/10)"
definition D0_425 :: rat where "D0_425 = dlit (17/40)"

text \<open>Their exact values; as abstract code equations they are evaluated only where needed.\<close>

lemma D0_1_code [code abstract]: "quotient_of D0_1 = (3602879701896397, 36028797018963968)"
  unfolding D0_1_def by code_simp

lemma D0_01_code [code abstract]: "quotient_of D0_01 = (5764607523034235, 576460752303423488)"
  unfolding D0_01_def by code_simp

lemma D0_001_code [code abstract]: "quotient_of D0_001 = (1152921504606847, 1152921504606846976)"
  unfolding D0_001_def by code_simp

lemma D0_4_code [code abstract]: "quotient_of D0_4 = (3602879701896397, 9007199254740992)"
  unfolding D0_4_def by code_simp

lemma D9_9_code [code abstract]: "quotient_of D9_9 = (5573204538870989, 562949953421312)"
  unfolding D9_9_def by code_simp

lemma D0_425_code [code abstract]: "quotient_of D0_425 = (7656119366529843, 18014398509481984)"
  unfolding D0_425_def by code_simp

lemma quotient_of_value: "quotient_of q = (a, b) \<Longrightarrow> q = of_int a / of_int b"
  by (rule quotient_of_div)

lemmas literal_values =
  D0_1_code [THEN quotient_of_value] D0_01_code [THEN quotient_of_value]
  D0_001_code [THEN quotient_of_value] D0_4_code [THEN quotient_of_value]
  D9_9_code [THEN quotient_of_value] D0_425_code [THEN quotient_of_value]

section \<open>Row generators\<close>

definition seq :: "int \<Rightarrow> int \<Rightarrow> int list" where
  "seq a b = upto a b"

definition EQ_BANDS :: "(nat \<times> string list option) list" where
  "EQ_BANDS =
    [(1, Some [''Peak'', ''Low Shelf'', ''High Pass'', ''Low Pass'']),
     (2, None),
     (3, Some [''Peak'', ''High Shelf'', ''Low Pass'', ''High Pass''])]"

definition HIGH_SHELF :: "string list" where
  "HIGH_SHELF = [''Peak'', ''High Shelf'', ''Low Pass'', ''High Pass'']"

definition ROOMEQ_BANDS :: "(nat \<times> string list option) list" where
  "ROOMEQ_BANDS =
    [(1, Some [''Peak'', ''Low Shelf'', ''High Pass'', ''Low Pass'']),
     (2, None), (3, None), (4, None), (5, None), (6, None), (7, None),
     (8, Some HIGH_SHELF),
     (9, Some HIGH_SHELF)]"

definition sub_template :: "string \<Rightarrow> string \<Rightarrow> string" where
  "sub_template family sub = ''/'' @ family @ ''/{ch}/'' @ sub"

definition band_rows :: "string \<Rightarrow> string \<Rightarrow> nat \<times> string list option \<Rightarrow> register list" where
  "band_rows family pre bt = (let band = pre @ ''/band'' @ show_nat (fst bt) in
     [(Register (band @ ''freq'') ''i'' VERIFIABLE family)
        \<lparr>reg_domain := Some NUMBER, reg_lo := Some 20, reg_hi := Some 20000, reg_unit := ''Hz''\<rparr>,
      (Register (band @ ''gain'') ''f'' VERIFIABLE family)
        \<lparr>reg_domain := Some NUMBER, reg_lo := Some (-20), reg_hi := Some 20, reg_unit := ''dB'',
         reg_scale := Some D0_1\<rparr>,
      (Register (band @ ''q'') ''f'' VERIFIABLE family)
        \<lparr>reg_domain := Some NUMBER, reg_lo := Some D0_4, reg_hi := Some D9_9,
         reg_scale := Some D0_1\<rparr>]
     @ (case snd bt of None \<Rightarrow> [] | Some types \<Rightarrow>
         [(Register (band @ ''type'') ''is'' VERIFIABLE family)
            \<lparr>reg_domain := Some ENUM, reg_choices := types\<rparr>]))"

definition band_registers :: "string \<Rightarrow> string \<Rightarrow> (nat \<times> string list option) list \<Rightarrow> register list" where
  "band_registers family sub bands =
     (Register (sub_template family sub) ''i'' VERIFIABLE family)\<lparr>reg_domain := Some BOOL\<rparr>
     # concat (map (band_rows family (sub_template family sub)) bands)"

definition roomeq_registers :: "register list" where
  "roomeq_registers = band_registers ''output'' ''roomeq'' ROOMEQ_BANDS
     @ [(Register ''/output/{ch}/roomeq/delay'' ''f'' VERIFIABLE ''output'')
          \<lparr>reg_domain := Some NUMBER, reg_lo := Some 0, reg_hi := Some D0_425,
           reg_unit := ''OSC units'', reg_scale := Some D0_001\<rparr>]"

text \<open>Sub-family options: name, tags, bounds, unit.\<close>

type_synonym sub_option = "string \<times> string \<times> rat \<times> rat \<times> string"

definition DYNAMICS_OPTIONS :: "sub_option list" where
  "DYNAMICS_OPTIONS =
    [(''gain'', ''f'', -30, 30, ''dB''),
     (''attack'', ''i'', 0, 200, ''ms''),
     (''release'', ''i'', 100, 999, ''ms''),
     (''compthres'', ''f'', -60, 0, ''dB''),
     (''compratio'', ''f'', 1, 10, '':1''),
     (''expthres'', ''f'', -99, 20, ''dB''),
     (''expratio'', ''f'', 1, 10, '':1'')]"

definition LOWCUT_OPTIONS :: "sub_option list" where
  "LOWCUT_OPTIONS =
    [(''freq'', ''i'', 20, 500, ''Hz''),
     (''slope'', ''i'', 0, 3, ''index'')]"

definition AUTOLEVEL_OPTIONS :: "sub_option list" where
  "AUTOLEVEL_OPTIONS =
    [(''maxgain'', ''f'', 0, 18, ''dB''),
     (''headroom'', ''f'', 3, 12, ''dB''),
     (''risetime'', ''f'', D0_1, D9_9, ''s'')]"

definition sub_registers :: "string \<Rightarrow> string \<Rightarrow> sub_option list \<Rightarrow> register list" where
  "sub_registers family sub options =
     (Register (sub_template family sub) ''i'' VERIFIABLE family)\<lparr>reg_domain := Some BOOL\<rparr>
     # map (\<lambda>(name, tags, lo, hi, unit).
          (Register (sub_template family sub @ ''/'' @ name) tags VERIFIABLE family)
            \<lparr>reg_domain := Some NUMBER, reg_lo := Some lo, reg_hi := Some hi, reg_unit := unit,
             reg_scale := (if tags = ''f'' then Some D0_1 else None)\<rparr>) options"

section \<open>Fireface UCX II\<close>

definition ucx2_channels :: "(string, int list) dict" where
  "ucx2_channels =
    [(''input'', seq 1 20), (''output'', seq 1 20), (''playback'', seq 1 20),
     (''meter'', seq 1 22), (''48v'', [1, 2]), (''hi-z'', [3, 4]),
     (''input-gain'', seq 1 8), (''input-gain-mic'', [1, 2]), (''input-gain-inst'', [3, 4]),
     (''input-gain-line'', seq 5 8), (''input-autoset'', seq 1 4),
     (''input-reflevel'', seq 3 8), (''output-reflevel'', seq 1 8)]"

text \<open>Links, playback mute, faders, matrices and the input options.\<close>

definition ucx2_flat_rows :: "register list" where
  "ucx2_flat_rows =
    [(Register ''/playback/{ch}/stereo'' ''i'' REESTABLISHED ''playback'')
      \<lparr>reg_policy := PIN\<rparr>,
     (Register ''/playback/{ch}/mute'' ''i'' REESTABLISHED ''playback'')
      \<lparr>reg_domain := Some BOOL\<rparr>,
     (Register ''/output/{ch}/stereo'' ''i'' VERIFIABLE ''output'')\<lparr>reg_policy := PIN\<rparr>,
     (Register ''/output/{ch}/volume'' ''f'' VERIFIABLE ''output'')
      \<lparr>reg_domain := Some NUMBER, reg_lo := Some LEVEL_MIN, reg_hi := Some LEVEL_MAX,
       reg_unit := ''dB'', reg_scale := Some D0_1\<rparr>,
     (Register ''/mix/{out}/playback/{pb}'' ''fi'' REESTABLISHED ''output'')
      \<lparr>reg_policy := PIN, reg_mix_level := True\<rparr>,
     (Register ''/mix/{out}/input/{in_}'' ''fi'' VERIFIABLE ''output'')
      \<lparr>reg_policy := PIN, reg_mix_level := True\<rparr>,
     (Register ''/input/{ch}/48v'' ''i'' VERIFIABLE ''48v'')\<lparr>reg_policy := PIN\<rparr>,
     (Register ''/input/{ch}/hi-z'' ''i'' VERIFIABLE ''hi-z'')
      \<lparr>reg_domain := Some BOOL, reg_policy := PIN\<rparr>,
     (Register ''/input/{ch}/gain'' ''f'' VERIFIABLE ''input-gain-mic'')
      \<lparr>reg_domain := Some NUMBER, reg_lo := Some 0, reg_hi := Some 75,
       reg_unit := ''dB'', reg_policy := PIN, reg_scale := Some D0_1, reg_truncates := True\<rparr>,
     (Register ''/input/{ch}/gain'' ''f'' VERIFIABLE ''input-gain-inst'')
      \<lparr>reg_domain := Some NUMBER, reg_lo := Some 0, reg_hi := Some 24,
       reg_unit := ''dB'', reg_policy := PIN, reg_scale := Some D0_1, reg_truncates := True\<rparr>,
     (Register ''/input/{ch}/gain'' ''f'' VERIFIABLE ''input-gain-line'')
      \<lparr>reg_domain := Some NUMBER, reg_lo := Some 0, reg_hi := Some 24,
       reg_unit := ''dB'', reg_policy := PIN, reg_scale := Some D0_1, reg_truncates := True\<rparr>,
     (Register ''/input/{ch}/autoset'' ''i'' VERIFIABLE ''input-autoset'')
      \<lparr>reg_domain := Some BOOL\<rparr>,
     (Register ''/input/{ch}/reflevel'' ''is'' VERIFIABLE ''input-reflevel'')
      \<lparr>reg_domain := Some ENUM, reg_choices := [''+13dBu'', ''+19dBu''],
       reg_policy := PIN\<rparr>,
     (Register ''/input/{ch}/mute'' ''i'' VERIFIABLE ''input'')
      \<lparr>reg_domain := Some BOOL\<rparr>,
     (Register ''/input/{ch}/phase'' ''i'' VERIFIABLE ''input'')
      \<lparr>reg_domain := Some BOOL\<rparr>,
     (Register ''/input/{ch}/msproc'' ''i'' VERIFIABLE ''input'')
      \<lparr>reg_domain := Some BOOL\<rparr>,
     (Register ''/input/{ch}/stereo'' ''i'' VERIFIABLE ''input'')\<lparr>reg_policy := PIN\<rparr>]"

text \<open>The output options and the FX sends.\<close>

definition ucx2_output_rows :: "register list" where
  "ucx2_output_rows =
    [(Register ''/output/{ch}/mute'' ''i'' VERIFIABLE ''output'')
      \<lparr>reg_domain := Some BOOL\<rparr>,
     (Register ''/output/{ch}/phase'' ''i'' VERIFIABLE ''output'')
      \<lparr>reg_domain := Some BOOL\<rparr>,
     (Register ''/output/{ch}/reflevel'' ''is'' VERIFIABLE ''output-reflevel'')
      \<lparr>reg_domain := Some ENUM, reg_choices := [''+4dBu'', ''+13dBu'', ''+19dBu''],
       reg_policy := PIN\<rparr>,
     (Register ''/output/{ch}/crossfeed'' ''i'' VERIFIABLE ''output'')
      \<lparr>reg_domain := Some NUMBER, reg_lo := Some 0, reg_hi := Some 5,
       reg_unit := ''index''\<rparr>,
     (Register ''/input/{ch}/fx'' ''f'' VERIFIABLE ''input'')
      \<lparr>reg_domain := Some NUMBER, reg_lo := Some (-65), reg_hi := Some 0,
       reg_unit := ''dB'', reg_scale := Some D0_1\<rparr>,
     (Register ''/output/{ch}/fx'' ''f'' VERIFIABLE ''output'')
      \<lparr>reg_domain := Some NUMBER, reg_lo := Some (-65), reg_hi := Some 0,
       reg_unit := ''dB'', reg_scale := Some D0_1\<rparr>,
     (Register ''/output/{ch}/pan'' ''i'' VERIFIABLE ''output'')
      \<lparr>reg_domain := Some NUMBER, reg_lo := Some (-100), reg_hi := Some 100\<rparr>,
     (Register ''/output/{ch}/volumecal'' ''f'' VERIFIABLE ''output'')
      \<lparr>reg_domain := Some NUMBER, reg_lo := Some (-24), reg_hi := Some 3,
       reg_unit := ''dB'', reg_policy := PIN, reg_scale := Some D0_01\<rparr>]"

text \<open>The echo send.\<close>

definition ucx2_echo_rows :: "register list" where
  "ucx2_echo_rows =
    [(Register ''/echo'' ''i'' VERIFIABLE GLOBAL)\<lparr>reg_domain := Some BOOL\<rparr>,
     (Register ''/echo/type'' ''is'' VERIFIABLE GLOBAL)
      \<lparr>reg_domain := Some ENUM, reg_choices := [''Stereo Echo'', ''Stereo Cross'',
       ''Pong Echo'']\<rparr>,
     (Register ''/echo/delay'' ''f'' VERIFIABLE GLOBAL)
      \<lparr>reg_domain := Some NUMBER, reg_lo := Some 0, reg_hi := Some 2,
       reg_unit := ''s'', reg_scale := Some D0_001\<rparr>,
     (Register ''/echo/feedback'' ''i'' VERIFIABLE GLOBAL)\<lparr>reg_domain := Some NUMBER\<rparr>,
     (Register ''/echo/highcut'' ''is'' VERIFIABLE GLOBAL)
      \<lparr>reg_domain := Some ENUM, reg_choices := [''Off'', ''16kHz'', ''12kHz'',
       ''8kHz'', ''4kHz'', ''2kHz'']\<rparr>,
     (Register ''/echo/volume'' ''f'' VERIFIABLE GLOBAL)
      \<lparr>reg_domain := Some NUMBER, reg_lo := Some LEVEL_MIN, reg_hi := Some LEVEL_MAX,
       reg_unit := ''dB'', reg_scale := Some D0_1\<rparr>,
     (Register ''/echo/width'' ''f'' VERIFIABLE GLOBAL)
      \<lparr>reg_domain := Some NUMBER, reg_lo := Some 0, reg_hi := Some 1,
       reg_scale := Some D0_01\<rparr>]"

text \<open>The control room section.\<close>

definition ucx2_controlroom_rows :: "register list" where
  "ucx2_controlroom_rows =
    [(Register ''/controlroom/mainout'' ''is'' VERIFIABLE GLOBAL)
      \<lparr>reg_domain := Some ENUM, reg_choices := [''1/2'', ''3/4'', ''5/6'', ''7/8'',
       ''9/10'', ''11/12'', ''13/14'', ''15/16'', ''17/18'', ''19/20'', ''None''], reg_values := [0, 1, 2, 3, 4, 5, 6, 7, 8, 9, (-1)], reg_policy := PIN\<rparr>,
     (Register ''/controlroom/dimreduction'' ''f'' VERIFIABLE GLOBAL)
      \<lparr>reg_domain := Some NUMBER, reg_lo := Some LEVEL_MIN, reg_hi := Some 0,
       reg_unit := ''dB'', reg_policy := PIN, reg_scale := Some D0_1\<rparr>,
     (Register ''/controlroom/recallvolume'' ''f'' VERIFIABLE GLOBAL)
      \<lparr>reg_domain := Some NUMBER, reg_lo := Some LEVEL_MIN, reg_hi := Some 0,
       reg_unit := ''dB'', reg_policy := PIN, reg_scale := Some D0_1\<rparr>,
     (Register ''/controlroom/dim'' ''i'' VERIFIABLE GLOBAL)\<lparr>reg_domain := Some BOOL\<rparr>,
     (Register ''/controlroom/mainmono'' ''i'' VERIFIABLE GLOBAL)
      \<lparr>reg_domain := Some BOOL\<rparr>,
     (Register ''/controlroom/muteenable'' ''i'' VERIFIABLE GLOBAL)
      \<lparr>reg_domain := Some BOOL\<rparr>]"

text \<open>The reverb send.\<close>

definition ucx2_reverb_rows :: "register list" where
  "ucx2_reverb_rows =
    [(Register ''/reverb'' ''i'' VERIFIABLE GLOBAL)\<lparr>reg_domain := Some BOOL\<rparr>,
     (Register ''/reverb/type'' ''is'' VERIFIABLE GLOBAL)
      \<lparr>reg_domain := Some ENUM, reg_choices := [''Small Room'', ''Medium Room'',
       ''Large Room'', ''Walls'', ''Shorty'', ''Attack'', ''Swagger'', ''Old School'', ''Echoistic'', ''8plus9'', ''Grand Wide'', ''Thicker'', ''Envelope'', ''Gated'', ''Space'']\<rparr>,
     (Register ''/reverb/predelay'' ''i'' VERIFIABLE GLOBAL)\<lparr>reg_domain := Some NUMBER\<rparr>,
     (Register ''/reverb/lowcut'' ''i'' VERIFIABLE GLOBAL)\<lparr>reg_domain := Some NUMBER\<rparr>,
     (Register ''/reverb/highcut'' ''i'' VERIFIABLE GLOBAL)\<lparr>reg_domain := Some NUMBER\<rparr>,
     (Register ''/reverb/highdamp'' ''i'' VERIFIABLE GLOBAL)\<lparr>reg_domain := Some NUMBER\<rparr>,
     (Register ''/reverb/attack'' ''i'' VERIFIABLE GLOBAL)\<lparr>reg_domain := Some NUMBER\<rparr>,
     (Register ''/reverb/hold'' ''i'' VERIFIABLE GLOBAL)\<lparr>reg_domain := Some NUMBER\<rparr>,
     (Register ''/reverb/release'' ''i'' VERIFIABLE GLOBAL)\<lparr>reg_domain := Some NUMBER\<rparr>,
     (Register ''/reverb/smooth'' ''i'' VERIFIABLE GLOBAL)
      \<lparr>reg_domain := Some NUMBER, reg_lo := Some 0, reg_hi := Some 100\<rparr>,
     (Register ''/reverb/roomscale'' ''f'' VERIFIABLE GLOBAL)
      \<lparr>reg_domain := Some NUMBER, reg_scale := Some D0_01\<rparr>,
     (Register ''/reverb/time'' ''f'' VERIFIABLE GLOBAL)
      \<lparr>reg_domain := Some NUMBER, reg_scale := Some D0_1\<rparr>,
     (Register ''/reverb/volume'' ''f'' VERIFIABLE GLOBAL)
      \<lparr>reg_domain := Some NUMBER, reg_scale := Some D0_1\<rparr>,
     (Register ''/reverb/width'' ''f'' VERIFIABLE GLOBAL)
      \<lparr>reg_domain := Some NUMBER, reg_lo := Some 0, reg_hi := Some 1,
       reg_scale := Some D0_01\<rparr>]"

text \<open>The clock.\<close>

definition ucx2_clock_rows :: "register list" where
  "ucx2_clock_rows =
    [(Register ''/clock/source'' ''is'' VERIFIABLE GLOBAL)
      \<lparr>reg_domain := Some ENUM, reg_choices := [''Internal'', ''Word Clock'',
       ''SPDIF'', ''AES'', ''Optical''], reg_policy := PIN\<rparr>,
     Register ''/clock/samplerate'' ''i'' VERIFIABLE GLOBAL,
     (Register ''/clock/wckout'' ''i'' VERIFIABLE GLOBAL)
      \<lparr>reg_domain := Some BOOL, reg_policy := PIN\<rparr>,
     (Register ''/clock/wcksingle'' ''i'' VERIFIABLE GLOBAL)
      \<lparr>reg_domain := Some BOOL, reg_policy := PIN\<rparr>,
     (Register ''/clock/wckterm'' ''i'' VERIFIABLE GLOBAL)
      \<lparr>reg_domain := Some BOOL, reg_policy := PIN\<rparr>]"

text \<open>The box itself.\<close>

definition ucx2_hardware_rows :: "register list" where
  "ucx2_hardware_rows =
    [(Register ''/hardware/opticalout'' ''is'' VERIFIABLE GLOBAL)
      \<lparr>reg_domain := Some ENUM, reg_choices := [''ADAT'', ''SPDIF''],
       reg_policy := PIN\<rparr>,
     (Register ''/hardware/spdifout'' ''is'' VERIFIABLE GLOBAL)
      \<lparr>reg_domain := Some ENUM, reg_choices := [''Consumer'', ''Professional''],
       reg_policy := PIN\<rparr>,
     (Register ''/hardware/ccmix'' ''is'' VERIFIABLE GLOBAL)
      \<lparr>reg_domain := Some ENUM, reg_choices := [''TotalMix App'', ''6ch + phones'',
       ''8ch'', ''20ch''], reg_policy := PIN\<rparr>,
     (Register ''/hardware/standalonearc'' ''is'' VERIFIABLE GLOBAL)
      \<lparr>reg_domain := Some ENUM, reg_choices := [''Volume'', ''1s Op'', ''Normal''],
       reg_policy := PIN\<rparr>,
     (Register ''/hardware/standalonemidi'' ''i'' VERIFIABLE GLOBAL)
      \<lparr>reg_domain := Some BOOL, reg_policy := PIN\<rparr>,
     (Register ''/hardware/lockkeys'' ''is'' VERIFIABLE GLOBAL)
      \<lparr>reg_domain := Some ENUM, reg_choices := [''Off'', ''Keys'', ''All''],
       reg_policy := PIN\<rparr>,
     (Register ''/hardware/remapkeys'' ''i'' VERIFIABLE GLOBAL)
      \<lparr>reg_domain := Some BOOL, reg_policy := PIN\<rparr>,
     Register ''/hardware/ccmode'' ''i'' VERIFIABLE GLOBAL,
     Register ''/hardware/dspload'' ''i'' VERIFIABLE GLOBAL,
     Register ''/hardware/dspvers'' ''i'' VERIFIABLE GLOBAL]"

text \<open>Accepted, never reported.\<close>

definition ucx2_write_only_rows :: "register list" where
  "ucx2_write_only_rows =
    [Register ''/input/{ch}/name'' ''s'' WRITE_ONLY ''input'',
     Register ''/output/{ch}/name'' ''s'' WRITE_ONLY ''output'',
     (Register ''/output/{ch}/loopback'' ''i'' WRITE_ONLY ''output'')
      \<lparr>reg_domain := Some BOOL\<rparr>]"

definition ucx2_sub_rows :: "register list" where
  "ucx2_sub_rows =
     band_registers ''input'' ''eq'' EQ_BANDS
     @ band_registers ''output'' ''eq'' EQ_BANDS
     @ roomeq_registers
     @ sub_registers ''input'' ''dynamics'' DYNAMICS_OPTIONS
     @ sub_registers ''output'' ''dynamics'' DYNAMICS_OPTIONS
     @ sub_registers ''input'' ''autolevel'' AUTOLEVEL_OPTIONS
     @ sub_registers ''output'' ''autolevel'' AUTOLEVEL_OPTIONS
     @ sub_registers ''input'' ''lowcut'' LOWCUT_OPTIONS
     @ sub_registers ''output'' ''lowcut'' LOWCUT_OPTIONS"

definition UCX2 :: device where
  "UCX2 = \<lparr>dev_key = ''ucx2'', dev_name = ''Fireface UCX II'', dev_usb_id = ''2a39:3fd9'',
     dev_channels = ucx2_channels,
     dev_registers = ucx2_flat_rows @ ucx2_output_rows @ ucx2_echo_rows @ ucx2_controlroom_rows
       @ ucx2_reverb_rows @ ucx2_clock_rows @ ucx2_hardware_rows @ ucx2_sub_rows
       @ ucx2_write_only_rows,
     dev_supported = True,
     dev_complete_after_cold_plug = [''/output/{ch}/stereo'']\<rparr>"

section \<open>Fireface 802\<close>

definition FF802 :: device where
  "FF802 = \<lparr>dev_key = ''ff802'', dev_name = ''Fireface 802'', dev_usb_id = ''2a39:3fc0'',
     dev_channels = [(''input'', seq 1 30), (''output'', seq 1 30), (''playback'', seq 1 30),
       (''48v'', seq 9 12), (''hi-z'', seq 9 12), (''input-gain'', seq 1 8),
       (''input-reflevel'', seq 1 8), (''output-reflevel'', seq 1 12)],
     dev_registers = [], dev_supported = False, dev_complete_after_cold_plug = []\<rparr>"

definition DEVICES :: "device list" where
  "DEVICES = [UCX2, FF802]"

section \<open>Which device a config names\<close>

definition device_for_name :: "string \<Rightarrow> device option" where
  "device_for_name name = find (\<lambda>d. lower (dev_name d) = lower (strip_space name)) DEVICES"

definition modelled_names :: "string list" where
  "modelled_names = map dev_name (filter (\<lambda>d. dev_registers d \<noteq> []) DEVICES)"

end
