(* ===== verification/Numeric.thy ===== *)
theory Numeric
  imports Devices
begin

text \<open>
  \<^verbatim>\<open>numeric.py\<close>: the numeric contracts of the backend. A setting is converted to the signed
  16-bit register value (\<open>raw_value\<close>: float32 division and rounding away from zero, or the
  truncated multiplication of an input gain), reported back as a float32
  (\<open>expected_report\<close>), bounded (\<open>number_value\<close>) and compared (\<open>equal_float\<close>).
  The lemmas show that a converted value always fits the register, that converting a report
  gives back the register value it came from, and that the report of a legal setting is
  itself legal and compares equal to the setting.
\<close>

section \<open>Conversions\<close>

text \<open>\<open>finite\<close>: a real numeric argument as a Python float.\<close>

fun py_finite :: "pyval \<Rightarrow> rat res" where
  "py_finite (VStr s) = Raise TypeError"
| "py_finite (VBool b) = Ok (if b then 1 else 0)"
| "py_finite (VInt i) = (case float_of_int i of Inr (Fin q) \<Rightarrow> Ok q | _ \<Rightarrow> Raise ValueError)"
| "py_finite (VFloat (Fin q)) = Ok q"
| "py_finite (VFloat _) = Raise ValueError"

definition is_integer :: "rat \<Rightarrow> bool" where
  "is_integer q = (of_int \<lfloor>q\<rfloor> = q)"

definition py_integer :: "pyval \<Rightarrow> int res" where
  "py_integer v = rbind (py_finite v) (\<lambda>q.
     if \<not> is_integer q \<or> \<not> (- (2 ^ 31) \<le> q \<and> q < 2 ^ 31) then Raise ValueError else Ok \<lfloor>q\<rfloor>)"

definition float32 :: "pyval \<Rightarrow> rat res" where
  "float32 v = rbind (py_finite v) (\<lambda>q.
     case struct_f32 (Fin q) of Inr (Fin r) \<Rightarrow> Ok r | _ \<Rightarrow> Raise ValueError)"

text \<open>\<open>math.trunc\<close>, and C's \<open>lroundf\<close> as the source spells it.\<close>

definition trunc :: "rat \<Rightarrow> int" where
  "trunc q = (if 0 \<le> q then \<lfloor>q\<rfloor> else \<lceil>q\<rceil>)"

definition lround :: "rat \<Rightarrow> int" where
  "lround q = (if 0 \<le> q then \<lfloor>d64 (q + 1/2)\<rfloor> else \<lceil>d64 (q - 1/2)\<rceil>)"

definition in_int16 :: "int \<Rightarrow> bool" where
  "in_int16 raw = (- 32768 \<le> raw \<and> raw \<le> 32767)"

text \<open>The conversion before the range check.\<close>

definition raw_unchecked :: "pyval \<Rightarrow> register \<Rightarrow> int res" where
  "raw_unchecked v r =
     (if reg_domain r = Some NUMBER \<and> (case v of VBool _ \<Rightarrow> True | _ \<Rightarrow> False) then Raise TypeError
      else case reg_scale r of
        None \<Rightarrow> py_integer v
      | Some scale \<Rightarrow> rbind (float32 v) (\<lambda>wire.
          if reg_truncates r
          then rbind (float32 (VFloat (dround (wire * 10)))) (\<lambda>x. Ok (trunc x))
          else rbind (float32 (VFloat (Fin scale))) (\<lambda>s.
            if s = 0 then Raise ZeroDivisionError
            else rbind (float32 (VFloat (dround (wire / s)))) (\<lambda>q. Ok (lround q)))))"

definition raw_value :: "pyval \<Rightarrow> register \<Rightarrow> int res" where
  "raw_value v r = rbind (raw_unchecked v r) (\<lambda>raw.
     if in_int16 raw then Ok raw else Raise ValueError)"

text \<open>\<open>register.scale or 1.0\<close>.\<close>

definition scale_or_one :: "register \<Rightarrow> rat" where
  "scale_or_one r = (case reg_scale r of None \<Rightarrow> 1 | Some s \<Rightarrow> if s = 0 then 1 else s)"

text \<open>What the backend reports for a register value.\<close>

definition report_of_raw :: "int \<Rightarrow> register \<Rightarrow> rat res" where
  "report_of_raw raw r =
     (if reg_truncates r then float32 (VFloat (dround (of_int raw / 10)))
      else rbind (float32 (VFloat (Fin (scale_or_one r)))) (\<lambda>s.
        float32 (VFloat (dround (of_int raw * s)))))"

definition expected_report :: "pyval \<Rightarrow> register \<Rightarrow> rat res" where
  "expected_report v r = rbind (raw_value v r) (\<lambda>raw. report_of_raw raw r)"

section \<open>Domain bounds\<close>

text \<open>The bound a value is held against; a report may be the legal step beyond float32 of it.\<close>

definition limit_of :: "bool \<Rightarrow> bool \<Rightarrow> register \<Rightarrow> rat \<Rightarrow> rat res" where
  "limit_of is_lower reported r bound =
     (if reported \<and> startswith (reg_tags r) ''f''
      then rbind (float32 (VFloat (Fin bound))) (\<lambda>limit.
        case reg_scale r of None \<Rightarrow> Ok limit
        | Some _ \<Rightarrow> rbind (expected_report (VFloat (Fin bound)) r) (\<lambda>encoded.
            Ok (if is_lower then min limit encoded else max limit encoded)))
      else Ok bound)"

definition within_bound :: "bool \<Rightarrow> bool \<Rightarrow> register \<Rightarrow> rat \<Rightarrow> unit res" where
  "within_bound is_lower reported r number =
     (case (if is_lower then reg_lo r else reg_hi r) of
        None \<Rightarrow> Ok ()
      | Some bound \<Rightarrow> rbind (limit_of is_lower reported r bound) (\<lambda>limit.
          check (\<not> (if is_lower then number < limit else number > limit)) ValueError))"

definition number_value :: "pyval \<Rightarrow> register \<Rightarrow> bool \<Rightarrow> rat res" where
  "number_value v r reported =
     (if (case v of VBool _ \<Rightarrow> True | _ \<Rightarrow> False) then Raise TypeError
      else rbind (py_finite v) (\<lambda>number.
        rbind (if startswith (reg_tags r) ''i'' \<or> reg_scale r \<noteq> None
               then rbind (raw_value (VFloat (Fin number)) r) (\<lambda>_. Ok ())
               else rbind (float32 (VFloat (Fin number))) (\<lambda>_. Ok ())) (\<lambda>_.
        rbind (within_bound True reported r number) (\<lambda>_.
        rbind (within_bound False reported r number) (\<lambda>_. Ok number)))))"

section \<open>Comparison\<close>

text \<open>\<open>math.isclose\<close> of two finite floats.\<close>

definition isclose :: "rat \<Rightarrow> rat \<Rightarrow> rat \<Rightarrow> rat \<Rightarrow> bool" where
  "isclose a b rel_tol abs_tol =
     (a = b \<or> (let diff = dround \<bar>b - a\<bar> in
        fl_le diff (dround (rel_tol * \<bar>b\<bar>)) \<or> fl_le diff (dround (rel_tol * \<bar>a\<bar>))
        \<or> fl_le diff (Fin abs_tol)))"

definition fl_abs_le :: "rat \<Rightarrow> rat \<Rightarrow> bool" where
  "fl_abs_le diff tolerance = fl_le (dround \<bar>diff\<bar>) (Fin tolerance)"

text \<open>The comparison of a parameter without a declared fixed-point contract.\<close>

definition compare_plain :: "rat \<Rightarrow> rat \<Rightarrow> rat option \<Rightarrow> bool res" where
  "compare_plain wanted reported tolerance = (case tolerance of
     Some t \<Rightarrow> Ok (fl_abs_le (wanted - reported) t)
   | None \<Rightarrow> rbind (float32 (VFloat (Fin wanted))) (\<lambda>a.
       rbind (float32 (VFloat (Fin reported))) (\<lambda>b. Ok (a = b))))"

definition equal_float :: "pyval \<Rightarrow> pyval \<Rightarrow> register option \<Rightarrow> rat option \<Rightarrow> bool res" where
  "equal_float want got register tolerance =
     rbind (py_finite want) (\<lambda>wanted.
       case register of
         None \<Rightarrow> rbind (py_finite got) (\<lambda>reported. compare_plain wanted reported tolerance)
       | Some r \<Rightarrow>
           if reg_mix_level r then
             (if wanted \<le> LEVEL_MIN then Ok (py_eq got (VFloat NInf))
              else rbind (py_finite got) (\<lambda>g. Ok (fl_abs_le (wanted - g) (1/2))))
           else rbind (py_finite got) (\<lambda>reported.
             if reg_domain r = Some NUMBER then
               rbind (number_value want r False) (\<lambda>_.
               rbind (number_value got r True) (\<lambda>_.
                 case reg_scale r of
                   Some scale \<Rightarrow> rbind (expected_report (VFloat (Fin wanted)) r) (\<lambda>expected.
                     Ok (isclose reported expected (dlit (2/10000000)) (d64 (scale * dlit (1/10000)))))
                 | None \<Rightarrow> compare_plain wanted reported tolerance))
             else compare_plain wanted reported tolerance))"

text \<open>A valid scalar observation; it need not have the desired value.\<close>

definition enum_wire :: "register \<Rightarrow> int list" where
  "enum_wire r = (if reg_values r \<noteq> [] then reg_values r
                  else map int [0..<length (reg_choices r)])"

definition report_value :: "pyval \<Rightarrow> register \<Rightarrow> rat res" where
  "report_value v r =
     (if reg_domain r = Some NUMBER then number_value v r True
      else rbind (py_integer v) (\<lambda>result.
        if reg_domain r = Some BOOL \<and> result \<notin> {0, 1} then Raise ValueError
        else if reg_domain r = Some ENUM \<and> result \<notin> set (enum_wire r) then Raise ValueError
        else Ok (of_int result)))"

section \<open>Arithmetic of the conversions\<close>

lemma py_integer_range: "py_integer v = Ok n \<Longrightarrow> - (2 ^ 31) \<le> n \<and> n < 2 ^ 31"
proof -
  assume "py_integer v = Ok n"
  then obtain q where "is_integer q" "- (2 ^ 31) \<le> q" "q < 2 ^ 31" "n = \<lfloor>q\<rfloor>"
    by (auto simp: py_integer_def res_simps split: if_splits)
  then have "q = of_int n" unfolding is_integer_def by metis
  with \<open>- (2 ^ 31) \<le> q\<close> \<open>q < 2 ^ 31\<close>
  have "(of_int (- (2 ^ 31)) :: rat) \<le> of_int n" "(of_int n :: rat) < of_int (2 ^ 31)" by simp_all
  then show ?thesis by (simp only: of_int_le_iff of_int_less_iff)
qed

lemma raw_value_int16: "raw_value v r = Ok n \<Longrightarrow> in_int16 n"
  by (auto simp: raw_value_def res_simps split: if_splits)

lemma float32_Fin [simp]:
  "float32 (VFloat (Fin q)) = (if \<bar>f32 q\<bar> < F32_LIMIT then Ok (f32 q) else Raise ValueError)"
  by (auto simp: float32_def)

lemma float32_dround:
  "float32 (VFloat (dround q)) =
     (if \<bar>d64 q\<bar> < D64_LIMIT \<and> \<bar>f32 (d64 q)\<bar> < F32_LIMIT then Ok (f32 (d64 q)) else Raise ValueError)"
  by (auto simp: dround_def Let_def float32_def)

lemma small_powi:
  "(2::rat) powi (-149) / 2 \<le> 1 / 1048576" "(2::rat) powi (-1074) / 2 \<le> 1 / 1048576"
  by (simp_all add: power_int_minus_divide field_simps)

text \<open>Both roundings move a value of moderate size by little.\<close>

lemma f32_near: "\<bar>x\<bar> \<le> 65536 * u \<Longrightarrow> 1 / 1024 \<le> u \<Longrightarrow> \<bar>f32 x - x\<bar> \<le> u / 256"
proof -
  assume "\<bar>x\<bar> \<le> 65536 * u" and u: "1 / 1024 \<le> u"
  then have "\<bar>f32 x - x\<bar> \<le> max (65536 * u / 2 ^ 24) (2 powi (-149) / 2)"
    by (intro f32.err_within)
  moreover have "65536 * u / 2 ^ 24 = u / 256" by simp
  moreover have "2 powi (-149) / 2 \<le> u / 256" using small_powi(1) u by linarith
  ultimately show ?thesis by simp
qed

lemma d64_near: "\<bar>x\<bar> \<le> 65536 * u \<Longrightarrow> 1 / 1024 \<le> u \<Longrightarrow> \<bar>d64 x - x\<bar> \<le> u / 256"
proof -
  assume "\<bar>x\<bar> \<le> 65536 * u" and u: "1 / 1024 \<le> u"
  then have "\<bar>d64 x - x\<bar> \<le> max (65536 * u / 2 ^ 53) (2 powi (-1074) / 2)"
    by (intro d64.err_within)
  moreover have "65536 * u / 2 ^ 53 \<le> u / 256" using u by simp
  moreover have "2 powi (-1074) / 2 \<le> u / 256" using small_powi(2) u by linarith
  ultimately show ?thesis by linarith
qed

lemma double_round_near:
  assumes "\<bar>x\<bar> \<le> 65000 * u" and "1 / 1024 \<le> u"
  shows "\<bar>f32 (d64 x) - x\<bar> \<le> u / 128" and "\<bar>d64 x - x\<bar> \<le> u / 256"
proof -
  show d: "\<bar>d64 x - x\<bar> \<le> u / 256" using assms by (intro d64_near) auto
  have "\<bar>d64 x\<bar> \<le> 65536 * u" using d assms by linarith
  then have "\<bar>f32 (d64 x) - d64 x\<bar> \<le> u / 256" using assms(2) by (rule f32_near)
  with d show "\<bar>f32 (d64 x) - x\<bar> \<le> u / 128" by linarith
qed

lemma lround_near:
  assumes "\<bar>q - of_int n\<bar> \<le> 1 / 64" and "\<bar>n\<bar> \<le> 32768"
  shows "lround q = n"
proof (cases "0 \<le> q")
  case True
  have "\<bar>(of_int n :: rat)\<bar> \<le> 32768" using assms(2) by linarith
  then have "\<bar>d64 (q + 1/2) - (q + 1/2)\<bar> \<le> 1 / 256"
    using assms(1) by (intro d64_near) linarith+
  with assms(1) have "of_int n \<le> d64 (q + 1/2)" "d64 (q + 1/2) < of_int n + 1" by linarith+
  then show ?thesis using True by (simp add: lround_def floor_eq_iff)
next
  case False
  have "\<bar>(of_int n :: rat)\<bar> \<le> 32768" using assms(2) by linarith
  then have "\<bar>d64 (q - 1/2) - (q - 1/2)\<bar> \<le> 1 / 256"
    using assms(1) by (intro d64_near) linarith+
  with assms(1) have "of_int n - 1 < d64 (q - 1/2)" "d64 (q - 1/2) \<le> of_int n" by linarith+
  then show ?thesis using False by (simp add: lround_def ceiling_eq_iff)
qed

lemma lround_mono: "a \<le> b \<Longrightarrow> lround a \<le> lround b"
proof -
  assume ab: "a \<le> b"
  consider "0 \<le> a" | "a < 0" "0 \<le> b" | "b < 0" by linarith
  then show ?thesis
  proof cases
    case 1
    then show ?thesis using ab d64.mono [of "a + 1/2" "b + 1/2"]
      by (simp add: lround_def floor_mono)
  next
    case 2
    then have "d64 (a - 1/2) \<le> 0" "0 \<le> d64 (b + 1/2)"
      by (auto intro: d64.nonpos d64.nonneg)
    then have "\<lceil>d64 (a - 1/2)\<rceil> \<le> 0" "0 \<le> \<lfloor>d64 (b + 1/2)\<rfloor>" by (simp_all add: ceiling_le_zero)
    then have "\<lceil>d64 (a - 1/2)\<rceil> \<le> \<lfloor>d64 (b + 1/2)\<rfloor>" by (rule order_trans)
    then show ?thesis using 2 by (simp add: lround_def)
  next
    case 3
    then show ?thesis using ab d64.mono [of "a - 1/2" "b - 1/2"]
      by (simp add: lround_def ceiling_mono)
  qed
qed

lemma trunc_mono: "a \<le> b \<Longrightarrow> trunc a \<le> trunc b"
proof -
  assume ab: "a \<le> b"
  consider "0 \<le> a" | "a < 0" "0 \<le> b" | "b < 0" by linarith
  then show ?thesis
  proof cases
    case 2
    then have "\<lceil>a\<rceil> \<le> 0" "0 \<le> \<lfloor>b\<rfloor>" by (simp_all add: ceiling_le_zero)
    then have "\<lceil>a\<rceil> \<le> \<lfloor>b\<rfloor>" by (rule order_trans)
    then show ?thesis using 2 by (simp add: trunc_def)
  qed (use ab in \<open>simp_all add: trunc_def floor_mono ceiling_mono\<close>)
qed

lemma trunc_near:
  assumes "\<bar>q - of_int n\<bar> \<le> 1 / 8" and "in_int16 n"
  shows "in_int16 (trunc q)"
proof -
  have "(of_int (- 32768) :: rat) \<le> of_int n" "(of_int n :: rat) \<le> of_int 32767"
    using assms(2) unfolding of_int_le_iff in_int16_def by auto
  then have "- 32768 \<le> (of_int n :: rat)" "(of_int n :: rat) \<le> 32767"
    by (simp_all only: of_int_minus of_int_numeral)
  with assms(1) have "- 32769 < q" "q < 32768" by linarith+
  then show ?thesis
    by (auto simp: trunc_def in_int16_def le_floor_iff floor_le_iff ceiling_le_iff le_ceiling_iff)
qed

text \<open>
  The scale of a fixed-point row: positive and at most 1, so that its float32 stays in
  \<open>[1/1024, 1]\<close>.
\<close>

lemma f32_scale:
  assumes "1 / 1024 \<le> s" and "s \<le> 1"
  shows "1 / 1024 \<le> f32 s" and "f32 s \<le> 1"
proof -
  have "f32 (2 powi (-10)) = 2 powi (-10)" unfolding f32_def by (rule rnd_powi) auto
  then have "f32 (1 / 1024) = 1 / 1024" by (simp add: power_int_minus_divide)
  then show "1 / 1024 \<le> f32 s" using f32.mono [OF assms(1)] by simp
  show "f32 s \<le> 1" using f32.le_int [of s 1] assms(2) by simp
qed

section \<open>Fixed-point rows\<close>

text \<open>A scaled float quantity: every fixed-point row of the table is one (see \<open>Devices\<close>).\<close>

definition scaled_row :: "register \<Rightarrow> bool" where
  "scaled_row r =
     (reg_domain r = Some NUMBER \<and> reg_tags r = ''f'' \<and> \<not> reg_mix_level r
      \<and> (case reg_scale r of None \<Rightarrow> False | Some s \<Rightarrow> 1 / 1024 \<le> s \<and> s \<le> 1))"

lemma scaled_rowE:
  assumes "scaled_row r"
  obtains s where "reg_scale r = Some s" and "1 / 1024 \<le> s" and "s \<le> 1"
    and "1 / 1024 \<le> f32 s" and "f32 s \<le> 1" and "reg_domain r = Some NUMBER"
    and "reg_tags r = ''f''" and "\<not> reg_mix_level r"
  using assms f32_scale by (auto simp: scaled_row_def split: option.splits)

text \<open>The register value of a float and the report of a register value, in closed form.\<close>

definition conv :: "register \<Rightarrow> rat \<Rightarrow> int" where
  "conv r a = (if reg_truncates r then trunc (f32 (d64 (f32 a * 10)))
               else lround (f32 (d64 (f32 a / f32 (the (reg_scale r))))))"

definition reported :: "register \<Rightarrow> int \<Rightarrow> rat" where
  "reported r n = (if reg_truncates r then f32 (d64 (of_int n / 10))
                   else f32 (d64 (of_int n * f32 (the (reg_scale r)))))"

lemma raw_value_conv:
  assumes "scaled_row r" and "raw_value (VFloat (Fin a)) r = Ok n"
  shows "n = conv r a" and "in_int16 (conv r a)"
  using assms by (auto elim!: scaled_rowE simp: raw_value_def raw_unchecked_def conv_def
      float32_dround res_simps split: if_splits)

lemma conv_mono: "scaled_row r \<Longrightarrow> a \<le> b \<Longrightarrow> conv r a \<le> conv r b"
proof -
  assume r: "scaled_row r" and ab: "a \<le> b"
  have f: "f32 a \<le> f32 b" by (rule f32.mono [OF ab])
  from r obtain s where s: "reg_scale r = Some s" "1 / 1024 \<le> f32 s" by (rule scaled_rowE)
  then have "f32 a / f32 s \<le> f32 b / f32 s" using f by (intro divide_right_mono) auto
  with f s show ?thesis
    by (auto simp: conv_def intro!: trunc_mono lround_mono f32.mono d64.mono)
qed

lemma reported_mono: "scaled_row r \<Longrightarrow> m \<le> n \<Longrightarrow> reported r m \<le> reported r n"
proof -
  assume r: "scaled_row r" and mn: "m \<le> n"
  from r obtain s where s: "reg_scale r = Some s" "1 / 1024 \<le> f32 s" by (rule scaled_rowE)
  have "(of_int m :: rat) \<le> of_int n" using mn by simp
  moreover from this have "(of_int m :: rat) * f32 s \<le> of_int n * f32 s"
    using s by (intro mult_right_mono) auto
  ultimately show ?thesis
    using s by (auto simp: reported_def intro!: f32.mono d64.mono divide_right_mono)
qed

lemma int16_rat: "in_int16 n \<Longrightarrow> \<bar>(of_int n :: rat)\<bar> \<le> 32768"
proof -
  assume "in_int16 n"
  then have "(of_int (- 32768) :: rat) \<le> of_int n" "(of_int n :: rat) \<le> of_int 32768"
    unfolding of_int_le_iff in_int16_def by auto
  then have "- 32768 \<le> (of_int n :: rat)" "(of_int n :: rat) \<le> 32768"
    by (simp_all only: of_int_minus of_int_numeral)
  then show ?thesis by linarith
qed

text \<open>A report is near the value it encodes, so it is in range and converts back near it.\<close>

lemma reported_near:
  assumes "scaled_row r" and "in_int16 n" and "reg_scale r = Some s"
  shows "reg_truncates r \<Longrightarrow> \<bar>reported r n - of_int n / 10\<bar> \<le> 1 / 128
            \<and> \<bar>d64 (of_int n / 10) - of_int n / 10\<bar> \<le> 1 / 256"
    and "\<not> reg_truncates r \<Longrightarrow> \<bar>reported r n - of_int n * f32 s\<bar> \<le> f32 s / 128
            \<and> \<bar>d64 (of_int n * f32 s) - of_int n * f32 s\<bar> \<le> f32 s / 256"
proof -
  have n: "\<bar>(of_int n :: rat)\<bar> \<le> 32768" by (rule int16_rat [OF assms(2)])
  have s: "1 / 1024 \<le> f32 s" using assms(1,3) by (auto elim: scaled_rowE)
  show "\<bar>reported r n - of_int n / 10\<bar> \<le> 1 / 128
            \<and> \<bar>d64 (of_int n / 10) - of_int n / 10\<bar> \<le> 1 / 256" if "reg_truncates r"
    using that n double_round_near [of "of_int n / 10" 1] by (simp add: reported_def)
  have "\<bar>of_int n * f32 s\<bar> \<le> 32768 * f32 s"
    using n s by (simp add: abs_mult mult_right_mono)
  then have "\<bar>of_int n * f32 s\<bar> \<le> 65000 * f32 s" using s by linarith
  then show "\<bar>reported r n - of_int n * f32 s\<bar> \<le> f32 s / 128
            \<and> \<bar>d64 (of_int n * f32 s) - of_int n * f32 s\<bar> \<le> f32 s / 256" if "\<not> reg_truncates r"
    using that s assms(3) double_round_near [of "of_int n * f32 s" "f32 s"] by (simp add: reported_def)
qed

lemma f32_reported [simp]: "f32 (reported r n) = reported r n"
  by (simp add: reported_def f32.idem)

lemma report_of_raw_eq:
  assumes "scaled_row r" and "in_int16 n"
  shows "report_of_raw n r = Ok (reported r n)" and "\<bar>reported r n\<bar> < F32_LIMIT"
proof -
  from assms(1) obtain s where s: "reg_scale r = Some s" "1 / 1024 \<le> s" "s \<le> 1"
    "1 / 1024 \<le> f32 s" "f32 s \<le> 1" by (rule scaled_rowE)
  have n: "\<bar>(of_int n :: rat)\<bar> \<le> 32768" by (rule int16_rat [OF assms(2)])
  have ns: "\<bar>of_int n * f32 s\<bar> \<le> 32768"
    using mult_mono [of "\<bar>of_int n\<bar>" 32768 "f32 s" 1] n s by (simp add: abs_mult)
  note near = reported_near [OF assms s(1)]
  have small: "\<bar>reported r n\<bar> \<le> 70000"
    by (cases "reg_truncates r") (use near n ns s in linarith)+
  then show "\<bar>reported r n\<bar> < F32_LIMIT" using format_limits by linarith
  have "\<bar>f32 s\<bar> < F32_LIMIT" using s format_limits by linarith
  moreover have "\<bar>d64 (of_int n / 10)\<bar> < D64_LIMIT" if "reg_truncates r"
    using near(1) [OF that] n format_limits by linarith
  moreover have "\<bar>d64 (of_int n * f32 s)\<bar> < D64_LIMIT" if "\<not> reg_truncates r"
    using near(2) [OF that] ns s format_limits by linarith
  ultimately show "report_of_raw n r = Ok (reported r n)"
    using \<open>\<bar>reported r n\<bar> < F32_LIMIT\<close> s
    by (cases "reg_truncates r")
      (auto simp: report_of_raw_def scale_or_one_def float32_dround reported_def)
qed

text \<open>Every report converts back without leaving the register.\<close>

lemma raw_of_reported:
  assumes "scaled_row r" and "in_int16 n"
  shows "\<exists>n'. raw_value (VFloat (Fin (reported r n))) r = Ok n' \<and> (\<not> reg_truncates r \<longrightarrow> n' = n)"
proof -
  from assms(1) obtain s where s: "reg_scale r = Some s" "1 / 1024 \<le> s" "s \<le> 1"
    "1 / 1024 \<le> f32 s" "f32 s \<le> 1" and d: "reg_domain r = Some NUMBER" by (rule scaled_rowE)
  have n: "\<bar>(of_int n :: rat)\<bar> \<le> 32768" by (rule int16_rat [OF assms(2)])
  note near = reported_near [OF assms s(1)]
  note size = report_of_raw_eq(2) [OF assms]
  have fs: "\<bar>f32 s\<bar> < F32_LIMIT" using s format_limits by linarith
  let ?g = "reported r n"
  show ?thesis
  proof (cases "reg_truncates r")
    case True
    have g: "\<bar>?g * 10 - of_int n\<bar> \<le> 10 / 128" using near(1) [OF True] by linarith
    then have b: "\<bar>?g * 10\<bar> \<le> 65000 * 1" using n by linarith
    have r1: "\<bar>f32 (d64 (?g * 10)) - ?g * 10\<bar> \<le> 1 / 128" "\<bar>d64 (?g * 10) - ?g * 10\<bar> \<le> 1 / 256"
      using double_round_near [OF b] by simp_all
    have "in_int16 (trunc (f32 (d64 (?g * 10))))"
      using r1 g by (intro trunc_near [OF _ assms(2)]) linarith
    moreover have "\<bar>d64 (?g * 10)\<bar> < D64_LIMIT" "\<bar>f32 (d64 (?g * 10))\<bar> < F32_LIMIT"
      using r1 b format_limits by linarith+
    ultimately show ?thesis
      using True size s d by (auto simp: raw_value_def raw_unchecked_def float32_dround)
  next
    case False
    have g: "\<bar>?g / f32 s - of_int n\<bar> \<le> 1 / 128"
    proof -
      have "?g / f32 s - of_int n = (?g - of_int n * f32 s) / f32 s"
        using s by (simp add: diff_divide_distrib)
      then have "\<bar>?g / f32 s - of_int n\<bar> = \<bar>?g - of_int n * f32 s\<bar> / f32 s"
        using s by (simp add: abs_divide)
      also have "\<dots> \<le> (f32 s / 128) / f32 s"
        using near(2) [OF False] s by (intro divide_right_mono) auto
      finally show ?thesis using s by simp
    qed
    then have b: "\<bar>?g / f32 s\<bar> \<le> 65000 * 1" using n by linarith
    have r1: "\<bar>f32 (d64 (?g / f32 s)) - ?g / f32 s\<bar> \<le> 1 / 128"
      "\<bar>d64 (?g / f32 s) - ?g / f32 s\<bar> \<le> 1 / 256"
      using double_round_near [OF b] by simp_all
    have "lround (f32 (d64 (?g / f32 s))) = n"
      using r1 g assms(2) by (intro lround_near) (linarith, auto simp: in_int16_def)
    moreover have "\<bar>d64 (?g / f32 s)\<bar> < D64_LIMIT" "\<bar>f32 (d64 (?g / f32 s))\<bar> < F32_LIMIT"
      using r1 b format_limits by linarith+
    ultimately show ?thesis
      using False size s d assms(2) fs
      by (auto simp: raw_value_def raw_unchecked_def float32_dround)
  qed
qed

section \<open>The report of a legal setting confirms it\<close>

definition bounds_of :: "register \<Rightarrow> rat list" where
  "bounds_of r = (case reg_lo r of None \<Rightarrow> [] | Some b \<Rightarrow> [b])
               @ (case reg_hi r of None \<Rightarrow> [] | Some b \<Rightarrow> [b])"

text \<open>A fixed-point row whose own bounds fit its register.\<close>

definition encodable_row :: "register \<Rightarrow> bool" where
  "encodable_row r = (scaled_row r \<and> list_all (\<lambda>b. is_ok (raw_value (VFloat (Fin b)) r)) (bounds_of r))"

lemma expected_report_raw:
  assumes "scaled_row r" and "raw_value v r = Ok n"
  shows "expected_report v r = Ok (reported r n)"
  using assms report_of_raw_eq raw_value_int16 by (simp add: expected_report_def)

lemma expected_report_conv:
  assumes "scaled_row r" and "is_ok (raw_value (VFloat (Fin b)) r)"
  shows "expected_report (VFloat (Fin b)) r = Ok (reported r (conv r b))"
  using assms expected_report_raw raw_value_conv(1) by (auto simp: is_ok_iff)

lemma raw_value_float32:
  assumes "scaled_row r" and "is_ok (raw_value (VFloat (Fin b)) r)"
  shows "\<bar>f32 b\<bar> < F32_LIMIT"
  using assms by (auto elim!: scaled_rowE simp: is_ok_iff raw_value_def raw_unchecked_def res_simps
      split: if_splits)

text \<open>What \<open>number_value\<close> accepted.\<close>

lemma number_valueD:
  assumes "scaled_row r" and "number_value v r False = Ok w"
  shows "py_finite v = Ok w" and "\<And>b. v \<noteq> VBool b"
    and "raw_value v r = raw_value (VFloat (Fin w)) r"
    and "is_ok (raw_value (VFloat (Fin w)) r)"
    and "reg_lo r = Some lo \<Longrightarrow> lo \<le> w" and "reg_hi r = Some hi \<Longrightarrow> w \<le> hi"
proof -
  from assms(1) obtain s where s: "reg_scale r = Some s" and d: "reg_domain r = Some NUMBER"
    by (rule scaled_rowE)
  show w: "py_finite v = Ok w" and nb: "\<And>b. v \<noteq> VBool b"
    using assms(2) by (auto simp: number_value_def res_simps split: if_splits pyval.splits)
  show ok: "is_ok (raw_value (VFloat (Fin w)) r)"
    using assms(2) s by (auto simp: number_value_def res_simps is_ok_iff split: if_splits)
  show "raw_value v r = raw_value (VFloat (Fin w)) r"
    using w nb s by (auto simp: raw_value_def raw_unchecked_def float32_def split: pyval.splits)
  show "reg_lo r = Some lo \<Longrightarrow> lo \<le> w" "reg_hi r = Some hi \<Longrightarrow> w \<le> hi"
    using assms(2) by (auto simp: number_value_def res_simps within_bound_def limit_of_def split: if_splits)
qed

lemma limit_of_report:
  assumes "scaled_row r" and "is_ok (raw_value (VFloat (Fin b)) r)"
  shows "limit_of is_lower True r b =
    Ok (if is_lower then min (f32 b) (reported r (conv r b)) else max (f32 b) (reported r (conv r b)))"
proof -
  from assms(1) obtain s where s: "reg_scale r = Some s" "reg_tags r = ''f''" by (rule scaled_rowE)
  show ?thesis
    using s raw_value_float32 [OF assms] expected_report_conv [OF assms] by (simp add: limit_of_def)
qed

text \<open>Its own report is a legal observation.\<close>

lemma number_value_reported:
  assumes r: "encodable_row r" and v: "number_value v r False = Ok w" and n: "raw_value v r = Ok n"
  shows "number_value (VFloat (Fin (reported r n))) r True = Ok (reported r n)"
proof -
  have sr: "scaled_row r" using r by (simp add: encodable_row_def)
  from sr obtain s where s: "reg_scale r = Some s" by (rule scaled_rowE)
  note D = number_valueD [OF sr v]
  have nc: "n = conv r w" and i16: "in_int16 n"
    using n D(3) raw_value_conv [OF sr] by auto
  have raw: "is_ok (raw_value (VFloat (Fin (reported r n))) r)"
    using raw_of_reported [OF sr i16] by (auto simp: is_ok_iff)
  have bound: "is_ok (raw_value (VFloat (Fin b)) r)" if "reg_lo r = Some b \<or> reg_hi r = Some b" for b
    using r that by (auto simp: encodable_row_def bounds_of_def)
  have "within_bound True True r (reported r n) = Ok ()"
  proof (cases "reg_lo r")
    case (Some lo)
    have "reported r (conv r lo) \<le> reported r n"
      using D(5) [OF Some] by (simp add: nc reported_mono [OF sr] conv_mono [OF sr])
    then show ?thesis using Some bound limit_of_report [OF sr] by (simp add: within_bound_def min.coboundedI2)
  qed (simp add: within_bound_def)
  moreover have "within_bound False True r (reported r n) = Ok ()"
  proof (cases "reg_hi r")
    case (Some hi)
    have "reported r n \<le> reported r (conv r hi)"
      using D(6) [OF Some] by (simp add: nc reported_mono [OF sr] conv_mono [OF sr])
    then show ?thesis using Some bound limit_of_report [OF sr] by (simp add: within_bound_def max.coboundedI2)
  qed (simp add: within_bound_def)
  ultimately show ?thesis using raw s by (auto simp: number_value_def is_ok_iff)
qed

lemma own_report:
  assumes r: "encodable_row r" and v: "number_value v r False = Ok w"
  shows "\<exists>g. expected_report v r = Ok g \<and> number_value (VFloat (Fin g)) r True = Ok g
           \<and> equal_float v (VFloat (Fin g)) (Some r) tolerance = Ok True"
proof -
  have sr: "scaled_row r" using r by (simp add: encodable_row_def)
  from sr obtain s where s: "reg_scale r = Some s" and d: "reg_domain r = Some NUMBER"
    and m: "\<not> reg_mix_level r" by (rule scaled_rowE)
  note D = number_valueD [OF sr v]
  obtain n where n: "raw_value v r = Ok n" using D(3,4) by (auto simp: is_ok_iff)
  have g: "expected_report v r = Ok (reported r n)"
    and gw: "expected_report (VFloat (Fin w)) r = Ok (reported r n)"
    using expected_report_raw [OF sr] n D(3) by simp_all
  have nv: "number_value (VFloat (Fin (reported r n))) r True = Ok (reported r n)"
    by (rule number_value_reported [OF r v n])
  have "equal_float v (VFloat (Fin (reported r n))) (Some r) tolerance = Ok True"
    using D(1) s d m v nv gw by (simp add: equal_float_def isclose_def)
  with g nv show ?thesis by blast
qed

section \<open>The rows of the table\<close>

text \<open>A simple bound on a row's limits that makes them encodable.\<close>

definition sound_row :: "register \<Rightarrow> bool" where
  "sound_row r = (case reg_scale r of None \<Rightarrow> True
     | Some s \<Rightarrow> scaled_row r \<and> list_all (\<lambda>b. \<bar>b\<bar> \<le> 16000 * s \<and> \<bar>b\<bar> \<le> 3000) (bounds_of r))"

lemma lround_bound: "\<bar>q\<bar> \<le> 32700 \<Longrightarrow> in_int16 (lround q)"
proof -
  assume "\<bar>q\<bar> \<le> 32700"
  then have "- 32700 \<le> q" "q \<le> 32700" by linarith+
  moreover have "lround (- 32700) = - 32700" "lround 32700 = 32700" by (rule lround_near; simp)+
  ultimately have "- 32700 \<le> lround q" "lround q \<le> 32700" by (metis lround_mono)+
  then show ?thesis by (simp add: in_int16_def)
qed

lemma trunc_bound: "\<bar>q\<bar> \<le> 32700 \<Longrightarrow> in_int16 (trunc q)"
proof -
  assume "\<bar>q\<bar> \<le> 32700"
  then have "- 32700 \<le> q" "q \<le> 32700" by linarith+
  moreover have "trunc (- 32700) = - 32700" "trunc 32700 = 32700" by (simp_all add: trunc_def)
  ultimately have "- 32700 \<le> trunc q" "trunc q \<le> 32700" by (metis trunc_mono)+
  then show ?thesis by (simp add: in_int16_def)
qed

lemma bound_encodable:
  assumes r: "scaled_row r" and s: "reg_scale r = Some s"
    and b: "\<bar>b\<bar> \<le> 16000 * s" "\<bar>b\<bar> \<le> 3000"
  shows "is_ok (raw_value (VFloat (Fin b)) r)"
proof -
  have s1: "1 / 1024 \<le> s" "s \<le> 1" "1 / 1024 \<le> f32 s" "f32 s \<le> 1" and d: "reg_domain r = Some NUMBER"
    using r s by (auto elim: scaled_rowE)
  have fs: "\<bar>f32 s\<bar> < F32_LIMIT" using s1 format_limits by linarith
  have "\<bar>f32 s - s\<bar> \<le> s / 256" using s1 by (intro f32_near) linarith+
  then have ss: "s \<le> 2 * f32 s" using s1 by linarith
  have fb: "\<bar>f32 b - b\<bar> \<le> s / 256" using b s1 by (intro f32_near) linarith+
  have size: "\<bar>f32 b\<bar> < F32_LIMIT" using fb b s1 format_limits by linarith
  show ?thesis
  proof (cases "reg_truncates r")
    case True
    have le: "\<bar>f32 b * 10\<bar> \<le> 65000 * 1" using fb b s1 by linarith
    have n: "\<bar>f32 (d64 (f32 b * 10)) - f32 b * 10\<bar> \<le> 1 / 128"
      "\<bar>d64 (f32 b * 10) - f32 b * 10\<bar> \<le> 1 / 256"
      using double_round_near [OF le] by simp_all
    have "\<bar>f32 b * 10\<bar> \<le> 32000" using fb b s1 by linarith
    then have "\<bar>f32 (d64 (f32 b * 10))\<bar> \<le> 32700" "\<bar>d64 (f32 b * 10)\<bar> \<le> 32700"
      using n by linarith+
    then have "in_int16 (trunc (f32 (d64 (f32 b * 10))))"
      "\<bar>d64 (f32 b * 10)\<bar> < D64_LIMIT" "\<bar>f32 (d64 (f32 b * 10))\<bar> < F32_LIMIT"
      using format_limits by (auto intro: trunc_bound)
    then show ?thesis using True size s d
      by (simp add: raw_value_def raw_unchecked_def float32_dround)
  next
    case False
    have "\<bar>f32 b\<bar> \<le> 32100 * f32 s" using fb b ss s1 by linarith
    then have q: "\<bar>f32 b / f32 s\<bar> \<le> 32100" using s1 by (simp add: abs_divide pos_divide_le_eq)
    then have le: "\<bar>f32 b / f32 s\<bar> \<le> 65000 * 1" by linarith
    have n: "\<bar>f32 (d64 (f32 b / f32 s)) - f32 b / f32 s\<bar> \<le> 1 / 128"
      "\<bar>d64 (f32 b / f32 s) - f32 b / f32 s\<bar> \<le> 1 / 256"
      using double_round_near [OF le] by simp_all
    then have "\<bar>f32 (d64 (f32 b / f32 s))\<bar> \<le> 32700" "\<bar>d64 (f32 b / f32 s)\<bar> \<le> 32700"
      using q by linarith+
    then have "in_int16 (lround (f32 (d64 (f32 b / f32 s))))"
      "\<bar>d64 (f32 b / f32 s)\<bar> < D64_LIMIT" "\<bar>f32 (d64 (f32 b / f32 s))\<bar> < F32_LIMIT"
      using format_limits by (auto intro: lround_bound)
    then show ?thesis using False size s d s1 fs
      by (simp add: raw_value_def raw_unchecked_def float32_dround)
  qed
qed

lemma sound_row_encodable: "sound_row r \<Longrightarrow> reg_scale r \<noteq> None \<Longrightarrow> encodable_row r"
  by (auto simp: sound_row_def encodable_row_def list_all_iff intro: bound_encodable split: option.splits)

lemma ucx2_rows_sound: "list_all sound_row (dev_registers UCX2)"
  by code_simp

section \<open>Small integers\<close>

lemma py_finite_VInt: "\<bar>i\<bar> < 2 ^ 31 \<Longrightarrow> py_finite (VInt i) = Ok (of_int i)"
proof -
  assume i: "\<bar>i\<bar> < 2 ^ 31"
  then have "\<bar>i\<bar> < 2 ^ 53" by simp
  then have d: "d64 (of_int i) = of_int i" by (rule d64.keeps_int)
  have "\<bar>(of_int i :: rat)\<bar> < of_int (2 ^ 31)" using i by (metis of_int_abs of_int_less_iff)
  moreover have "(of_int (2 ^ 31) :: rat) < D64_LIMIT" by (simp add: D64_LIMIT_def)
  ultimately have "\<bar>(of_int i :: rat)\<bar> < D64_LIMIT" by linarith
  then show ?thesis by (auto simp: float_of_int_def dround_def d Let_def abs_less_iff)
qed

lemma py_integer_VInt [simp]: "\<bar>i\<bar> < 2 ^ 31 \<Longrightarrow> py_integer (VInt i) = Ok i"
proof -
  assume i: "\<bar>i\<bar> < 2 ^ 31"
  then have "- (2 ^ 31) \<le> i" "i < 2 ^ 31" by (simp_all add: abs_less_iff)
  then have "(of_int (- (2 ^ 31)) :: rat) \<le> of_int i" "(of_int i :: rat) < of_int (2 ^ 31)"
    by (simp_all only: of_int_le_iff of_int_less_iff)
  then show ?thesis using py_finite_VInt [OF i]
    by (simp add: py_integer_def is_integer_def del: py_finite.simps py_finite_VInt)
qed

lemma report_value_flag:
  assumes "reg_domain r = Some BOOL" and "i = 0 \<or> i = 1"
  shows "report_value (VInt i) r = Ok (of_int i)"
  using assms by (auto simp: report_value_def)

section \<open>Properties\<close>

text \<open>
  C3. A legal setting is confirmed by the report it causes: for every fixed-point row of the
  UCX II table (faders, gains, FX, EQ, dynamics, delays), whatever value \<open>number_value\<close> accepts
  for a config, the float32 the backend reports for it is a legal observation and compares
  equal to the setting, at any caller tolerance. A repair can therefore never be caused by the
  backend's own quantisation.
\<close>

theorem legal_setting_confirmed:
  assumes "r \<in> set (dev_registers UCX2)" and "reg_scale r \<noteq> None"
    and "number_value v r False = Ok w"
  shows "\<exists>g. expected_report v r = Ok g \<and> number_value (VFloat (Fin g)) r True = Ok g
           \<and> equal_float v (VFloat (Fin g)) (Some r) tolerance = Ok True"
proof -
  have "sound_row r" using ucx2_rows_sound assms(1) by (simp add: list_all_iff)
  then have "encodable_row r" using assms(2) by (rule sound_row_encodable)
  then show ?thesis using assms(3) by (rule own_report)
qed

definition volume_row :: register where
  "volume_row = (Register ''/output/{ch}/volume'' ''f'' VERIFIABLE ''output'')
     \<lparr>reg_domain := Some NUMBER, reg_lo := Some LEVEL_MIN, reg_hi := Some LEVEL_MAX,
      reg_unit := ''dB'', reg_scale := Some D0_1\<rparr>"

lemma volume_row_in_table: "volume_row \<in> set (dev_registers UCX2)"
  by (simp add: UCX2_def ucx2_flat_rows_def volume_row_def)

lemma f32_int [simp]: "f32 (- 6) = - 6"
  using f32.keeps_int [of "- 6"] by simp

lemma volume_row_raw: "raw_value (VFloat (Fin (-6))) volume_row = Ok (-60)"
proof -
  define s where "s = f32 D0_1"
  have "\<bar>s - D0_1\<bar> \<le> 1 / 1000000"
    using f32.err_within [of D0_1 1] unfolding s_def by (simp add: literal_values power_int_minus_divide)
  moreover have "\<bar>D0_1 - 1 / 10\<bar> \<le> 1 / 1000000" by (simp add: literal_values)
  ultimately have s: "\<bar>s - 1 / 10\<bar> \<le> 1 / 500000" by linarith
  then have lo: "1 / 10 - 1 / 500000 \<le> s" and hi: "s \<le> 1 / 10 + 1 / 500000" by linarith+
  then have pos: "0 < s" by linarith
  have "6 / s \<le> 60 + 1 / 256" "60 - 1 / 256 \<le> 6 / s"
    using lo hi pos by (simp_all add: divide_le_eq le_divide_eq)
  then have q: "\<bar>- 6 / s - (- 60)\<bar> \<le> 1 / 256" and big: "\<bar>- 6 / s\<bar> \<le> 61"
    unfolding minus_divide_left [symmetric] by linarith+
  have near: "\<bar>f32 (d64 (- 6 / s)) - (- 60)\<bar> \<le> 1 / 64" "\<bar>d64 (- 6 / s)\<bar> \<le> 62"
    using double_round_near [of "- 6 / s" 1, OF order_trans [OF big]] q big by linarith+
  then have "lround (f32 (d64 (- 6 / s))) = - 60" using lround_near [of _ "- 60"] by simp
  moreover have "\<bar>d64 (- 6 / s)\<bar> < D64_LIMIT" "\<bar>f32 (d64 (- 6 / s))\<bar> < F32_LIMIT"
    "\<bar>s\<bar> < F32_LIMIT" "6 < F32_LIMIT"
    using near s format_limits by linarith+
  ultimately show ?thesis using pos
    by (simp add: raw_value_def raw_unchecked_def volume_row_def Register_def res_simps
        float32_dround s_def [symmetric] in_int16_def)
qed

lemma volume_row_legal: "number_value (VFloat (Fin (-6))) volume_row False = Ok (-6)"
  using volume_row_raw f32_int
  by (simp add: number_value_def volume_row_def Register_def res_simps within_bound_def limit_of_def LEVEL_MIN_def LEVEL_MAX_def)

lemma legal_setting_confirmed_witness:
  "\<exists>g. expected_report (VFloat (Fin (-6))) volume_row = Ok g
     \<and> number_value (VFloat (Fin g)) volume_row True = Ok g
     \<and> equal_float (VFloat (Fin (-6))) (VFloat (Fin g)) (Some volume_row) None = Ok True"
  by (rule legal_setting_confirmed [OF volume_row_in_table _ volume_row_legal])
    (simp add: volume_row_def)



end
