(* ===== verification/Model.thy ===== *)
theory Model
  imports Numeric
begin

text \<open>
  \<^verbatim>\<open>model.py\<close>: a desk as data. Routes and the pair flags they need, the check of nonzero
  balances across the routes of a desk, channel and global settings, the identity of the
  machine and the parsed config. Strings are compared as written. A route's level is the
  float the parser makes of it and its channels are ints, so the source's
  \<open>type(...) is not int\<close> guards on them cannot fire here; the message text of an exception is
  not modelled.
\<close>

section \<open>Routes\<close>

record route =
  route_name :: string
  route_output :: "int list"
  route_playback :: "int list"
  route_level :: fl
  route_volume :: "fl option"
  route_stereo :: bool
  route_input :: "int list"
  route_pan :: int
  route_mirror_of :: "int list"
  route_base :: bool

text \<open>\<open>Route(name, output)\<close> with every other field at its default.\<close>

definition Route :: "string \<Rightarrow> int list \<Rightarrow> route" where
  "Route name output =
     \<lparr>route_name = name, route_output = output, route_playback = [], route_level = Fin 0,
      route_volume = None, route_stereo = True, route_input = [], route_pan = 0,
      route_mirror_of = [], route_base = False\<rparr>"

definition source :: "route \<Rightarrow> string \<times> int list" where
  "source r = (if route_input r \<noteq> [] then (''input'', route_input r)
               else (''playback'', route_playback r))"

definition in_channel_range :: "int \<Rightarrow> bool" where
  "in_channel_range ch = (CHANNEL_MIN \<le> ch \<and> ch \<le> CHANNEL_MAX)"

text \<open>\<open>pair[0] % 2 == 1 and pair[1] == pair[0] + 1\<close> of a pair of channels.\<close>

definition odd_pair :: "int list \<Rightarrow> bool" where
  "odd_pair pair = (pair ! 0 mod 2 = 1 \<and> pair ! 1 = pair ! 0 + 1)"

text \<open>A declared balance supported by the route's addressing shape.\<close>

definition checked_pan :: "route \<Rightarrow> int res" where
  "checked_pan r =
     (if \<not> (- 100 \<le> route_pan r \<and> route_pan r \<le> 100) then Raise ValueError
      else if route_pan r \<noteq> 0 then
        (if (route_input r \<noteq> []) = (route_playback r \<noteq> []) then Raise ValueError
         else let channels = snd (source r) in
           if \<not> route_stereo r \<or> length channels \<noteq> 2 \<or> length (route_output r) \<noteq> 2
              \<or> list_ex (\<lambda>ch. \<not> in_channel_range ch) (channels @ route_output r)
              \<or> list_ex (\<lambda>pair. \<not> odd_pair pair) [channels, route_output r]
           then Raise ValueError
           else if \<not> (fl_less (Fin LEVEL_MIN) (route_level r) \<and> fl_le (route_level r) (Fin LEVEL_MAX))
           then Raise ValueError
           else Ok (route_pan r))
      else Ok (route_pan r))"

text \<open>The odd channel of the pair a channel belongs to, as \<open>link_requirements\<close> computes it.\<close>

definition odd_of :: "int \<Rightarrow> int" where
  "odd_of ch = (if ch mod 2 \<noteq> 0 then ch else ch - 1)"

type_synonym link = "string \<times> int \<times> bool"

definition link_requirements :: "route \<Rightarrow> link list res" where
  "link_requirements r =
     (case source r of (kind, channels) \<Rightarrow>
       case channels of [] \<Rightarrow> Raise IndexError
       | s # _ \<Rightarrow> (case route_output r of [] \<Rightarrow> Raise IndexError
           | out # _ \<Rightarrow> Ok
              [(kind, odd_of s, length channels = 2),
               (''output'', odd_of out, length (route_output r) = 2 \<and> route_stereo r)]))"

section \<open>Balances across routes\<close>

text \<open>
  The pair flags a list of routes declares: a second declaration of a pair must repeat the
  first (the callers raise different classes).
\<close>

type_synonym links = "(string \<times> int, bool) dict"

definition add_link :: "exc \<Rightarrow> link \<Rightarrow> links \<Rightarrow> links res" where
  "add_link e l links = (case l of (family, channel, linked) \<Rightarrow>
     let key = (family, channel) in
     if dget links key \<noteq> None \<and> dget links key \<noteq> Some linked then Raise e
     else Ok (dset key linked links))"

definition add_links :: "exc \<Rightarrow> link list \<Rightarrow> links \<Rightarrow> links res" where
  "add_links e ls links = fold_res (add_link e) ls links"

text \<open>The compound register a route's level and balance belong to, folded through its links.\<close>

type_synonym cell = "int \<times> string \<times> int"

definition cell_key :: "route \<Rightarrow> link list \<Rightarrow> cell" where
  "cell_key r ls = (case (ls ! 0, ls ! 1) of ((kind, src, src_linked), (_, out, out_linked)) \<Rightarrow>
     (if out_linked then out else hd (route_output r), kind,
      if src_linked then src else hd (snd (source r))))"

definition claim_route :: "route \<Rightarrow> links \<times> (cell, route list) dict
    \<Rightarrow> (links \<times> (cell, route list) dict) res" where
  "claim_route r st = (case st of (links, claims) \<Rightarrow>
     rbind (link_requirements r) (\<lambda>ls.
     rbind (add_links ValueError ls links) (\<lambda>links'.
       let key = cell_key r ls in
       Ok (links', dset key ((case dget claims key of None \<Rightarrow> [] | Some rs \<Rightarrow> rs) @ [r]) claims))))"

text \<open>\<open>any(route.checked_pan for route in routes)\<close>.\<close>

fun any_pan :: "route list \<Rightarrow> bool res" where
  "any_pan [] = Ok False"
| "any_pan (r # rs) = rbind (checked_pan r) (\<lambda>pan. if pan \<noteq> 0 then Ok True else any_pan rs)"

definition same_level_pan :: "route \<Rightarrow> route \<Rightarrow> bool" where
  "same_level_pan a b = (fl_eq (route_level a) (route_level b) \<and> route_pan a = route_pan b)"

definition check_claim :: "route list \<Rightarrow> unit res" where
  "check_claim declarations = rbind (any_pan declarations) (\<lambda>some.
     if \<not> some then Ok ()
     else check (list_all (same_level_pan (hd declarations)) (tl declarations)) ValueError)"

definition validate_route_pan :: "route list \<Rightarrow> unit res" where
  "validate_route_pan routes = rbind (any_pan routes) (\<lambda>some.
     if \<not> some then Ok ()
     else rbind (fold_res claim_route routes ([], [])) (\<lambda>(_, claims).
       rbind (map_res (\<lambda>(_, declarations). check_claim declarations) claims) (\<lambda>_. Ok ())))"

section \<open>Settings\<close>

record channel_setting =
  cs_family :: string
  cs_channel :: int
  cs_option :: string
  cs_value :: pyval

record global_setting =
  gs_family :: string
  gs_option :: string
  gs_value :: pyval

definition gs_path :: "global_setting \<Rightarrow> string" where
  "gs_path g = (if gs_option g = ENABLE_OPTION then CHR ''/'' # gs_family g
                else CHR ''/'' # gs_family g @ CHR ''/'' # gs_option g)"

section \<open>Machine identity\<close>

record overrides =
  ov_device_name :: "string option"
  ov_osc_port :: "int option"

definition NO_OVERRIDES :: overrides where
  "NO_OVERRIDES = \<lparr>ov_device_name = None, ov_osc_port = None\<rparr>"

text \<open>The second argument is the legacy keyword \<open>said\<close>.\<close>

definition resolve_overrides :: "overrides option \<Rightarrow> overrides option \<Rightarrow> overrides res" where
  "resolve_overrides given said =
     (case given of
        Some o1 \<Rightarrow> (if said \<noteq> None then Raise TypeError else Ok o1)
      | None \<Rightarrow> Ok (case said of Some o2 \<Rightarrow> o2 | None \<Rightarrow> NO_OVERRIDES))"

record machine =
  mc_device_name :: string
  mc_usb_id :: string
  mc_serial :: string
  mc_osc_port :: int
  mc_osc_recv_port :: int


definition under :: "machine \<Rightarrow> overrides option \<Rightarrow> overrides option \<Rightarrow> machine res" where
  "under m given said = rbind (resolve_overrides given said) (\<lambda>ov. Ok
     (m \<lparr>mc_device_name := (case ov_device_name ov of
            Some n \<Rightarrow> if n \<noteq> [] then n else mc_device_name m | None \<Rightarrow> mc_device_name m),
         mc_osc_port := (case ov_osc_port ov of None \<Rightarrow> mc_osc_port m | Some p \<Rightarrow> p)\<rparr>))"


section \<open>The config\<close>

record config =
  cfg_device_name :: string
  cfg_usb_id :: string
  cfg_serial :: string
  cfg_osc_port :: int
  cfg_osc_recv_port :: int
  cfg_routes :: "route list"
  cfg_channels :: "channel_setting list"
  cfg_globals :: "global_setting list"
  cfg_policies :: "(string \<times> string, policy) dict"
  cfg_loaded :: "machine option"
  cfg_overrides :: overrides
  cfg_base :: string
  cfg_enforce :: string
  cfg_peak_safe :: bool

definition default_config :: config where
  "default_config =
     \<lparr>cfg_device_name = DEFAULT_DEVICE_NAME, cfg_usb_id = DEFAULT_USB_ID, cfg_serial = [],
      cfg_osc_port = DEFAULT_OSC_PORT, cfg_osc_recv_port = DEFAULT_OSC_RECV_PORT,
      cfg_routes = [], cfg_channels = [], cfg_globals = [], cfg_policies = [],
      cfg_loaded = None, cfg_overrides = NO_OVERRIDES, cfg_base = ''keep'',
      cfg_enforce = ''apply'', cfg_peak_safe = False\<rparr>"

text \<open>Construction: \<open>__post_init__\<close> checks the balances.\<close>

definition make_config :: "config \<Rightarrow> config res" where
  "make_config c = rbind (validate_route_pan (cfg_routes c)) (\<lambda>_. Ok c)"

section \<open>Facts\<close>

lemma odd_of_odd [simp]: "odd_of ch mod 2 = 1"
  unfolding odd_of_def by presburger

lemma odd_of_pair: "ch = odd_of ch \<or> ch = odd_of ch + 1"
  unfolding odd_of_def by simp

lemma odd_of_eq: "odd_of ch = ch - (ch - 1) mod 2"
  unfolding odd_of_def by presburger

lemma odd_of_id: "ch mod 2 = 1 \<Longrightarrow> odd_of ch = ch" "ch mod 2 = 1 \<Longrightarrow> odd_of (ch + 1) = ch"
  unfolding odd_of_def by presburger+

lemma link_requirementsE:
  assumes "link_requirements r = Ok ls"
  obtains s ss out outs where "snd (source r) = s # ss" "route_output r = out # outs"
    "ls = [(fst (source r), odd_of s, length (snd (source r)) = 2),
           (''output'', odd_of out, length (route_output r) = 2 \<and> route_stereo r)]"
  using assms by (auto simp: link_requirements_def split: prod.splits list.splits)

lemma link_requirements_ok:
  "is_ok (link_requirements r) \<longleftrightarrow> snd (source r) \<noteq> [] \<and> route_output r \<noteq> []"
  by (auto simp: link_requirements_def is_ok_def split: prod.splits list.splits)

lemma source_playback: "route_playback r \<noteq> [] \<Longrightarrow> route_input r = [] \<Longrightarrow> source r = (''playback'', route_playback r)"
  by (simp add: source_def)

lemma checked_pan_value: "checked_pan r = Ok p \<Longrightarrow> p = route_pan r \<and> - 100 \<le> p \<and> p \<le> 100"
  by (auto simp: checked_pan_def Let_def split: if_splits)

lemma checked_pan_zero: "route_pan r = 0 \<Longrightarrow> checked_pan r = Ok 0"
  by (simp add: checked_pan_def)

text \<open>A nonzero balance that passes has the linked shape.\<close>

lemma checked_pan_shape:
  assumes "checked_pan r = Ok p" and "p \<noteq> 0"
  shows "route_stereo r" "length (snd (source r)) = 2" "length (route_output r) = 2"
    "odd_pair (snd (source r))" "odd_pair (route_output r)"
    "\<exists>q. route_level r = Fin q \<and> LEVEL_MIN < q \<and> q \<le> LEVEL_MAX"
proof -
  have "p = route_pan r" using assms(1) by (simp add: checked_pan_value)
  with assms show "route_stereo r" "length (snd (source r)) = 2" "length (route_output r) = 2"
    "odd_pair (snd (source r))" "odd_pair (route_output r)"
    by (auto simp: checked_pan_def Let_def split: if_splits)
  from assms \<open>p = route_pan r\<close>
  have "fl_less (Fin LEVEL_MIN) (route_level r)" "fl_le (route_level r) (Fin LEVEL_MAX)"
    by (auto simp: checked_pan_def Let_def split: if_splits)
  then show "\<exists>q. route_level r = Fin q \<and> LEVEL_MIN < q \<and> q \<le> LEVEL_MAX"
    by (cases "route_level r") (auto simp: fl_le_def)
qed

lemma any_pan_True:
  "any_pan rs = Ok True \<Longrightarrow> \<exists>r\<in>set rs. checked_pan r = Ok (route_pan r) \<and> route_pan r \<noteq> 0"
  by (induction rs) (auto simp: res_simps split: if_splits dest: checked_pan_value)

lemma any_pan_False: "any_pan rs = Ok False \<Longrightarrow> r \<in> set rs \<Longrightarrow> route_pan r = 0"
  by (induction rs) (auto simp: res_simps split: if_splits dest: checked_pan_value)

lemma add_links_keeps:
  assumes "add_links e ls links = Ok links'" and "dget links k = Some v"
  shows "dget links' k = Some v"
proof -
  from assms(1) have "fold_res (add_link e) ls links = Ok links'" by (simp add: add_links_def)
  then show ?thesis
    by (rule fold_res_invariant)
      (use assms(2) in \<open>auto simp: add_link_def Let_def dict_simps split: if_splits prod.splits\<close>)
qed

lemma add_links_declares:
  "add_links e ls links = Ok links' \<Longrightarrow> (f, c, l) \<in> set ls \<Longrightarrow> dget links' (f, c) = Some l"
proof (induction ls arbitrary: links)
  case Nil
  then show ?case by simp
next
  case (Cons x ls)
  then obtain mid where mid: "add_link e x links = Ok mid" "add_links e ls mid = Ok links'"
    by (auto simp: add_links_def res_simps)
  show ?case
  proof (cases "(f, c, l) = x")
    case True
    with mid(1) have "dget mid (f, c) = Some l"
      by (auto simp: add_link_def Let_def dict_simps split: if_splits)
    with mid(2) show ?thesis by (rule add_links_keeps)
  next
    case False
    with Cons.prems mid(2) Cons.IH show ?thesis by auto
  qed
qed

lemma claim_routeE:
  assumes "claim_route r (L, C) = Ok st"
  obtains ls L' ys where "link_requirements r = Ok ls" "add_links ValueError ls L = Ok L'"
    "ys = (case dget C (cell_key r ls) of None \<Rightarrow> [] | Some rs \<Rightarrow> rs)"
    "st = (L', dset (cell_key r ls) (ys @ [r]) C)"
  using assms by (auto simp: claim_route_def res_simps Let_def)

text \<open>Collecting the claims files every route under its cell and keeps every pair flag.\<close>

lemma claims_collected:
  "fold_res claim_route rs (L, C) = Ok (L', C') \<Longrightarrow>
     (\<forall>k v. dget L k = Some v \<longrightarrow> dget L' k = Some v) \<and>
     (\<forall>k xs. dget C k = Some xs \<longrightarrow> (\<exists>ys. dget C' k = Some ys \<and> set xs \<subseteq> set ys)) \<and>
     (\<forall>r\<in>set rs. \<exists>ls ys. link_requirements r = Ok ls \<and> dget C' (cell_key r ls) = Some ys
        \<and> r \<in> set ys \<and> (\<forall>f c l. (f, c, l) \<in> set ls \<longrightarrow> dget L' (f, c) = Some l))"
proof (induction rs arbitrary: L C)
  case Nil
  then show ?case by auto
next
  case (Cons r rs)
  then obtain st where st: "claim_route r (L, C) = Ok st" "fold_res claim_route rs st = Ok (L', C')"
    by (auto simp: res_simps)
  from st(1) obtain ls M ys where r: "link_requirements r = Ok ls" "add_links ValueError ls L = Ok M"
    "ys = (case dget C (cell_key r ls) of None \<Rightarrow> [] | Some rs \<Rightarrow> rs)"
    "st = (M, dset (cell_key r ls) (ys @ [r]) C)" by (rule claim_routeE)
  note IH = Cons.IH [OF st(2) [unfolded r(4)]]
  have links: "dget M k = Some v" if "dget L k = Some v" for k v
    using add_links_keeps [OF r(2) that] .
  have grow: "\<exists>zs. dget C' k = Some zs \<and> set xs \<subseteq> set zs" if "dget C k = Some xs" for k xs
  proof -
    have "\<exists>xs'. dget (dset (cell_key r ls) (ys @ [r]) C) k = Some xs' \<and> set xs \<subseteq> set xs'"
      using that r(3) by (auto simp: dict_simps)
    with IH show ?thesis by (meson subset_trans)
  qed
  have "\<exists>zs. dget C' (cell_key r ls) = Some zs \<and> set (ys @ [r]) \<subseteq> set zs"
    by (rule IH [THEN conjunct2, THEN conjunct1, rule_format]) (simp add: dict_simps)
  moreover have "dget L' (f, c) = Some l" if "(f, c, l) \<in> set ls" for f c l
    using IH add_links_declares [OF r(2) that] by blast
  ultimately show ?case using IH links grow r(1) by auto
qed

lemma check_claim_same:
  assumes "check_claim rs = Ok ()" and "a \<in> set rs" and "b \<in> set rs" and "route_pan a \<noteq> 0"
  shows "route_level a = route_level b \<and> route_pan a = route_pan b"
proof -
  obtain x xs where rs: "rs = x # xs" using assms(2) by (cases rs) auto
  have "any_pan rs \<noteq> Ok False" using any_pan_False assms(2,4) by blast
  then have "list_all (same_level_pan x) xs"
    using assms(1) rs by (auto simp: check_claim_def res_simps)
  then have "\<forall>y\<in>set rs. route_level y = route_level x \<and> route_pan y = route_pan x"
    using rs by (auto simp: list_all_iff same_level_pan_def elim!: fl_eq.elims)
  then show ?thesis using assms(2,3) by simp
qed

lemma validate_route_panE:
  assumes "validate_route_pan rs = Ok ()" and "p \<in> set rs" and "route_pan p \<noteq> 0"
  obtains L C where "fold_res claim_route rs ([], []) = Ok (L, C)"
    "\<forall>k ds. dget C k = Some ds \<longrightarrow> check_claim ds = Ok ()"
proof -
  have "any_pan rs \<noteq> Ok False" using any_pan_False assms(2,3) by blast
  with assms(1) obtain L C us where C: "fold_res claim_route rs ([], []) = Ok (L, C)"
    "map_res (\<lambda>(_, ds). check_claim ds) C = Ok us"
    by (auto simp: validate_route_pan_def res_simps split: if_splits)
  from C(2) have "\<forall>(k, ds) \<in> set C. is_ok (check_claim ds)"
    by (fastforce simp: map_res_Ok_iff list_all2_conv_all_nth in_set_conv_nth)
  then have "check_claim ds = Ok ()" if "dget C k = Some ds" for k ds
    using dget_in_set [OF that] by (fastforce simp: is_ok_iff)
  with C(1) that show ?thesis by blast
qed

section \<open>Properties\<close>

text \<open>
  C7. A validated desk has no contradictory balance: as soon as one route of the desk declares
  a nonzero pan, any two routes agree on every pair flag they both declare, and two routes that
  fold onto one compound matrix register, one of them with a balance, declare the same level
  and the same balance.
\<close>

theorem validated_pan_agreement:
  assumes "validate_route_pan routes = Ok ()" and "p \<in> set routes" and "route_pan p \<noteq> 0"
    and "a \<in> set routes" and "b \<in> set routes"
    and "link_requirements a = Ok la" and "link_requirements b = Ok lb"
  shows "((f, c, l) \<in> set la \<and> (f, c, l') \<in> set lb \<longrightarrow> l = l')
    \<and> (cell_key a la = cell_key b lb \<and> route_pan a \<noteq> 0
         \<longrightarrow> route_level a = route_level b \<and> route_pan a = route_pan b)"
proof -
  obtain L C where C: "fold_res claim_route routes ([], []) = Ok (L, C)"
    "\<forall>k ds. dget C k = Some ds \<longrightarrow> check_claim ds = Ok ()"
    using assms(1-3) by (rule validate_route_panE)
  note filed = claims_collected [OF C(1), THEN conjunct2, THEN conjunct2]
  obtain xs where a: "dget C (cell_key a la) = Some xs" "a \<in> set xs"
    "\<And>f c l. (f, c, l) \<in> set la \<Longrightarrow> dget L (f, c) = Some l"
    using bspec [OF filed assms(4)] assms(6) by auto
  obtain ys where b: "dget C (cell_key b lb) = Some ys" "b \<in> set ys"
    "\<And>f c l. (f, c, l) \<in> set lb \<Longrightarrow> dget L (f, c) = Some l"
    using bspec [OF filed assms(5)] assms(7) by auto
  have "l = l'" if "(f, c, l) \<in> set la" "(f, c, l') \<in> set lb"
    using a(3) [OF that(1)] b(3) [OF that(2)] by simp
  moreover have "route_level a = route_level b \<and> route_pan a = route_pan b"
    if "cell_key a la = cell_key b lb" "route_pan a \<noteq> 0"
    using check_claim_same [OF C(2) [rule_format, OF a(1)] a(2) _ that(2)] a(1) b(1,2) that(1) by simp
  ultimately show ?thesis by blast
qed

definition balanced_route :: route where
  "balanced_route = Route ''main'' [1, 2] \<lparr>route_playback := [3, 4], route_pan := 30\<rparr>"

lemma validated_pan_agreement_witness:
  "validate_route_pan [balanced_route, balanced_route \<lparr>route_name := ''again''\<rparr>] = Ok ()
   \<and> cell_key balanced_route [(''playback'', 3, True), (''output'', 1, True)] = (1, ''playback'', 3)
   \<and> route_pan (balanced_route \<lparr>route_name := ''again''\<rparr>) = 30"
proof -
  let ?a = balanced_route and ?b = "balanced_route \<lparr>route_name := ''again''\<rparr>"
  let ?l = "[(''playback'', 3 :: int, True), (''output'', 1, True)]"
  have v: "validate_route_pan [?a, ?b] = Ok ()" by code_simp
  have "link_requirements ?a = Ok ?l" "link_requirements ?b = Ok ?l" by code_simp+
  moreover have "cell_key ?a ?l = cell_key ?b ?l" "cell_key ?a ?l = (1, ''playback'', 3)"
    "route_pan ?a = 30" by code_simp+
  ultimately show ?thesis
    using validated_pan_agreement [OF v, of ?a ?a ?b ?l ?l] v by simp
qed


end
