(* ===== verification/DeviceFacts.thy ===== *)
theory DeviceFacts
  imports Model
begin

text \<open>
  The lookups in the UCX II table that the properties and the witnesses of the components use,
  evaluated once: the device a name stands for, the channels of a capability, the rows of the
  link flags, the playback mute, the faders and the two matrices for every channel number.
\<close>

lemma find_append: "List.find P (xs @ ys) = (case List.find P xs of None \<Rightarrow> List.find P ys | Some x \<Rightarrow> Some x)"
  by (induction xs) auto

lemma find_SomeD: "List.find P xs = Some x \<Longrightarrow> P x \<and> x \<in> set xs"
  by (auto simp: find_Some_iff)

lemma find_NoneD: "List.find P xs = None \<Longrightarrow> x \<in> set xs \<Longrightarrow> \<not> P x"
  by (auto simp: find_None_iff)

lemma device_for_name_ucx2 [simp]: "device_for_name ''Fireface UCX II'' = Some UCX2"
  by (simp add: device_for_name_def DEVICES_def UCX2_def) (code_simp)

lemma default_device [simp]: "device_for_name DEFAULT_DEVICE_NAME = Some UCX2"
  by (simp add: DEFAULT_DEVICE_NAME_def)

lemma ucx2_name [simp]: "dev_name UCX2 = ''Fireface UCX II''" "dev_usb_id UCX2 = ''2a39:3fd9''"
  "dev_registers UCX2 \<noteq> []"
  by (simp_all add: UCX2_def ucx2_flat_rows_def)

lemma ucx2_channels_for [simp]:
  "channels_for UCX2 ''input'' = upto 1 20" "channels_for UCX2 ''output'' = upto 1 20"
  "channels_for UCX2 ''playback'' = upto 1 20"
  by (simp_all add: channels_for_def UCX2_def ucx2_channels_def seq_def)

text \<open>The first rows of the table.\<close>

lemma ucx2_registers:
  "dev_registers UCX2 = ucx2_flat_rows @ ucx2_output_rows @ ucx2_echo_rows @ ucx2_controlroom_rows
       @ ucx2_reverb_rows @ ucx2_clock_rows @ ucx2_hardware_rows @ ucx2_sub_rows
       @ ucx2_write_only_rows"
  by (simp add: UCX2_def)

definition mute_row :: register where
  "mute_row = (Register ''/playback/{ch}/mute'' ''i'' REESTABLISHED ''playback'')\<lparr>reg_domain := Some BOOL\<rparr>"

lemma option_register_mute:
  "1 \<le> ch \<Longrightarrow> ch \<le> 20 \<Longrightarrow> option_register (Some UCX2) ''playback'' ''mute'' ch = Some mute_row"
  by (simp add: option_register_def ucx2_registers find_append ucx2_flat_rows_def Register_def
      option_template_def family_prefix_def has_def mute_row_def)

section \<open>Rows of concrete paths\<close>

lemma is_digits_show_int [simp]: "0 \<le> n \<Longrightarrow> is_digits (show_int n)"
  by (simp add: show_int_def)

lemma nat_of_digits_show_int [simp]: "0 \<le> n \<Longrightarrow> int (nat_of_digits (show_int n)) = n"
  by (simp add: show_int_def)

text \<open>A matrix cell's path.\<close>

definition mix_path :: "int \<Rightarrow> string \<Rightarrow> int \<Rightarrow> string" where
  "mix_path out kind src = chan_path ''mix'' out (kind @ CHR ''/'' # show_int src)"

lemma segments_chan_path [path_simps]:
  "CHR ''/'' \<notin> set family \<Longrightarrow> CHR ''/'' \<notin> set option \<Longrightarrow>
     segments (chan_path family channel option) = [[], family, show_int channel, option]"
  by (simp add: segments_def split_chan_path split_on_no_sep)

lemma segments_mix_path [path_simps]:
  "CHR ''/'' \<notin> set kind \<Longrightarrow>
     segments (mix_path out kind src) = [[], ''mix'', show_int out, kind, show_int src]"
  by (simp add: segments_def mix_path_def split_chan_path split_on_append split_on_no_sep)

lemmas split_paths = segments_chan_path [unfolded segments_def] segments_mix_path [unfolded segments_def]

lemma mix_path_inject [simp]:
  assumes "CHR ''/'' \<notin> set k" and "CHR ''/'' \<notin> set k'"
  shows "mix_path out k src = mix_path out' k' src' \<longleftrightarrow> out = out' \<and> k = k' \<and> src = src'"
proof
  assume "mix_path out k src = mix_path out' k' src'"
  then have "segments (mix_path out k src) = segments (mix_path out' k' src')" by simp
  then show "out = out' \<and> k = k' \<and> src = src'" using assms by (auto simp: segments_mix_path)
qed simp

lemma mix_not_chan: "CHR ''/'' \<notin> set f \<Longrightarrow> f \<noteq> ''mix'' \<Longrightarrow> mix_path out k src \<noteq> chan_path f ch opt"
  unfolding mix_path_def by (subst chan_path_inject) auto

lemma first_flat:
  "List.find P ucx2_flat_rows = Some r \<Longrightarrow> List.find P (dev_registers UCX2) = Some r"
  by (simp add: ucx2_registers find_append)

text \<open>The rows of a link flag, of a fader and of the two matrices.\<close>

lemmas row_search = ucx2_registers find_append ucx2_flat_rows_def Register_def
  matches_template_def split_paths is_placeholder_def segments_def suffix_to_prefix

lemma verify_class_links:
  assumes "0 \<le> n"
  shows "verify_class_of (Some UCX2) (chan_path ''playback'' n ''stereo'') = Some REESTABLISHED"
    "verify_class_of (Some UCX2) (chan_path ''playback'' n ''mute'') = Some REESTABLISHED"
    "verify_class_of (Some UCX2) (chan_path ''input'' n ''stereo'') = Some VERIFIABLE"
    "verify_class_of (Some UCX2) (chan_path ''output'' n ''stereo'') = Some VERIFIABLE"
    "verify_class_of (Some UCX2) (chan_path ''output'' n ''volume'') = Some VERIFIABLE"
  using assms by (simp_all add: verify_class_of_def first_match_def row_search)

lemma verify_class_mix:
  assumes "0 \<le> out" and "0 \<le> src"
  shows "verify_class_of (Some UCX2) (mix_path out ''playback'' src) = Some REESTABLISHED"
    "verify_class_of (Some UCX2) (mix_path out ''input'' src) = Some VERIFIABLE"
  using assms by (simp_all add: verify_class_of_def first_match_def row_search)

lemma register_policy_rows:
  assumes "0 \<le> n" and "0 \<le> out"
  shows "register_policy (Some UCX2) (chan_path ''playback'' n ''stereo'') = PIN"
    "register_policy (Some UCX2) (chan_path ''input'' n ''stereo'') = PIN"
    "register_policy (Some UCX2) (chan_path ''output'' n ''stereo'') = PIN"
    "register_policy (Some UCX2) (mix_path out ''playback'' n) = PIN"
    "register_policy (Some UCX2) (mix_path out ''input'' n) = PIN"
    "register_policy (Some UCX2) (chan_path ''output'' n ''volume'') = REMEMBER"
  using assms by (simp_all add: register_policy_def first_match_def row_search)

end
