(* ===== verification/Mirrors.thy ===== *)
theory Mirrors
  imports DeviceFacts
begin

text \<open>
  \<^verbatim>\<open>mirrors.py\<close>: one output's declared submix, kept equal on another. Mirrors are parsed from
  a section's option and expanded into ordinary routes when the config loads; the theorem says
  the expansion makes the two submixes equal, route by route.
\<close>

type_synonym mirror = "int list \<times> int list"

definition MIRROR_OPTION :: string where "MIRROR_OPTION = ''mirror''"

text \<open>The second component of the parsed pair is the source, the first the target.\<close>

definition parse_mirror :: "string \<Rightarrow> int \<Rightarrow> device option \<Rightarrow> mirror res" where
  "parse_mirror raw channel dev =
     (let parts = map py_int (segments (strip_space raw));
          outputs = (case dev of Some d \<Rightarrow> channels_for d ''output'' | None \<Rightarrow> [])
      in if None \<in> set parts then Raise ConfigError
      else let src = List.map_filter id parts in
        rbind (case src of
            [a, b] \<Rightarrow> if a mod 2 \<noteq> 1 \<or> b \<noteq> a + 1 then Raise ConfigError
                      else if channel mod 2 \<noteq> 1 then Raise ConfigError
                      else Ok [channel, channel + 1]
          | [a] \<Rightarrow> Ok [channel]
          | _ \<Rightarrow> Raise ConfigError) (\<lambda>target.
        if list_ex (\<lambda>ch. ch \<notin> set outputs) (src @ target) then Raise ConfigError
        else if list_ex (\<lambda>ch. ch \<in> set target) src then Raise ConfigError
        else Ok (target, src)))"

type_synonym claimed = "(int, int list) dict"

definition claim_channel :: "int list \<Rightarrow> int \<Rightarrow> claimed \<Rightarrow> claimed res" where
  "claim_channel src channel claimed =
     (if dget claimed channel \<noteq> None then Raise ConfigError else Ok (dset channel src claimed))"

definition claim_mirrors :: "mirror list \<Rightarrow> claimed res" where
  "claim_mirrors mirrors =
     fold_res (\<lambda>(target, src). fold_res (claim_channel src) target) mirrors []"

definition check_mirrored_route :: "mirror list \<Rightarrow> claimed \<Rightarrow> route \<Rightarrow> unit res" where
  "check_mirrored_route mirrors claimed r =
     (if list_ex (\<lambda>(_, src). list_ex (\<lambda>ch. ch \<in> set src) (route_output r) \<and> route_output r \<noteq> src) mirrors
      then Raise ConfigError
      else check (list_all (\<lambda>ch. dget claimed ch = None) (route_output r)) ConfigError)"

text \<open>\<open>dataclasses.replace\<close> constructs the copy anew, so its balance is checked again.\<close>

definition mirror_copy :: "mirror \<Rightarrow> route \<Rightarrow> route" where
  "mirror_copy m r = (case m of (target, src) \<Rightarrow>
     r \<lparr>route_name := route_name r @ ''-mirror-'' @ join_on CHR ''-'' (map show_int target),
        route_output := target, route_volume := None, route_mirror_of := src\<rparr>)"

definition mirror_copies :: "route list \<Rightarrow> mirror \<Rightarrow> route list res" where
  "mirror_copies routes m =
     map_res (\<lambda>r. rbind (checked_pan (mirror_copy m r)) (\<lambda>_. Ok (mirror_copy m r)))
       (filter (\<lambda>r. route_output r = snd m) routes)"

definition expand_mirrors :: "route list \<Rightarrow> mirror list \<Rightarrow> route list res" where
  "expand_mirrors routes mirrors =
     (if mirrors = [] then Ok routes
      else rbind (claim_mirrors mirrors) (\<lambda>claimed.
        rbind (check (\<not> list_ex (\<lambda>(_, src). list_ex (\<lambda>ch. dget claimed ch \<noteq> None) src) mirrors)
                 ConfigError) (\<lambda>_.
        rbind (map_res (check_mirrored_route mirrors claimed) routes) (\<lambda>_.
        rbind (map_res (mirror_copies routes) mirrors) (\<lambda>copies.
          Ok (routes @ concat copies))))))"

section \<open>Facts\<close>

lemma claim_target:
  "fold_res (claim_channel src) target claimed = Ok claimed' \<Longrightarrow>
     distinct target \<and> set target \<inter> set (dkeys claimed) = {}
     \<and> set (dkeys claimed') = set (dkeys claimed) \<union> set target"
proof (induction target arbitrary: claimed)
  case Nil
  then show ?case by simp
next
  case (Cons ch target)
  then obtain m where m: "claim_channel src ch claimed = Ok m"
    "fold_res (claim_channel src) target m = Ok claimed'" by (auto simp: res_simps)
  then have ch: "ch \<notin> set (dkeys claimed)" "m = dset ch src claimed"
    by (auto simp: claim_channel_def dget_None split: if_splits)
  then have "set (dkeys m) = insert ch (set (dkeys claimed))"
    by (simp only: pd.set_keys_store)
  with Cons.IH [OF m(2)] ch show ?case by auto
qed

lemma claim_mirrors_distinct:
  "fold_res (\<lambda>(target, src). fold_res (claim_channel src) target) mirrors claimed = Ok claimed' \<Longrightarrow>
     distinct (concat (map fst mirrors)) \<and> set (concat (map fst mirrors)) \<inter> set (dkeys claimed) = {}
     \<and> set (dkeys claimed') = set (dkeys claimed) \<union> set (concat (map fst mirrors))"
proof (induction mirrors arbitrary: claimed)
  case Nil
  then show ?case by simp
next
  case (Cons m mirrors)
  then obtain target src c where m: "m = (target, src)"
    "fold_res (claim_channel src) target claimed = Ok c"
    "fold_res (\<lambda>(target, src). fold_res (claim_channel src) target) mirrors c = Ok claimed'"
    by (cases m) (auto simp: res_simps)
  from Cons.IH [OF m(3)] claim_target [OF m(2)] show ?case by (auto simp: m(1))
qed

text \<open>What a submix is made of: the sources with their level, balance and link.\<close>

definition submix_entry :: "route \<Rightarrow> (string \<times> int list) \<times> fl \<times> int \<times> bool" where
  "submix_entry r = (source r, route_level r, route_pan r, route_stereo r)"

definition submix :: "int list \<Rightarrow> route list \<Rightarrow> ((string \<times> int list) \<times> fl \<times> int \<times> bool) list" where
  "submix out routes = map submix_entry (filter (\<lambda>r. route_output r = out) routes)"

lemma mirror_copy_submix [simp]: "submix_entry (mirror_copy m r) = submix_entry r"
  "route_output (mirror_copy m r) = fst m" "route_volume (mirror_copy m r) = None"
  "route_mirror_of (mirror_copy m r) = snd m"
  by (simp_all add: submix_entry_def mirror_copy_def source_def split: prod.splits)

lemma mirror_copies_eq:
  "mirror_copies routes m = Ok rs \<Longrightarrow>
     rs = map (mirror_copy m) (filter (\<lambda>r. route_output r = snd m) routes)"
  unfolding mirror_copies_def by (erule map_res_map) (auto simp: res_simps)

lemma submix_append: "submix out (xs @ ys) = submix out xs @ submix out ys"
  by (simp add: submix_def)

lemma submix_copies:
  "submix out (map (mirror_copy m) (filter (\<lambda>r. route_output r = snd m) routes))
     = (if fst m = out then submix (snd m) routes else [])"
  by (simp add: submix_def filter_map o_def)

lemma submix_all_copies:
  "distinct (map fst ms) \<Longrightarrow> m \<in> set ms \<Longrightarrow>
     concat (map (\<lambda>m'. if fst m' = fst m then f m' else []) ms) = f m"
proof (induction ms)
  case Nil
  then show ?case by simp
next
  case (Cons x ms)
  have no: "concat (map (\<lambda>m'. if fst m' = fst m then f m' else []) ms) = []"
    if "fst m \<notin> fst ` set ms"
  proof -
    have "map (\<lambda>m'. if fst m' = fst m then f m' else []) ms = map (\<lambda>_. []) ms"
      by (intro map_cong refl) (use that in \<open>metis image_eqI\<close>)
    then show ?thesis by simp
  qed
  show ?case
  proof (cases "m = x")
    case True
    with Cons.prems have "fst m \<notin> fst ` set ms" by simp
    with True no show ?thesis by simp
  next
    case False
    with Cons.prems have "m \<in> set ms" by simp
    moreover from this Cons.prems have "fst x \<noteq> fst m" by (metis distinct.simps(2) image_eqI list.simps(9) list.set_map)
    ultimately show ?thesis using Cons by simp
  qed
qed

lemma distinct_concat_nonempty:
  "distinct (concat xss) \<Longrightarrow> [] \<notin> set xss \<Longrightarrow> distinct xss"
proof (induction xss)
  case (Cons xs xss)
  have "xs \<notin> set xss"
  proof
    assume "xs \<in> set xss"
    moreover obtain x where "x \<in> set xs" using Cons.prems(2) by (cases xs) auto
    ultimately show False using Cons.prems(1) by auto
  qed
  with Cons show ?case by simp
qed simp

section \<open>Properties\<close>

text \<open>
  C6. Mirrored outputs stay equal: after the expansion, the submix the desk declares for a
  mirror's target (the sources of its routes with their levels, balances and links, in order)
  is the submix it declares for the mirror's source, and no copied route sets a fader. This is
  for mirrors whose sides name at least one channel, which every parsed mirror does.
\<close>

theorem mirrored_submix_equal:
  assumes "expand_mirrors routes mirrors = Ok expanded" and "(target, src) \<in> set mirrors"
    and "\<forall>(t, s)\<in>set mirrors. t \<noteq> [] \<and> s \<noteq> []"
  shows "submix target expanded = submix src expanded
    \<and> (\<forall>r\<in>set expanded. route_output r = target \<longrightarrow> route_volume r = None \<and> route_mirror_of r = src)"
proof -
  have "mirrors \<noteq> []" using assms(2) by auto
  with assms(1) obtain claimed us copies where
    c: "claim_mirrors mirrors = Ok claimed"
    and s: "\<not> list_ex (\<lambda>(_, src). list_ex (\<lambda>ch. dget claimed ch \<noteq> None) src) mirrors"
    and r: "map_res (check_mirrored_route mirrors claimed) routes = Ok us"
    and copies: "map_res (mirror_copies routes) mirrors = Ok copies"
    and ex: "expanded = routes @ concat copies"
    unfolding expand_mirrors_def by (simp only: if_False rbind_Ok_iff check_simps) blast
  have nonempty: "m \<in> set mirrors \<Longrightarrow> fst m \<noteq> [] \<and> snd m \<noteq> []" for m
    using assms(3) by (cases m) auto
  note D = claim_mirrors_distinct [OF c [unfolded claim_mirrors_def]]
  have claimed: "dget claimed ch \<noteq> None \<longleftrightarrow> (\<exists>t\<in>fst ` set mirrors. ch \<in> set t)" for ch
    using D by (auto simp: dget_None)
  have dis: "distinct (map fst mirrors)" "distinct (concat (map fst mirrors))"
    using D nonempty by (auto intro!: distinct_concat_nonempty) blast
  have not_target: "route_output r \<noteq> t" if rt: "r \<in> set routes" and tgt: "t \<in> fst ` set mirrors" for r t
  proof -
    have "is_ok (check_mirrored_route mirrors claimed r)"
      using map_res_all [OF r rt] .
    then have "list_all (\<lambda>ch. dget claimed ch = None) (route_output r)"
      by (auto simp: check_mirrored_route_def is_ok_iff split: if_splits)
    moreover obtain ch where "ch \<in> set t" using tgt nonempty by (cases t) fastforce+
    moreover have "dget claimed ch \<noteq> None" using tgt \<open>ch \<in> set t\<close> claimed by blast
    ultimately show ?thesis by (auto simp only: list_all_iff)
  qed
  have cs: "copies = map (\<lambda>m. map (mirror_copy m) (filter (\<lambda>r. route_output r = snd m) routes)) mirrors"
    using copies by (rule map_res_map) (rule mirror_copies_eq)
  have sub: "submix out expanded = submix out routes
      @ concat (map (\<lambda>m. if fst m = out then submix (snd m) routes else []) mirrors)" for out
    unfolding ex submix_append cs
    by (induction mirrors) (simp_all add: submix_append submix_copies, simp add: submix_def)
  have "submix target routes = []"
    using not_target assms(2) by (force simp: submix_def filter_empty_conv)
  moreover have "concat (map (\<lambda>m. if fst m = target then submix (snd m) routes else []) mirrors)
      = submix src routes"
    using submix_all_copies [OF dis(1) assms(2), of "\<lambda>m. submix (snd m) routes"] by simp
  moreover have "concat (map (\<lambda>m. if fst m = src then submix (snd m) routes else []) mirrors) = []"
  proof -
    obtain ch where "ch \<in> set src" using nonempty [OF assms(2)] by (cases src) auto
    then have "src \<notin> fst ` set mirrors" using s assms(2) claimed by (auto simp: list_ex_iff)
    then show ?thesis by (auto simp: concat_eq_Nil_conv image_iff)
  qed
  ultimately have "submix target expanded = submix src expanded" by (simp add: sub)
  moreover have "route_volume r = None \<and> route_mirror_of r = src"
    if "r \<in> set expanded" "route_output r = target" for r
  proof -
    have "r \<notin> set routes" using not_target assms(2) that(2) by force
    with that(1) obtain m r0 where m: "m \<in> set mirrors" "r = mirror_copy m r0"
      by (auto simp: ex cs)
    with that(2) have "fst m = target" by simp
    then have "m = (target, src)"
      using eq_key_imp_eq_value [OF dis(1) _ assms(2), of "snd m"] m(1) by (metis prod.collapse)
    with m(2) show ?thesis by simp
  qed
  ultimately show ?thesis by blast
qed

definition mirrored_desk :: "route list" where
  "mirrored_desk = [Route ''main'' [1, 2] \<lparr>route_playback := [1, 2], route_level := Fin (-6)\<rparr>]"

lemma mirrored_submix_equal_witness:
  "\<exists>expanded. expand_mirrors mirrored_desk [([3, 4], [1, 2])] = Ok expanded
     \<and> submix [3, 4] expanded = submix [1, 2] expanded \<and> length (submix [3, 4] expanded) = 1"
proof -
  have ex: "expand_mirrors mirrored_desk [([3, 4], [1, 2])]
      = Ok (mirrored_desk @ [mirror_copy ([3, 4], [1, 2]) (hd mirrored_desk)])"
    by code_simp
  have "submix [3, 4] (mirrored_desk @ [mirror_copy ([3, 4], [1, 2]) (hd mirrored_desk)])
      = submix [1, 2] (mirrored_desk @ [mirror_copy ([3, 4], [1, 2]) (hd mirrored_desk)])"
    using mirrored_submix_equal [OF ex, of "[3, 4]" "[1, 2]"] by simp
  moreover have "length (submix [1, 2] (mirrored_desk @ [mirror_copy ([3, 4], [1, 2]) (hd mirrored_desk)])) = 1"
    by (simp add: submix_def mirrored_desk_def mirror_copy_def Route_def)
  ultimately show ?thesis using ex by metis
qed

end
