(* ===== verification/Base.thy ===== *)
theory Base
  imports Mirrors
begin

text \<open>
  \<^verbatim>\<open>base.py\<close>: whole-state desks. A base writes a silent cell wherever no route of the desk does
  (\<open>base_entries\<close>) and may declare the straight playback diagonal as routes of its own
  (\<open>base_routes\<close>). The theorems say the silence is complete and touches nothing declared, and
  that a base route never takes a cell of the desk nor contradicts a link the desk declares.
\<close>

type_synonym args = "pyval list"
type_synonym message = "string \<times> string \<times> args"

section \<open>Bases\<close>

definition BASES :: "string list" where
  "BASES = [''keep'', ''clear-inputs'', ''clear-submixes'', ''straight-playback'', ''daw'']"

text \<open>Which source matrices a base silences.\<close>

definition silences :: "string \<Rightarrow> string list" where
  "silences base = (case map_of
     [(''keep'', []), (''clear-inputs'', [''input'']), (''clear-submixes'', [''input'', ''playback'']),
      (''straight-playback'', [''playback'']), (''daw'', [''input'', ''playback''])] base of
     None \<Rightarrow> [] | Some kinds \<Rightarrow> kinds)"

definition STRAIGHT :: "string list" where
  "STRAIGHT = [''straight-playback'', ''daw'']"

definition check_base :: "string \<Rightarrow> unit res" where
  "check_base base = check (base \<in> set BASES) ConfigError"

definition store_links :: "link list \<Rightarrow> links \<Rightarrow> links" where
  "store_links ls links = foldl (\<lambda>m l. case l of (kind, channel, linked) \<Rightarrow> dset (kind, channel) linked m) links ls"

definition declared_links :: "route list \<Rightarrow> links res" where
  "declared_links routes = fold_res (\<lambda>r links.
     rbind (link_requirements r) (\<lambda>ls. Ok (store_links ls links))) routes []"

definition odd_channels :: "device \<Rightarrow> string \<Rightarrow> int list" where
  "odd_channels d family = (let channels = channels_for d family in
     filter (\<lambda>ch. ch mod 2 \<noteq> 0 \<and> ch + 1 \<in> set channels) channels)"

section \<open>The silent cells\<close>

text \<open>\<open>(path, tags, args, compared)\<close>.\<close>

type_synonym base_entry = "string \<times> string \<times> args \<times> bool"

text \<open>The channels a pair is written at: one when its link is declared on, else both.\<close>

definition written_channels :: "links \<Rightarrow> string \<Rightarrow> int \<Rightarrow> int list" where
  "written_channels links kind left =
     (if dget links (kind, left) = Some True then [left] else [left, left + 1])"

definition block_entries :: "links \<Rightarrow> string list \<Rightarrow> int \<Rightarrow> string \<Rightarrow> int \<Rightarrow> base_entry list" where
  "block_entries links declared out kind src =
     concat (map (\<lambda>target. concat (map (\<lambda>channel.
       let path = mix_path target kind channel in
       if path \<notin> set declared
       then [(path, ''fi'', [VFloat (Fin LEVEL_MIN), VInt 0],
              (target = out \<or> dget links (''output'', out) \<noteq> None)
              \<and> (channel = src \<or> dget links (kind, src) \<noteq> None))]
       else []) (written_channels links kind src))) (written_channels links ''output'' out))"

definition base_entries :: "string \<Rightarrow> route list \<Rightarrow> string list \<Rightarrow> device \<Rightarrow> base_entry list res" where
  "base_entries base routes declared d =
     rbind (check_base base) (\<lambda>_. rbind (declared_links routes) (\<lambda>links. Ok
       (concat (map (\<lambda>out. concat (map (\<lambda>kind. concat (map (\<lambda>src.
          block_entries links declared out kind src)
            (odd_channels d kind))) (silences base))) (odd_channels d ''output'')))))"

section \<open>The routes of a base\<close>

text \<open>Whether a link of the pair would merge settings the desk keeps apart.\<close>

definition option_values :: "channel_setting list \<Rightarrow> string \<Rightarrow> int \<Rightarrow> (string, pyval) dict" where
  "option_values settings family channel = dupdate [] (map (\<lambda>s. (cs_option s, cs_value s))
     (filter (\<lambda>s. cs_family s = family \<and> cs_channel s = channel) settings))"

definition opt_eq :: "pyval option \<Rightarrow> pyval option \<Rightarrow> bool" where
  "opt_eq a b = (case (a, b) of (None, None) \<Rightarrow> True | (Some x, Some y) \<Rightarrow> py_eq x y | _ \<Rightarrow> False)"

definition merged :: "channel_setting list \<Rightarrow> string \<Rightarrow> int \<Rightarrow> string list" where
  "merged settings family left =
     (let odd_values = option_values settings family left;
          even_values = option_values settings family (left + 1)
      in sorted_set (filter (\<lambda>opt. \<not> opt_eq (dget odd_values opt) (dget even_values opt))
           (dkeys odd_values @ dkeys even_values)))"

definition base_route :: "string \<Rightarrow> int list \<Rightarrow> bool \<Rightarrow> route" where
  "base_route name channels linked = Route name channels
     \<lparr>route_playback := channels, route_stereo := linked, route_base := True\<rparr>"

definition cells_of :: "route \<Rightarrow> (int \<times> int) list" where
  "cells_of r = concat (map (\<lambda>out. map (\<lambda>pb. (out, pb)) (route_playback r)) (route_output r))"

definition pair_name :: "int \<Rightarrow> string" where
  "pair_name left = ''[desk] base '' @ show_int left @ CHR ''/'' # show_int (left + 1)"

definition mono_name :: "int \<Rightarrow> string" where
  "mono_name ch = ''[desk] base '' @ show_int ch"

definition diagonal :: "int \<Rightarrow> bool option \<Rightarrow> bool option \<Rightarrow> (int \<times> int) list \<Rightarrow> route list res" where
  "diagonal left playback output taken =
     (let pair = [left, left + 1] in
      if playback = Some False \<and> output = Some True then Raise ConfigError
      else if playback = Some False then
        Ok (map (\<lambda>ch. base_route (mono_name ch) [ch] True)
              (filter (\<lambda>ch. (ch, ch) \<notin> set taken) pair))
      else if list_ex (\<lambda>(out, pb). out \<in> set pair \<and> pb \<in> set pair) taken then Ok []
      else Ok [base_route (pair_name left) pair (output \<noteq> Some False)])"

definition check_base_mirrors :: "int \<Rightarrow> route list \<Rightarrow> int list \<Rightarrow> int list \<Rightarrow> int list \<Rightarrow> unit res" where
  "check_base_mirrors left routes mirrored alone paired =
     (if routes = [] then Ok ()
      else let shapes = map (\<lambda>r. length (route_output r)) routes;
               either = (\<lambda>chs. left \<in> set chs \<or> left + 1 \<in> set chs)
        in check (\<not> (either mirrored \<or> (2 \<in> set shapes \<and> either alone)
                     \<or> (1 \<in> set shapes \<and> left \<in> set paired))) ConfigError)"

definition mirror_target :: "mirror \<Rightarrow> (int, int) dict \<Rightarrow> (int, int) dict res" where
  "mirror_target m targets = (case m of
       (target, [s, _]) \<Rightarrow> (case target of [] \<Rightarrow> Raise IndexError | t # _ \<Rightarrow> Ok (dset s t targets))
     | _ \<Rightarrow> Ok targets)"

definition source_heads :: "nat \<Rightarrow> mirror list \<Rightarrow> int list" where
  "source_heads n mirrors = map (\<lambda>(_, src). hd src) (filter (\<lambda>(_, src). length src = n) mirrors)"

text \<open>The pairs a diagonal would link that the desk does not name.\<close>

definition owned_links :: "links \<Rightarrow> route list \<Rightarrow> (string \<times> int) list res" where
  "owned_links links routes = rbind (map_res link_requirements routes) (\<lambda>lss. Ok
     (map (\<lambda>(kind, channel, _). (kind, channel))
       (filter (\<lambda>(kind, channel, linked). linked \<and> dget links (kind, channel) = None) (concat lss))))"

definition base_pair ::
    "links \<Rightarrow> channel_setting list \<Rightarrow> mirror list \<Rightarrow> (int, int) dict \<Rightarrow> (int \<times> int) list
       \<Rightarrow> int list \<Rightarrow> int \<Rightarrow> route list \<Rightarrow> route list res" where
  "base_pair links settings mirrors targets taken playback left added =
     (let mirrored = concat (map fst mirrors) in
      if left \<notin> set playback \<or> (left \<in> set mirrored \<and> left + 1 \<in> set mirrored) then Ok added
      else rbind (diagonal left (dget links (''playback'', left)) (dget links (''output'', left)) taken) (\<lambda>diag.
        rbind (check_base_mirrors left diag mirrored (source_heads 1 mirrors) (source_heads 2 mirrors)) (\<lambda>_.
        rbind (owned_links links diag) (\<lambda>owned.
          let owned' = owned @ (if (''output'', left) \<in> set owned
                then (case dget targets left of None \<Rightarrow> [] | Some t \<Rightarrow> [(''output'', t)]) else [])
          in rbind (check (list_all (\<lambda>(family, channel). merged settings family channel = []) owned')
                ConfigError) (\<lambda>_. Ok (added @ diag))))))"

definition base_routes ::
    "string \<Rightarrow> route list \<Rightarrow> channel_setting list \<Rightarrow> mirror list \<Rightarrow> device \<Rightarrow> route list res" where
  "base_routes base routes settings mirrors d =
     rbind (check_base base) (\<lambda>_.
     if base \<notin> set STRAIGHT then Ok []
     else rbind (declared_links routes) (\<lambda>links.
       rbind (fold_res mirror_target mirrors []) (\<lambda>targets.
         fold_res (base_pair links settings mirrors targets (concat (map cells_of routes))
             (odd_channels d ''playback''))
           (odd_channels d ''output'') [])))"

section \<open>Facts\<close>

lemma set_cells_of: "(out, pb) \<in> set (cells_of r) \<longleftrightarrow> out \<in> set (route_output r) \<and> pb \<in> set (route_playback r)"
  by (auto simp: cells_of_def)

lemma set_odd_channels:
  "left \<in> set (odd_channels d family) \<longleftrightarrow>
     left \<in> set (channels_for d family) \<and> left + 1 \<in> set (channels_for d family) \<and> left mod 2 = 1"
  by (auto simp: odd_channels_def Let_def)

lemma set_block_entries:
  "e \<in> set (block_entries links declared out kind src) \<longleftrightarrow>
     (\<exists>target\<in>set (written_channels links ''output'' out). \<exists>channel\<in>set (written_channels links kind src).
        mix_path target kind channel \<notin> set declared
        \<and> e = (mix_path target kind channel, ''fi'', [VFloat (Fin LEVEL_MIN), VInt 0],
            (target = out \<or> dget links (''output'', out) \<noteq> None)
            \<and> (channel = src \<or> dget links (kind, src) \<noteq> None)))"
  by (auto simp: block_entries_def Let_def split: if_splits)

lemma set_base_entries:
  assumes "base_entries base routes declared d = Ok es" and "declared_links routes = Ok links"
  shows "e \<in> set es \<longleftrightarrow> (\<exists>out\<in>set (odd_channels d ''output''). \<exists>kind\<in>set (silences base).
     \<exists>src\<in>set (odd_channels d kind). e \<in> set (block_entries links declared out kind src))"
proof -
  from assms have "es = concat (map (\<lambda>out. concat (map (\<lambda>kind. concat (map (\<lambda>src.
      block_entries links declared out kind src) (odd_channels d kind))) (silences base)))
      (odd_channels d ''output''))"
    by (auto simp: base_entries_def rbind_Ok_iff)
  then show ?thesis by (simp only: set_concat set_map UN_iff image_iff bex_simps)
qed

lemma silences_kinds: "kind \<in> set (silences base) \<Longrightarrow> kind = ''input'' \<or> kind = ''playback''"
  by (auto simp: silences_def split: if_splits option.splits)

text \<open>A route of a base: which links it needs, and that it keeps off the desk's cells.\<close>

lemma base_route_sel [simp]:
  "route_output (base_route name chs linked) = chs" "route_playback (base_route name chs linked) = chs"
  "route_stereo (base_route name chs linked) = linked" "route_base (base_route name chs linked)"
  "source (base_route name chs linked) = (''playback'', chs)"
  by (simp_all add: base_route_def Route_def source_def)

lemma link_requirements_base_route:
  "link_requirements (base_route name (ch # chs) linked) = Ok
     [(''playback'', odd_of ch, length (ch # chs) = 2),
      (''output'', odd_of ch, length (ch # chs) = 2 \<and> linked)]"
  by (simp add: link_requirements_def)

definition keeps_links :: "links \<Rightarrow> route \<Rightarrow> bool" where
  "keeps_links links r = (case link_requirements r of Inl _ \<Rightarrow> False | Inr ls \<Rightarrow>
     list_all (\<lambda>(kind, channel, linked). dget links (kind, channel) \<in> {None, Some linked}) ls)"

lemma diagonal_good:
  assumes "diagonal left (dget links (''playback'', left)) (dget links (''output'', left)) taken = Ok rs"
    and "r \<in> set rs" and odd: "left mod 2 = 1"
  shows "route_base r \<and> set (cells_of r) \<inter> set taken = {} \<and> keeps_links links r
    \<and> set (route_output r) \<subseteq> {left, left + 1} \<and> route_output r = route_playback r"
proof -
  note left [simp] = odd_of_id [OF odd]
  show ?thesis
  proof (cases "dget links (''playback'', left) = Some False")
    case True
    have out: "dget links (''output'', left) \<noteq> Some True"
      using assms(1) True unfolding diagonal_def Let_def by (auto simp del: filter.simps list.map)
    then have rs: "rs = map (\<lambda>ch. base_route (mono_name ch) [ch] True)
              (filter (\<lambda>ch. (ch, ch) \<notin> set taken) [left, left + 1])"
      using assms(1) True unfolding diagonal_def Let_def by (simp del: filter.simps list.map)
    from assms(2) have "r \<in> (\<lambda>ch. base_route (mono_name ch) [ch] True)
        ` set (filter (\<lambda>ch. (ch, ch) \<notin> set taken) [left, left + 1])"
      unfolding rs set_map .
    then obtain ch where "ch \<in> set (filter (\<lambda>ch. (ch, ch) \<notin> set taken) [left, left + 1])"
      and r: "r = base_route (mono_name ch) [ch] True" by (rule imageE)
    then have ch: "ch = left \<or> ch = left + 1" "(ch, ch) \<notin> set taken"
      unfolding set_filter by simp_all
    have "keeps_links links r"
      using True out ch(1) unfolding r keeps_links_def link_requirements_base_route
      by (cases "dget links (''output'', left)") auto
    moreover have "set (cells_of r) \<inter> set taken = {}" using ch(2) by (simp add: r cells_of_def)
    ultimately show ?thesis using ch(1) by (auto simp: r)
  next
    case False
    have eq: "(if list_ex (\<lambda>(out, pb). out \<in> set [left, left + 1] \<and> pb \<in> set [left, left + 1]) taken
        then [] else [base_route (pair_name left) [left, left + 1] (dget links (''output'', left) \<noteq> Some False)]) = rs"
      using assms(1) unfolding diagonal_def Let_def
      by (simp only: False simp_thms if_False sum.inject if_distrib [of Ok, symmetric])
    have free: "\<not> list_ex (\<lambda>(out, pb). out \<in> {left, left + 1} \<and> pb \<in> {left, left + 1}) taken"
      and r: "r = base_route (pair_name left) [left, left + 1] (dget links (''output'', left) \<noteq> Some False)"
      using assms(2) unfolding eq [symmetric] by (simp_all split: if_splits)
    have "c \<notin> set taken" if "c \<in> set (cells_of r)" for c
    proof -
      obtain out pb where c: "c = (out, pb)" by (cases c)
      with that have "out \<in> {left, left + 1} \<and> pb \<in> {left, left + 1}"
        unfolding r c set_cells_of by simp
      with free c show ?thesis unfolding list_ex_iff by blast
    qed
    then have "set (cells_of r) \<inter> set taken = {}" by blast
    moreover have "keeps_links links r"
      using False unfolding r keeps_links_def link_requirements_base_route
      by (cases "dget links (''output'', left)"; cases "dget links (''playback'', left)") simp_all
    ultimately show ?thesis unfolding r by simp
  qed
qed

lemma base_pair_good:
  assumes "base_pair links settings mirrors targets taken playback left added = Ok added'"
    and "left mod 2 = 1"
    and "\<forall>r\<in>set added. route_base r \<and> set (cells_of r) \<inter> set taken = {} \<and> keeps_links links r"
  shows "\<forall>r\<in>set added'. route_base r \<and> set (cells_of r) \<inter> set taken = {} \<and> keeps_links links r"
proof -
  consider "added' = added" | diag where "added' = added @ diag"
    "diagonal left (dget links (''playback'', left)) (dget links (''output'', left)) taken = Ok diag"
    using assms(1) unfolding base_pair_def Let_def rbind_Ok_iff
    by (simp only: rbind_Ok_iff split: if_splits) (simp, blast)
  then show ?thesis
  proof cases
    case 2
    then show ?thesis using assms(2,3) diagonal_good by (metis Un_iff set_append)
  qed (use assms(3) in simp)
qed

text \<open>The silent cells are distinct registers.\<close>

lemma distinct_concat_map:
  assumes "distinct xs" and "\<And>x. x \<in> set xs \<Longrightarrow> distinct (f x)"
    and "\<And>x y z. x \<in> set xs \<Longrightarrow> y \<in> set xs \<Longrightarrow> z \<in> set (f x) \<Longrightarrow> z \<in> set (f y) \<Longrightarrow> x = y"
  shows "distinct (concat (map f xs))"
  using assms
proof (induction xs)
  case (Cons x xs)
  have "set (f x) \<inter> set (concat (map f xs)) = {}"
  proof (rule ccontr)
    assume "set (f x) \<inter> set (concat (map f xs)) \<noteq> {}"
    then obtain z y where "z \<in> set (f x)" "y \<in> set xs" "z \<in> set (f y)" by auto
    with Cons.prems(3) [of x y z] Cons.prems(1) show False by auto
  qed
  moreover have "distinct (concat (map f xs))"
    by (rule Cons.IH) (use Cons.prems in \<open>auto intro: Cons.prems(3)\<close>)
  ultimately show ?case using Cons.prems(2) [of x] by simp
qed simp

definition block_cells :: "links \<Rightarrow> string list \<Rightarrow> int \<Rightarrow> string \<Rightarrow> int \<Rightarrow> (int \<times> string \<times> int) list" where
  "block_cells links declared out kind src =
     concat (map (\<lambda>t. map (\<lambda>ch. (t, kind, ch)) (filter (\<lambda>ch. mix_path t kind ch \<notin> set declared)
        (written_channels links kind src))) (written_channels links ''output'' out))"

fun cell_path :: "int \<times> string \<times> int \<Rightarrow> string" where
  "cell_path (t, k, ch) = mix_path t k ch"

lemma block_paths: "map fst (block_entries links declared out kind src) = map cell_path (block_cells links declared out kind src)"
proof -
  have "map fst (concat (map (\<lambda>ch. if mix_path t kind ch \<notin> set declared
            then [(mix_path t kind ch, tags, args, f ch)] else []) chs))
      = map cell_path (map (\<lambda>ch. (t, kind, ch)) (filter (\<lambda>ch. mix_path t kind ch \<notin> set declared) chs))"
    for t chs and tags :: string and args :: args and f :: "int \<Rightarrow> bool"
    by (induction chs) auto
  then show ?thesis
    unfolding block_entries_def block_cells_def Let_def map_concat map_map o_def by simp
qed

lemma set_written_channels: "ch \<in> set (written_channels links kind left) \<Longrightarrow> left mod 2 = 1 \<Longrightarrow> odd_of ch = left"
  using odd_of_id [of left] by (auto simp: written_channels_def split: if_splits)

lemma distinct_block_cells: "distinct (block_cells links declared out kind src)"
proof -
  have "distinct (written_channels links k l)" for k l by (simp add: written_channels_def)
  then show ?thesis unfolding block_cells_def
    by (intro distinct_concat_map) (auto simp: distinct_map inj_on_def)
qed

lemma in_block_cells:
  assumes "(t, k, ch) \<in> set (block_cells links declared out kind src)" "out mod 2 = 1" "src mod 2 = 1"
  shows "k = kind \<and> odd_of t = out \<and> odd_of ch = src"
  using assms by (auto simp: block_cells_def dest: set_written_channels)

lemma distinct_silences: "distinct (silences base)"
  by (auto simp: silences_def split: option.splits if_splits)

lemma base_entries_distinct:
  assumes es: "base_entries base routes declared d = Ok es"
    and dis: "\<And>k. distinct (channels_for d k)"
  shows "distinct (map fst es)"
proof -
  obtain links where links: "declared_links routes = Ok links"
    using es by (auto simp: base_entries_def res_simps)
  define cells where "cells = concat (map (\<lambda>out. concat (map (\<lambda>kind. concat (map (\<lambda>src.
      block_cells links declared out kind src) (odd_channels d kind))) (silences base)))
      (odd_channels d ''output''))"
  have paths: "map fst es = map cell_path cells"
    using es links unfolding base_entries_def cells_def
    by (auto simp: rbind_Ok_iff map_concat o_def block_paths)
  have odd: "distinct (odd_channels d k)" for k using dis by (simp add: odd_channels_def Let_def)
  have "distinct cells" unfolding cells_def
  proof (intro distinct_concat_map odd distinct_silences distinct_block_cells)
    show "x = y" if "x \<in> set (odd_channels d kind)" "y \<in> set (odd_channels d kind)"
      "z \<in> set (block_cells links declared out kind x)" "z \<in> set (block_cells links declared out kind y)"
      "out \<in> set (odd_channels d ''output'')" for x y z out kind
      using that in_block_cells by (cases z) (metis set_odd_channels)
    show "x = y" if "x \<in> set (silences base)" "y \<in> set (silences base)"
      "z \<in> set (concat (map (block_cells links declared out x) (odd_channels d x)))"
      "z \<in> set (concat (map (block_cells links declared out y) (odd_channels d y)))"
      "out \<in> set (odd_channels d ''output'')" for x y z out
      using that by (cases z) (auto simp: set_odd_channels dest!: in_block_cells)
    show "x = y" if "x \<in> set (odd_channels d ''output'')" "y \<in> set (odd_channels d ''output'')"
      "z \<in> set (concat (map (\<lambda>kind. concat (map (block_cells links declared x kind) (odd_channels d kind))) (silences base)))"
      "z \<in> set (concat (map (\<lambda>kind. concat (map (block_cells links declared y kind) (odd_channels d kind))) (silences base)))"
      for x y z
      using that by (cases z) (auto simp: set_odd_channels dest!: in_block_cells)
  qed
  moreover have "inj_on cell_path (set cells)"
  proof (rule inj_onI)
    fix a b assume ab: "a \<in> set cells" "b \<in> set cells" "cell_path a = cell_path b"
    have kind: "fst (snd x) \<in> set (silences base)" if "x \<in> set cells" for x
      using that by (auto simp: cells_def block_cells_def)
    obtain t k ch t' k' ch' where e: "a = (t, k, ch)" "b = (t', k', ch')" by (cases a; cases b) auto
    have "CHR ''/'' \<notin> set k" "CHR ''/'' \<notin> set k'"
      using silences_kinds [OF kind [OF ab(1)]] silences_kinds [OF kind [OF ab(2)]] e by auto
    with ab(3) show "a = b" unfolding e cell_path.simps prod.inject using mix_path_inject by blast
  qed
  ultimately show ?thesis unfolding paths by (simp add: distinct_map)
qed

section \<open>Properties\<close>

text \<open>
  C8. A base's silence is complete and never overwrites: every matrix cell of a silenced kind, at
  any output and source channel of the device's pairs, is either a declared register or gets the
  explicit zero (-65 dB, balance 0) at the register its pair links fold it onto; and every cell
  written is undeclared, silent, and of a silenced kind.
\<close>

theorem base_silences_the_rest:
  assumes "base_entries base routes declared d = Ok es" and "declared_links routes = Ok links"
    and "kind \<in> set (silences base)"
    and "out \<in> set (odd_channels d ''output'')" and "src \<in> set (odd_channels d kind)"
    and "target = out \<or> target = out + 1" and "channel = src \<or> channel = src + 1"
    and "reg = mix_path (if dget links (''output'', out) = Some True then out else target) kind
                        (if dget links (kind, src) = Some True then src else channel)"
  shows "(reg \<in> set declared \<or> (\<exists>compared. (reg, ''fi'', [VFloat (Fin (- 65)), VInt 0], compared) \<in> set es))
    \<and> (\<forall>(path, tags, args, _)\<in>set es. path \<notin> set declared \<and> tags = ''fi''
         \<and> args = [VFloat (Fin (- 65)), VInt 0]
         \<and> (\<exists>t k ch. k \<in> set (silences base) \<and> path = mix_path t k ch))"
proof -
  note es = set_base_entries [OF assms(1,2)]
  have "\<exists>compared. (reg, ''fi'', [VFloat (Fin (- 65)), VInt 0], compared) \<in> set es"
    if "reg \<notin> set declared"
  proof -
    have "\<exists>compared. (reg, ''fi'', [VFloat (Fin LEVEL_MIN), VInt 0], compared)
        \<in> set (block_entries links declared out kind src)"
    proof -
      let ?t = "if dget links (''output'', out) = Some True then out else target"
        and ?c = "if dget links (kind, src) = Some True then src else channel"
      have "?t \<in> set (written_channels links ''output'' out)" "?c \<in> set (written_channels links kind src)"
        using assms(6,7) by (simp_all add: written_channels_def)
      with that show ?thesis unfolding assms(8) set_block_entries by blast
    qed
    then show ?thesis using es assms(3-5) by (auto simp: LEVEL_MIN_def)
  qed
  moreover have "\<forall>(path, tags, args, _)\<in>set es. path \<notin> set declared \<and> tags = ''fi''
         \<and> args = [VFloat (Fin (- 65)), VInt 0]
         \<and> (\<exists>t k ch. k \<in> set (silences base) \<and> path = mix_path t k ch)"
  proof (clarify)
    fix path tags args compared
    assume "(path, tags, args, compared) \<in> set es"
    then obtain out' kind' src' where k: "kind' \<in> set (silences base)"
      "(path, tags, args, compared) \<in> set (block_entries links declared out' kind' src')"
      using es by blast
    then show "path \<notin> set declared \<and> tags = ''fi'' \<and> args = [VFloat (Fin (- 65)), VInt 0]
         \<and> (\<exists>t k ch. k \<in> set (silences base) \<and> path = mix_path t k ch)"
      by (auto simp: set_block_entries LEVEL_MIN_def)
  qed
  ultimately show ?thesis by blast
qed

lemma base_silences_the_rest_witness:
  "(mix_path 2 ''input'' 3 \<in> {} \<or> (\<exists>es compared. base_entries ''clear-inputs'' [] [] UCX2 = Ok es
     \<and> (mix_path 2 ''input'' 3, ''fi'', [VFloat (Fin (- 65)), VInt 0], compared) \<in> set es))"
proof -
  obtain es where es: "base_entries ''clear-inputs'' [] [] UCX2 = Ok es"
    by (simp add: base_entries_def check_base_def BASES_def declared_links_def)
  have links: "declared_links [] = Ok []" by (simp add: declared_links_def)
  have odd: "1 \<in> set (odd_channels UCX2 ''output'')" "3 \<in> set (odd_channels UCX2 ''input'')"
    by (simp_all add: set_odd_channels)
  have "''input'' \<in> set (silences ''clear-inputs'')" by (simp add: silences_def)
  from base_silences_the_rest [OF es links this odd, of 2 3 "mix_path 2 ''input'' 3"] show ?thesis
    using es by auto
qed

text \<open>
  C9. The straight diagonal of a base gives way to the desk: every route \<open>base_routes\<close> adds is
  marked as the base's, addresses no cell a declared route addresses, and needs no pair flag
  other than the one the desk declares for that pair.
\<close>

theorem base_routes_give_way:
  assumes "base_routes base routes settings mirrors d = Ok added" and "r \<in> set added"
    and "declared_links routes = Ok links"
  shows "route_base r
    \<and> (\<forall>q\<in>set routes. \<forall>out\<in>set (route_output r). \<forall>pb\<in>set (route_playback r).
         \<not> (out \<in> set (route_output q) \<and> pb \<in> set (route_playback q)))
    \<and> (\<exists>ls. link_requirements r = Ok ls \<and> (\<forall>(kind, channel, linked)\<in>set ls.
         \<forall>declared. dget links (kind, channel) = Some declared \<longrightarrow> declared = linked))"
proof -
  let ?taken = "concat (map cells_of routes)"
  have good: "\<forall>r\<in>set added. route_base r \<and> set (cells_of r) \<inter> set ?taken = {} \<and> keeps_links links r"
  proof (cases "base \<in> set STRAIGHT")
    case False
    with assms(1) show ?thesis by (auto simp: base_routes_def res_simps)
  next
    case True
    with assms(1,3) obtain targets where
      f: "fold_res (base_pair links settings mirrors targets ?taken (odd_channels d ''playback''))
         (odd_channels d ''output'') [] = Ok added"
      by (auto simp: base_routes_def res_simps)
    show ?thesis
    proof (rule fold_res_invariant [OF f])
      fix left s t
      assume left: "left \<in> set (odd_channels d ''output'')"
        and s: "\<forall>r\<in>set s. route_base r \<and> set (cells_of r) \<inter> set ?taken = {} \<and> keeps_links links r"
        and t: "base_pair links settings mirrors targets ?taken (odd_channels d ''playback'') left s = Ok t"
      have "left mod 2 = 1" using left by (simp only: set_odd_channels)
      from base_pair_good [OF t this s]
      show "\<forall>r\<in>set t. route_base r \<and> set (cells_of r) \<inter> set ?taken = {} \<and> keeps_links links r" .
    qed simp
  qed
  with assms(2) have g: "route_base r" "set (cells_of r) \<inter> set ?taken = {}" "keeps_links links r"
    by auto
  have "\<exists>ls. link_requirements r = Ok ls \<and> (\<forall>(kind, channel, linked)\<in>set ls.
         \<forall>declared. dget links (kind, channel) = Some declared \<longrightarrow> declared = linked)"
    using g(3) by (force simp: keeps_links_def list_all_iff split: sum.splits)
  moreover have "\<not> (out \<in> set (route_output q) \<and> pb \<in> set (route_playback q))"
    if "q \<in> set routes" "out \<in> set (route_output r)" "pb \<in> set (route_playback r)" for q out pb
  proof
    assume q: "out \<in> set (route_output q) \<and> pb \<in> set (route_playback q)"
    then have "(out, pb) \<in> set (cells_of q)" by (simp add: set_cells_of)
    then have "(out, pb) \<in> set ?taken" using that(1) by auto
    moreover have "(out, pb) \<in> set (cells_of r)" using that(2,3) by (simp add: set_cells_of)
    ultimately show False using g(2) by blast
  qed
  ultimately show ?thesis using g(1) by blast
qed

text \<open>One stereo pair, whose straight route a base adds beneath an input route of the desk.\<close>

definition pair_device :: device where
  "pair_device = FF802 \<lparr>dev_channels := [(''output'', [1, 2]), (''playback'', [1, 2])]\<rparr>"

definition monitor_route :: route where
  "monitor_route = Route ''monitor'' [1, 2] \<lparr>route_input := [1, 2]\<rparr>"

lemma base_routes_give_way_witness:
  "base_routes ''daw'' [monitor_route] [] [] pair_device = Ok [base_route (pair_name 1) [1, 2] True]
   \<and> route_base (base_route (pair_name 1) [1, 2] True)"
proof -
  have "base_routes ''daw'' [monitor_route] [] [] pair_device = Ok [base_route (pair_name 1) [1, 2] True]"
    by code_simp
  moreover have "is_ok (declared_links [monitor_route])" by code_simp
  then obtain links where "declared_links [monitor_route] = Ok links" by (auto simp: is_ok_iff)
  ultimately show ?thesis using base_routes_give_way by (metis list.set_intros(1))
qed

end
