(* ===== verification/Effects.thy ===== *)
theory Effects
  imports Prelude
begin

text \<open>
  Operations with effects: an action maps a world to a result and the world it leaves, whether it
  returns or raises. The combinators are Python's sequencing, \<open>for\<close> and \<open>try ... except OSError\<close>,
  and \<open>try ... finally\<close>-like clean-up is written with them. The interface \<open>action_frame\<close> says what
  it takes for a relation between the worlds before and after to hold of every composed action;
  the components instantiate it with their own relations.
\<close>

named_theorems run_simps \<open>running the combinators in a world\<close>

type_synonym ('w, 'a) action = "'w \<Rightarrow> 'a res \<times> 'w"

definition give :: "'a \<Rightarrow> ('w, 'a) action" where
  "give x w = (Ok x, w)"

definition fail :: "exc \<Rightarrow> ('w, 'a) action" where
  "fail e w = (Raise e, w)"

text \<open>A pure computation that may raise, a field read, and a change of the world.\<close>

definition lift :: "'a res \<Rightarrow> ('w, 'a) action" where
  "lift r w = (r, w)"

definition look :: "('w \<Rightarrow> 'a) \<Rightarrow> ('w, 'a) action" where
  "look f w = (Ok (f w), w)"

definition change :: "('w \<Rightarrow> 'w) \<Rightarrow> ('w, unit) action" where
  "change f w = (Ok (), f w)"

definition bind :: "('w, 'a) action \<Rightarrow> ('a \<Rightarrow> ('w, 'b) action) \<Rightarrow> ('w, 'b) action" where
  "bind m f w = (case m w of (Inl e, w') \<Rightarrow> (Inl e, w') | (Inr x, w') \<Rightarrow> f x w')"

definition andthen :: "('w, 'a) action \<Rightarrow> ('w, 'b) action \<Rightarrow> ('w, 'b) action" where
  "andthen m n = bind m (\<lambda>_. n)"

text \<open>\<open>try: m; except E as exc: h(exc)\<close>, where \<open>p\<close> says which exceptions the clause catches.\<close>

definition attempt :: "(exc \<Rightarrow> bool) \<Rightarrow> ('w, 'a) action \<Rightarrow> (exc \<Rightarrow> ('w, 'a) action) \<Rightarrow> ('w, 'a) action" where
  "attempt p m h w = (case m w of (Inl e, w') \<Rightarrow> if p e then h e w' else (Inl e, w') | (Inr x, w') \<Rightarrow> (Inr x, w'))"

fun each :: "('a \<Rightarrow> ('w, unit) action) \<Rightarrow> 'a list \<Rightarrow> ('w, unit) action" where
  "each f [] = give ()"
| "each f (x # xs) = bind (f x) (\<lambda>_. each f xs)"

lemma give_run [run_simps]: "give x w = (Ok x, w)" by (simp add: give_def)
lemma fail_run [run_simps]: "fail e w = (Raise e, w)" by (simp add: fail_def)
lemma lift_run [run_simps]: "lift r w = (r, w)" by (simp add: lift_def)
lemma look_run [run_simps]: "look f w = (Ok (f w), w)" by (simp add: look_def)
lemma change_run [run_simps]: "change f w = (Ok (), f w)" by (simp add: change_def)

lemma bind_Ok: "m w = (Ok x, w') \<Longrightarrow> bind m f w = f x w'"
  by (simp add: bind_def)

lemma bind_Raise: "m w = (Raise e, w') \<Longrightarrow> bind m f w = (Raise e, w')"
  by (simp add: bind_def)

lemma bind_give [run_simps]: "bind (give x) f = f x" by (simp add: bind_def give_def fun_eq_iff)
lemma bind_look [run_simps]: "bind (look g) f w = f (g w) w" by (simp add: bind_def look_def)
lemma bind_change [run_simps]: "bind (change g) f w = f () (g w)" by (simp add: bind_def change_def)
lemma bind_fail [run_simps]: "bind (fail e) f = fail e" by (simp add: bind_def fail_def fun_eq_iff)
lemma bind_lift [run_simps]: "bind (lift (Inr x)) f = f x" "bind (lift (Inl e)) f = fail e"
  by (simp_all add: bind_def lift_def fail_def fun_eq_iff)

lemma bind_cases:
  assumes "bind m f w = (r, w')"
  obtains (raised) e where "m w = (Raise e, w')" "r = Raise e"
    | (went_on) x v where "m w = (Ok x, v)" "f x v = (r, w')"
proof (cases "m w")
  case (Pair mr v)
  with assms raised went_on show thesis by (cases mr) (auto simp: bind_def)
qed

lemma bind_returned:
  assumes "bind m f w = (Ok y, w')"
  obtains x v where "m w = (Ok x, v)" "f x v = (Ok y, w')"
  using assms by (elim bind_cases) auto

lemma bind_cong [fundef_cong]:
  "m w = m' w \<Longrightarrow> w = w' \<Longrightarrow> (\<And>x v. m' w' = (Ok x, v) \<Longrightarrow> f x v = g x v) \<Longrightarrow> bind m f w = bind m' g w'"
  by (auto simp: bind_def split: prod.splits sum.splits)

lemma bind_assoc: "bind (bind m f) g = bind m (\<lambda>x. bind (f x) g)"
  by (auto simp: bind_def fun_eq_iff split: prod.splits sum.splits)

lemma attempt_cases:
  assumes "attempt p m h w = (r, w')"
  obtains (through) "m w = (r, w')" "\<And>e. r = Raise e \<Longrightarrow> \<not> p e"
    | (caught) e v where "m w = (Raise e, v)" "p e" "h e v = (r, w')"
proof (cases "m w")
  case (Pair mr v)
  show thesis
  proof (cases mr)
    case (Inl e)
    with Pair assms through caught show thesis by (cases "p e") (auto simp: attempt_def)
  qed (use Pair assms through in \<open>auto simp: attempt_def\<close>)
qed

text \<open>
  Clean-up that runs on every way out of \<open>m\<close>: \<open>try: m; except BaseException: h; raise\<close>, with \<open>h\<close>
  itself not allowed to raise.
\<close>

definition on_error :: "('w, 'a) action \<Rightarrow> ('w, unit) action \<Rightarrow> ('w, 'a) action" where
  "on_error m h w = (case m w of (Inl e, w') \<Rightarrow> (case h w' of (Inl e', w'') \<Rightarrow> (Inl e', w'') | (Inr _, w'') \<Rightarrow> (Inl e, w''))
     | (Inr x, w') \<Rightarrow> (Inr x, w'))"

section \<open>Relations every composed action keeps\<close>

definition keeps :: "('w \<Rightarrow> 'w \<Rightarrow> bool) \<Rightarrow> ('w, 'a) action \<Rightarrow> bool" where
  "keeps R m = (\<forall>w. R w (snd (m w)))"

lemma keepsI: "(\<And>w r w'. m w = (r, w') \<Longrightarrow> R w w') \<Longrightarrow> keeps R m"
  unfolding keeps_def by (metis prod.collapse)

lemma keepsD: "keeps R m \<Longrightarrow> m w = (r, w') \<Longrightarrow> R w w'"
  by (metis keeps_def snd_conv)

lemma keeps_run: "keeps R m \<Longrightarrow> R w (snd (m w))"
  by (simp add: keeps_def)

lemma keeps_change: "(\<And>w. R w (f w)) \<Longrightarrow> keeps R (change f)"
  by (simp add: keeps_def change_def)

locale action_frame =
  fixes R :: "'w \<Rightarrow> 'w \<Rightarrow> bool"
  assumes same: "R w w"
    and step: "R u v \<Longrightarrow> R v w \<Longrightarrow> R u w"
begin

lemma keeps_pure [intro, simp]:
  "keeps R (give x)" "keeps R (fail e)" "keeps R (lift r)" "keeps R (look f)"
  by (simp_all add: keeps_def give_def fail_def lift_def look_def same)

text \<open>Pointwise, for the induction over a loop.\<close>

lemma bind_at:
  assumes "R w (snd (m w))" and "\<And>x v. m w = (Ok x, v) \<Longrightarrow> R v (snd (f x v))"
  shows "R w (snd (bind m f w))"
proof (cases "m w")
  case (Pair r v)
  with assms show ?thesis by (cases r) (auto simp: bind_def intro: step)
qed

lemma keeps_bind [intro]:
  assumes "keeps R m" and "\<And>x. keeps R (f x)"
  shows "keeps R (bind m f)"
proof (rule keepsI)
  fix w r w' assume "bind m f w = (r, w')"
  then show "R w w'"
    by (cases rule: bind_cases) (auto intro: step keepsD [OF assms(1)] keepsD [OF assms(2)])
qed

lemma keeps_andthen: "keeps R m \<Longrightarrow> keeps R n \<Longrightarrow> keeps R (andthen m n)"
  by (auto simp: andthen_def)

lemma keeps_attempt [intro]:
  assumes "keeps R m" and "\<And>e. keeps R (h e)"
  shows "keeps R (attempt p m h)"
proof (rule keepsI)
  fix w r w' assume "attempt p m h w = (r, w')"
  then show "R w w'"
    by (cases rule: attempt_cases) (auto intro: step keepsD [OF assms(1)] keepsD [OF assms(2)])
qed

lemma keeps_each [intro]:
  assumes "\<And>x. keeps R (f x)"
  shows "keeps R (each f xs)"
  by (induction xs) (auto intro: assms)

lemma keeps_on_error [intro]:
  assumes "keeps R m" and "keeps R h"
  shows "keeps R (on_error m h)"
proof (rule keepsI)
  fix w r w' assume run: "on_error m h w = (r, w')"
  obtain mr v where m: "m w = (mr, v)" by fastforce
  obtain hr u where h: "h v = (hr, u)" by fastforce
  have "R w v" "R v u" using keepsD [OF assms(1) m] keepsD [OF assms(2) h] by simp_all
  with run m h show "R w w'"
    by (auto simp: on_error_def step split: sum.splits)
qed

lemma keeps_if: "keeps R m \<Longrightarrow> keeps R n \<Longrightarrow> keeps R (if b then m else n)"
  by simp

lemma keeps_option: "keeps R m \<Longrightarrow> (\<And>x. keeps R (f x)) \<Longrightarrow> keeps R (case opt of None \<Rightarrow> m | Some x \<Rightarrow> f x)"
  by (cases opt) auto

end

end
