(* ===== verification/PyText.thy ===== *)
theory PyText
  imports PyFloat
begin

text \<open>
  Numbers and text, as Python converts between them: \<open>float(s)\<close>, \<open>repr\<close> of a float (the shortest
  decimal that reads back as the same float, the nearest one among those), \<open>int(x)\<close>, \<open>float(x)\<close>
  and \<open>str(x)\<close> of an OSC value.
\<close>

section \<open>Reading a float\<close>

text \<open>A run of digits with single underscores between them.\<close>

definition digit_run :: "string \<Rightarrow> string option" where
  "digit_run s = (let groups = split_on CHR ''_'' s in
     if list_all is_digits groups then Some (concat groups) else None)"

text \<open>The optional sign in front of a number.\<close>

definition take_sign :: "string \<Rightarrow> bool \<times> string" where
  "take_sign s = (case s of c # cs \<Rightarrow> if c = CHR ''-'' then (True, cs) else if c = CHR ''+'' then (False, cs)
      else (False, s) | [] \<Rightarrow> (False, []))"

definition exponent_of :: "string \<Rightarrow> int option" where
  "exponent_of s = (case take_sign s of (neg, ds) \<Rightarrow>
     map_option (\<lambda>d. (if neg then - int (nat_of_digits d) else int (nat_of_digits d))) (digit_run ds))"

text \<open>A mantissa with an optional point: its digits and how many stand behind the point.\<close>

definition mantissa_of :: "string \<Rightarrow> (string \<times> nat) option" where
  "mantissa_of s = (case split_on CHR ''.'' s of
     [pre] \<Rightarrow> map_option (\<lambda>d. (d, 0)) (digit_run pre)
   | [pre, post] \<Rightarrow>
       (case (if pre = [] then Some [] else digit_run pre, if post = [] then Some [] else digit_run post) of
          (Some w, Some f) \<Rightarrow> if w = [] \<and> f = [] then None else Some (w @ f, length f)
        | _ \<Rightarrow> None)
   | _ \<Rightarrow> None)"

definition decimal_of :: "string \<Rightarrow> rat option" where
  "decimal_of s = (case split_on CHR ''e'' s of
     [m] \<Rightarrow> map_option (\<lambda>(d, k). of_nat (nat_of_digits d) / 10 ^ k) (mantissa_of m)
   | [m, e] \<Rightarrow> (case (mantissa_of m, exponent_of e) of
       (Some (d, k), Some x) \<Rightarrow> Some (of_nat (nat_of_digits d) * 10 powi (x - int k))
     | _ \<Rightarrow> None)
   | _ \<Rightarrow> None)"

definition fl_minus :: "fl \<Rightarrow> fl" where
  "fl_minus x = (case x of Fin q \<Rightarrow> Fin (- q) | PInf \<Rightarrow> NInf | NInf \<Rightarrow> PInf | NaN \<Rightarrow> NaN)"

text \<open>\<open>float(s)\<close>; None where Python raises ValueError.\<close>

definition float_of_str :: "string \<Rightarrow> fl option" where
  "float_of_str text = (case take_sign (lower (strip_space text)) of (neg, s) \<Rightarrow>
     map_option (\<lambda>x. if neg then fl_minus x else x)
       (if s = ''inf'' \<or> s = ''infinity'' then Some PInf
        else if s = ''nan'' then Some NaN
        else map_option dround (decimal_of s)))"

section \<open>Writing a float\<close>

text \<open>The decimal exponent of a positive rational: \<open>10 powi k \<le> q < 10 powi (k + 1)\<close>.\<close>

definition ilog10 :: "rat \<Rightarrow> int" where
  "ilog10 q = (if 1 \<le> q then int (length (show_nat (nat \<lfloor>q\<rfloor>))) - 1
               else - int (length (show_nat (nat (\<lceil>1 / q\<rceil> - 1)))))"

text \<open>The decimals of \<open>n\<close> digits next to \<open>q\<close>, the nearest first.\<close>

definition decimals_near :: "rat \<Rightarrow> nat \<Rightarrow> int list" where
  "decimals_near q n = (let x = q / 10 powi (ilog10 q - int n + 1); m = round_he x
     in [m, if of_int m \<le> x then m + 1 else m - 1])"

definition shortest_digits :: "rat \<Rightarrow> int \<times> nat" where
  "shortest_digits q = (case List.find (\<lambda>(m, n). d64 (of_int m * 10 powi (ilog10 q - int n + 1)) = q)
       (concat (map (\<lambda>n. map (\<lambda>m. (m, n)) (decimals_near q n)) [1..<18])) of
     Some r \<Rightarrow> r | None \<Rightarrow> (0, 1))"

definition zeros :: "nat \<Rightarrow> string" where
  "zeros n = replicate n CHR ''0''"

text \<open>The digits without trailing zeros, and the position of the point.\<close>

definition strip_zeros :: "string \<Rightarrow> string" where
  "strip_zeros s = rev (dropWhile (\<lambda>c. c = CHR ''0'') (rev s))"

definition place_point :: "string \<Rightarrow> int \<Rightarrow> string" where
  "place_point ds point =
     (if - 4 < point \<and> point \<le> 16 then
        (if point \<le> 0 then ''0.'' @ zeros (nat (- point)) @ ds
         else if int (length ds) \<le> point then ds @ zeros (nat point - length ds) @ ''.0''
         else take (nat point) ds @ ''.'' @ drop (nat point) ds)
      else
        (let x = point - 1; e = show_nat (nat \<bar>x\<bar>) in
         take 1 ds @ (if length ds > 1 then ''.'' @ drop 1 ds else []) @ ''e''
           @ (if x < 0 then ''-'' else ''+'') @ (if length e < 2 then ''0'' else []) @ e))"

definition repr_fin :: "rat \<Rightarrow> string" where
  "repr_fin q = (if q = 0 then ''0.0'' else
     (let (m, n) = shortest_digits \<bar>q\<bar>; s = show_nat (nat m);
          point = ilog10 \<bar>q\<bar> + 1 + (int (length s) - int n)
      in (if q < 0 then ''-'' else []) @ place_point (strip_zeros s) point))"

definition repr_float :: "fl \<Rightarrow> string" where
  "repr_float x = (case x of Fin q \<Rightarrow> repr_fin q | PInf \<Rightarrow> ''inf'' | NInf \<Rightarrow> ''-inf'' | NaN \<Rightarrow> ''nan'')"

section \<open>Conversions of a value\<close>

definition trunc_int :: "rat \<Rightarrow> int" where
  "trunc_int q = (if 0 \<le> q then \<lfloor>q\<rfloor> else \<lceil>q\<rceil>)"

text \<open>\<open>float(x)\<close>, \<open>int(x)\<close> and \<open>str(x)\<close>.\<close>

fun to_float :: "pyval \<Rightarrow> fl res" where
  "to_float (VFloat x) = Ok x"
| "to_float (VInt i) = float_of_int i"
| "to_float (VBool b) = Ok (Fin (if b then 1 else 0))"
| "to_float (VStr s) = (case float_of_str s of Some x \<Rightarrow> Ok x | None \<Rightarrow> Raise ValueError)"

fun to_int :: "pyval \<Rightarrow> int res" where
  "to_int (VInt i) = Ok i"
| "to_int (VBool b) = Ok (if b then 1 else 0)"
| "to_int (VFloat (Fin q)) = Ok (trunc_int q)"
| "to_int (VFloat NaN) = Raise ValueError"
| "to_int (VFloat x) = Raise OverflowError"
| "to_int (VStr s) = (case py_int s of Some i \<Rightarrow> Ok i | None \<Rightarrow> Raise ValueError)"

fun to_str :: "pyval \<Rightarrow> string" where
  "to_str (VInt i) = show_int i"
| "to_str (VBool b) = (if b then ''True'' else ''False'')"
| "to_str (VFloat x) = repr_float x"
| "to_str (VStr s) = s"

end
