(* ===== verification/Osc.thy ===== *)
theory Osc
  imports PyText "HOL-Library.Word"
begin

text \<open>
  \<^verbatim>\<open>osc.py\<close>: OSC 1.0 messages as byte strings. Encoding and decoding follow the source byte for
  byte, with offsets into the data; a float argument is the IEEE single of \<open>struct.pack(">f")\<close>
  (the sign of a zero is not modelled, as in \<^verbatim>\<open>PyFloat\<close>). The lemmas show that a decoded
  message is the encoded one, that malformed data raises ValueError and nothing else, and that the
  iterative unwrapping of nested bundles visits the messages depth first in wire order.
\<close>

type_synonym bytes = "8 word list"
type_synonym osc_args = "pyval list"
type_synonym osc_message = "string \<times> string \<times> osc_args"

section \<open>Numbers on the wire\<close>

text \<open>Four bytes, most significant first.\<close>

definition be32 :: "int \<Rightarrow> bytes" where
  "be32 n = [word_of_int (n div 2 ^ 24), word_of_int (n div 2 ^ 16), word_of_int (n div 2 ^ 8), word_of_int n]"

fun unbe32 :: "bytes \<Rightarrow> int" where
  "unbe32 [a, b, c, d] = uint a * 2 ^ 24 + uint b * 2 ^ 16 + uint c * 2 ^ 8 + uint d"
| "unbe32 _ = 0"

definition signed32 :: "int \<Rightarrow> int" where
  "signed32 n = (if n < 2 ^ 31 then n else n - 2 ^ 32)"

text \<open>\<open>struct.pack(">i", n)\<close>.\<close>

definition pack_int :: "int \<Rightarrow> bytes res" where
  "pack_int n = (if - (2 ^ 31) \<le> n \<and> n < 2 ^ 31 then Ok (be32 n) else Raise StructError)"

text \<open>
  The bits of a single: a finite value is \<open>m * 2 powi e\<close> with \<open>e\<close> the exponent of its last place,
  and its biased exponent and fraction are read off \<open>m\<close> and \<open>e\<close> at once.
\<close>

definition single_bits :: "rat \<Rightarrow> int" where
  "single_bits q = (if q = 0 then 0 else
     (let e = ulp_exp 24 (- 149) q; m = \<lfloor>\<bar>q\<bar> / 2 powi e\<rfloor>
      in (if q < 0 then 2 ^ 31 else 0) + (e + 149) * 2 ^ 23 + m))"

fun pack_float :: "fl \<Rightarrow> bytes res" where
  "pack_float (Fin q) = (if F32_LIMIT \<le> \<bar>f32 q\<bar> then Raise OverflowError else Ok (be32 (single_bits (f32 q))))"
| "pack_float PInf = Ok (be32 (255 * 2 ^ 23))"
| "pack_float NInf = Ok (be32 (2 ^ 31 + 255 * 2 ^ 23))"
| "pack_float NaN = Ok (be32 (255 * 2 ^ 23 + 2 ^ 22))"

definition single_value :: "int \<Rightarrow> fl" where
  "single_value bits =
     (let s = bits div 2 ^ 31; e = bits div 2 ^ 23 mod 2 ^ 8; m = bits mod 2 ^ 23;
          sign = (\<lambda>q::rat. if s = 1 then - q else q)
      in if e = 255 then (if m \<noteq> 0 then NaN else if s = 1 then NInf else PInf)
         else if e = 0 then Fin (sign (of_int m * 2 powi - 149))
         else Fin (sign (of_int (m + 2 ^ 23) * 2 powi (e - 150))))"

section \<open>Strings\<close>

definition pad :: "nat \<Rightarrow> nat" where
  "pad n = (4 - n mod 4) mod 4"

text \<open>\<open>s.encode("ascii")\<close> and \<open>data.decode("ascii")\<close>; their errors are ValueErrors.\<close>

definition ascii_bytes :: "string \<Rightarrow> bytes res" where
  "ascii_bytes s = (if list_all (\<lambda>c. (of_char c :: nat) < 128) s then Ok (map of_char s) else Raise ValueError)"

definition ascii_text :: "bytes \<Rightarrow> string res" where
  "ascii_text bs = (if list_all (\<lambda>b. b < 128) bs then Ok (map (\<lambda>b. char_of (unat b)) bs) else Raise ValueError)"

definition osc_string :: "string \<Rightarrow> bytes res" where
  "osc_string s = rbind (ascii_bytes s) (\<lambda>bs. let raw = bs @ [0] in Ok (raw @ replicate (pad (length raw)) 0))"

text \<open>\<open>data.index(0, offset)\<close>.\<close>

fun index_zero :: "bytes \<Rightarrow> nat option" where
  "index_zero [] = None"
| "index_zero (b # bs) = (if b = 0 then Some 0 else map_option Suc (index_zero bs))"

definition slice :: "bytes \<Rightarrow> nat \<Rightarrow> nat \<Rightarrow> bytes" where
  "slice data i j = take (j - i) (drop i data)"

definition decode_string :: "bytes \<Rightarrow> nat \<Rightarrow> (string \<times> nat) res" where
  "decode_string data offset = (case index_zero (drop offset data) of
       None \<Rightarrow> Raise ValueError
     | Some n \<Rightarrow> rbind (ascii_text (slice data offset (offset + n))) (\<lambda>value.
         let stop = offset + n + 1; padded = stop + pad stop in
         if length data < padded \<or> list_ex (\<lambda>b. b \<noteq> 0) (slice data stop padded) then Raise ValueError
         else Ok (value, padded)))"

section \<open>Messages\<close>

definition encode_arg :: "char \<Rightarrow> pyval \<Rightarrow> bytes res" where
  "encode_arg tag v =
     (if tag = CHR ''f'' then rbind (to_float v) pack_float
      else if tag = CHR ''i'' then rbind (to_int v) pack_int
      else if tag = CHR ''s'' then osc_string (to_str v)
      else Raise ValueError)"

fun encode_args :: "string \<Rightarrow> pyval list \<Rightarrow> bytes res" where
  "encode_args (t # ts) (v # vs) = rbind (encode_arg t v) (\<lambda>a. rbind (encode_args ts vs) (\<lambda>as. Ok (a @ as)))"
| "encode_args _ _ = Ok []"

definition encode_osc :: "string \<Rightarrow> string \<Rightarrow> pyval list \<Rightarrow> bytes res" where
  "encode_osc path types args =
     (if length types \<noteq> length args then Raise ValueError
      else rbind (osc_string path) (\<lambda>p. rbind (osc_string (CHR '','' # types)) (\<lambda>t.
        rbind (encode_args types args) (\<lambda>as. Ok (p @ t @ as)))))"

text \<open>\<open>struct.unpack_from(">i", data, offset)\<close>; a short buffer is a struct.error.\<close>

definition word_at :: "bytes \<Rightarrow> nat \<Rightarrow> int res" where
  "word_at data offset = (if offset + 4 \<le> length data then Ok (unbe32 (slice data offset (offset + 4)))
     else Raise StructError)"

definition decode_arg :: "char \<Rightarrow> bytes \<Rightarrow> nat \<Rightarrow> (pyval \<times> nat) res" where
  "decode_arg tag data offset =
     (if tag = CHR ''f'' then rbind (word_at data offset) (\<lambda>w. Ok (VFloat (single_value w), offset + 4))
      else if tag = CHR ''i'' then rbind (word_at data offset) (\<lambda>w. Ok (VInt (signed32 w), offset + 4))
      else if tag = CHR ''s'' then rbind (decode_string data offset) (\<lambda>(s, next). Ok (VStr s, next))
      else Raise ValueError)"

fun decode_args :: "string \<Rightarrow> bytes \<Rightarrow> nat \<Rightarrow> (pyval list \<times> nat) res" where
  "decode_args [] data offset = Ok ([], offset)"
| "decode_args (t # ts) data offset = rbind (decode_arg t data offset) (\<lambda>(v, next).
     rbind (decode_args ts data next) (\<lambda>(vs, stop). Ok (v # vs, stop)))"

definition decode_osc :: "bytes \<Rightarrow> osc_message res" where
  "decode_osc data =
     rbind (catching [ValueError, IndexError] ValueError (rbind (decode_string data 0) (\<lambda>(path, offset).
       rbind (decode_string data offset) (\<lambda>(tags, offset'). Ok (path, tags, offset'))))) (\<lambda>(path, tags, offset).
     if \<not> startswith tags '','' then Raise ValueError
     else rbind (catching [StructError, IndexError] ValueError (decode_args (drop 1 tags) data offset)) (\<lambda>(args, stop).
       if stop \<noteq> length data then Raise ValueError else Ok (path, drop 1 tags, args)))"

section \<open>Bundles\<close>

definition BUNDLE :: bytes where
  "BUNDLE = map of_char ''#bundle'' @ [0]"

text \<open>The elements of a bundle from an offset on; the loop ends when fewer than four bytes remain.\<close>

function elements :: "bytes \<Rightarrow> nat \<Rightarrow> bytes list res" where
  "elements current offset =
     (if length current < offset + 4 then Ok []
      else let size = signed32 (unbe32 (slice current offset (offset + 4))) in
        if size \<le> 0 \<or> size mod 4 \<noteq> 0 \<or> int (length current) < int (offset + 4) + size then Raise ValueError
        else rbind (elements current (offset + 4 + nat size)) (\<lambda>es.
          Ok (slice current (offset + 4) (offset + 4 + nat size) # es)))"
  by auto
termination by (relation "measure (\<lambda>(current, offset). length current - offset)") auto

declare elements.simps [simp del]

text \<open>What remains to be unwrapped: an element costs four bytes of framing, so this decreases.\<close>

definition pending_size :: "bytes list \<Rightarrow> nat" where
  "pending_size pending = sum_list (map (\<lambda>b. Suc (length b)) pending)"

lemma elements_size:
  "elements current offset = Ok es \<Longrightarrow> pending_size es \<le> length current - offset"
proof (induction current offset arbitrary: es rule: elements.induct)
  case (1 current offset)
  show ?case
  proof (cases "length current < offset + 4")
    case True
    with 1(2) show ?thesis by (simp add: elements.simps [of current offset] pending_size_def)
  next
    case False
    define size where "size = signed32 (unbe32 (slice current offset (offset + 4)))"
    obtain fs where fs: "elements current (offset + 4 + nat size) = Ok fs"
      "es = slice current (offset + 4) (offset + 4 + nat size) # fs"
      and ok: "\<not> (size \<le> 0 \<or> size mod 4 \<noteq> 0 \<or> int (length current) < int (offset + 4) + size)"
      using 1(2) False by (subst (asm) elements.simps) (auto simp: Let_def size_def rbind_Ok_iff split: if_splits)
    have "pending_size fs \<le> length current - (offset + 4 + nat size)"
      using 1(1) [OF False size_def _ fs(1)] ok by auto
    then show ?thesis using ok by (auto simp: fs(2) pending_size_def slice_def)
  qed
qed

text \<open>The loop over the stack of pending byte strings (its top is the head of the list).\<close>

function iter_pending :: "bytes list \<Rightarrow> bytes list res" where
  "iter_pending [] = Ok []"
| "iter_pending (current # pending) =
     (if length current mod 4 \<noteq> 0 then Raise ValueError
      else if take 8 current \<noteq> BUNDLE then rbind (iter_pending pending) (\<lambda>ms. Ok (current # ms))
      else if length current < 16 then Raise ValueError
      else case elements current 16 of Inl e \<Rightarrow> Inl e | Inr es \<Rightarrow> iter_pending (es @ pending))"
  by pat_completeness auto
termination
proof (relation "measure pending_size", goal_cases)
  case (3 current pending es)
  then have "pending_size es \<le> length current - 16" by (intro elements_size)
  then show ?case using 3(3) by (simp add: pending_size_def)
qed (simp_all add: pending_size_def)

definition iter_osc_messages :: "bytes \<Rightarrow> bytes list res" where
  "iter_osc_messages datagram = iter_pending [datagram]"

definition decode_delivery :: "bytes \<Rightarrow> osc_message list res" where
  "decode_delivery data = rbind (iter_osc_messages data) (map_res decode_osc)"


section \<open>Numbers come back\<close>

lemma uint_byte: "uint (word_of_int n :: 8 word) = n mod 2 ^ 8"
  by (simp add: uint_word_of_int)

lemma length_be32 [simp]: "length (be32 n) = 4"
  by (simp add: be32_def)

lemma unbe32_be32: "unbe32 (be32 n) = n mod 2 ^ 32"
proof -
  have split: "n mod (b * 2 ^ 8) = (n div b mod 2 ^ 8) * b + n mod b" for b :: int
    using zmod_zmult2_eq [of "2 ^ 8" n b] by (simp add: mult.commute)
  have "n mod 2 ^ 32 = (n div 2 ^ 24 mod 2 ^ 8) * 2 ^ 24 + n mod 2 ^ 24" using split [of "2 ^ 24"] by simp
  moreover have "n mod 2 ^ 24 = (n div 2 ^ 16 mod 2 ^ 8) * 2 ^ 16 + n mod 2 ^ 16" using split [of "2 ^ 16"] by simp
  moreover have "n mod 2 ^ 16 = (n div 2 ^ 8 mod 2 ^ 8) * 2 ^ 8 + n mod 2 ^ 8" using split [of "2 ^ 8"] by simp
  ultimately show ?thesis unfolding be32_def unbe32.simps uint_byte by (simp only: add.assoc)
qed

lemma signed32_mod:
  assumes "- (2 ^ 31) \<le> n" and "n < 2 ^ 31"
  shows "signed32 (n mod 2 ^ 32) = n"
proof (cases "0 \<le> n")
  case True
  then have "n mod 2 ^ 32 = n" using assms(2) by (intro mod_pos_pos_trivial) auto
  then show ?thesis using assms(2) by (simp add: signed32_def)
next
  case False
  then have "n mod 2 ^ 32 = n + 2 ^ 32" using assms(1) by (intro int_mod_pos_eq [of _ _ "- 1"]) auto
  then show ?thesis using assms(1) by (simp add: signed32_def)
qed

text \<open>The parts of a single.\<close>

lemma single_parts:
  assumes "f32 q = q" and "q \<noteq> 0" and "\<bar>q\<bar> < F32_LIMIT"
  obtains e m where "ulp_exp 24 (- 149) q = e" "- 149 \<le> e" "e \<le> 104" "\<bar>q\<bar> = of_int m * 2 powi e"
    "0 < m" "m < 2 ^ 24" "e = - 149 \<or> 2 ^ 23 \<le> m"
proof -
  define e where "e = ulp_exp 24 (- 149) q"
  define r where "r = round_he (q / 2 powi e)"
  have q: "q = of_int r * 2 powi e"
    using assms(1,2) by (simp add: f32_def rnd_def e_def [symmetric] r_def)
  have m: "\<bar>q\<bar> = of_int \<bar>r\<bar> * 2 powi e" unfolding q by (simp add: abs_mult)
  have e: "- 149 \<le> e" by (simp add: e_def ulp_exp_def)
  have pos: "0 < \<bar>q\<bar>" using assms(2) by simp
  have "ilog2 \<bar>q\<bar> < 128"
    using pos assms(3) by (intro ilog2_less) (simp_all add: F32_LIMIT_def)
  then have e': "e \<le> 104" by (simp add: e_def ulp_exp_def)
  have "\<bar>q\<bar> < 2 powi (ilog2 \<bar>q\<bar> + 1)" using pos by (rule ilog2_bounds)
  also have "\<dots> \<le> 2 powi (24 + e)" by (simp add: powi_le_cancel e_def ulp_exp_def)
  finally have "of_int \<bar>r\<bar> * 2 powi e < 2 ^ 24 * (2::rat) powi e" unfolding m by (simp add: powi_add)
  then have "(of_int \<bar>r\<bar> :: rat) < of_int (2 ^ 24)" by simp
  then have hi: "\<bar>r\<bar> < 2 ^ 24" by (simp only: of_int_less_iff)
  have lo: "2 ^ 23 \<le> \<bar>r\<bar>" if "e \<noteq> - 149"
  proof -
    have il: "e = ilog2 \<bar>q\<bar> - 23" using that by (auto simp: e_def ulp_exp_def max_def split: if_splits)
    have "2 powi (23 + e) \<le> \<bar>q\<bar>" using ilog2_bounds(1) [OF pos] by (simp add: il)
    then have "2 ^ 23 * (2::rat) powi e \<le> of_int \<bar>r\<bar> * 2 powi e" unfolding m by (simp add: powi_add)
    then have "(of_int (2 ^ 23) :: rat) \<le> of_int \<bar>r\<bar>" by simp
    then show ?thesis by (simp only: of_int_le_iff)
  qed
  have "r \<noteq> 0" using assms(2) q by auto
  with that [of e "\<bar>r\<bar>"] e e' m hi lo show ?thesis by (auto simp: e_def)
qed

lemma single_bits_parts:
  assumes "ulp_exp 24 (- 149) q = e" "\<bar>q\<bar> = of_int m * 2 powi e" "q \<noteq> 0"
  shows "single_bits q = (if q < 0 then 2 ^ 31 else 0) + (e + 149) * 2 ^ 23 + m"
  using assms by (simp add: single_bits_def)

lemma single_fields:
  fixes s k m :: int
  assumes "s = 0 \<or> s = 1" and "0 \<le> k" and "k < 255" and "0 \<le> m" and "m < 2 ^ 23"
  shows "(s * 2 ^ 31 + k * 2 ^ 23 + m) div 2 ^ 31 = s"
    and "(s * 2 ^ 31 + k * 2 ^ 23 + m) div 2 ^ 23 mod 2 ^ 8 = k"
    and "(s * 2 ^ 31 + k * 2 ^ 23 + m) mod 2 ^ 23 = m"
    and "0 \<le> s * 2 ^ 31 + k * 2 ^ 23 + m" and "s * 2 ^ 31 + k * 2 ^ 23 + m < 2 ^ 32"
proof -
  have "(s * 2 ^ 31 + k * 2 ^ 23 + m) div 2 ^ 23 = s * 2 ^ 8 + k"
    using assms by (intro int_div_pos_eq [of _ _ _ m]) auto
  then show "(s * 2 ^ 31 + k * 2 ^ 23 + m) div 2 ^ 23 mod 2 ^ 8 = k"
    using assms(2,3) by simp
  show "(s * 2 ^ 31 + k * 2 ^ 23 + m) div 2 ^ 31 = s"
    using assms by (intro int_div_pos_eq [of _ _ _ "k * 2 ^ 23 + m"]) auto
  show "(s * 2 ^ 31 + k * 2 ^ 23 + m) mod 2 ^ 23 = m"
    using assms by (intro int_mod_pos_eq [of _ _ "s * 2 ^ 8 + k"]) auto
  show "0 \<le> s * 2 ^ 31 + k * 2 ^ 23 + m" "s * 2 ^ 31 + k * 2 ^ 23 + m < 2 ^ 32" using assms by auto
qed

lemma single_value_fields:
  fixes s k m :: int
  assumes "s = 0 \<or> s = 1" and "0 \<le> k" and "k < 255" and "0 \<le> m" and "m < 2 ^ 23"
  shows "single_value (s * 2 ^ 31 + k * 2 ^ 23 + m) =
    (let q = (if k = 0 then of_int m * 2 powi - 149 else of_int (m + 2 ^ 23) * 2 powi (k - 150))
     in Fin (if s = 1 then - q else q))"
  using assms(3) unfolding single_value_def Let_def single_fields(1-3) [OF assms]
  by (cases "k = 0") auto

lemma single_value_bits:
  assumes "f32 q = q" and "\<bar>q\<bar> < F32_LIMIT"
  shows "single_value (single_bits q) = Fin q \<and> 0 \<le> single_bits q \<and> single_bits q < 2 ^ 32"
proof (cases "q = 0")
  case True
  then show ?thesis by (simp add: single_bits_def single_value_def)
next
  case False
  obtain e m where p: "ulp_exp 24 (- 149) q = e" "- 149 \<le> e" "e \<le> 104" "\<bar>q\<bar> = of_int m * 2 powi e"
    "0 < m" "m < 2 ^ 24" "e = - 149 \<or> 2 ^ 23 \<le> m"
    using assms(1) False assms(2) by (rule single_parts)
  define s :: int where "s = (if q < 0 then 1 else 0)"
  have q: "(if s = 1 then - \<bar>q\<bar> else \<bar>q\<bar>) = q" by (simp add: s_def)
  have s: "s = 0 \<or> s = 1" by (simp add: s_def)
  have bits: "single_bits q = s * 2 ^ 31 + (e + 149) * 2 ^ 23 + m"
    unfolding single_bits_parts [OF p(1,4) False] by (simp add: s_def)
  show ?thesis
  proof (cases "m < 2 ^ 23")
    case True
    then have e: "e = - 149" using p(7) by simp
    have b: "single_bits q = s * 2 ^ 31 + 0 * 2 ^ 23 + m" unfolding bits e by simp
    have m: "of_int m * 2 powi - 149 = \<bar>q\<bar>" using p(4) e by simp
    have range: "0 \<le> (0 :: int)" "(0 :: int) < 255" "0 \<le> m" using p(5) by simp_all
    show ?thesis
      unfolding b single_value_fields [OF s range True] if_P [OF refl] m q Let_def
      using single_fields(4,5) [OF s range True] by blast
  next
    case False
    define k where "k = e + 150"
    have b: "single_bits q = s * 2 ^ 31 + k * 2 ^ 23 + (m - 2 ^ 23)" unfolding bits k_def by simp
    have k: "0 \<le> k" "k < 255" "k \<noteq> 0" "0 \<le> m - 2 ^ 23" "m - 2 ^ 23 < 2 ^ 23"
      using p(2,3,6) False by (simp_all add: k_def)
    have m: "of_int (m - 2 ^ 23 + 2 ^ 23) * 2 powi (k - 150) = \<bar>q\<bar>" using p(4) by (simp add: k_def)
    show ?thesis
      unfolding b single_value_fields [OF s k(1,2,4,5)] if_not_P [OF k(3)] m q Let_def
      using single_fields(4,5) [OF s k(1,2,4,5)] by blast
  qed
qed


section \<open>Strings come back\<close>

definition no_nul :: "string \<Rightarrow> bool" where
  "no_nul s = list_all (\<lambda>c. (of_char c :: nat) \<noteq> 0) s"

lemma byte_of_char:
  "unat (of_char c :: 8 word) = of_char c" "(of_char c :: 8 word) = 0 \<longleftrightarrow> (of_char c :: nat) = 0"
  "(of_char c :: 8 word) < 128 \<longleftrightarrow> (of_char c :: nat) < 128"
proof -
  have lt: "(of_char c :: nat) < 256" by simp
  have w: "(of_char c :: 8 word) = word_of_nat (of_char c)" by (simp only: of_nat_of_char)
  show u: "unat (of_char c :: 8 word) = of_char c"
    unfolding w using lt by (simp add: unat_of_nat take_bit_nat_eq_self)
  show "(of_char c :: 8 word) = 0 \<longleftrightarrow> (of_char c :: nat) = 0" unfolding unat_eq_zero [symmetric] u ..
  show "(of_char c :: 8 word) < 128 \<longleftrightarrow> (of_char c :: nat) < 128" unfolding word_less_nat_alt u by simp
qed

lemma index_zero_text: "no_nul s \<Longrightarrow> index_zero (map of_char s @ 0 # bs) = Some (length s)"
  by (induction s) (simp_all add: no_nul_def byte_of_char)

lemma ascii_text_bytes: "ascii_bytes s = Ok bs \<Longrightarrow> bs = map of_char s \<and> ascii_text bs = Ok s"
  by (auto simp: ascii_bytes_def ascii_text_def list_all_iff byte_of_char o_def split: if_splits)

lemma pad_mod: "(n + pad n) mod 4 = 0"
proof -
  have "n mod 4 < 4" by simp
  then have "n mod 4 = 0 \<or> n mod 4 = 1 \<or> n mod 4 = 2 \<or> n mod 4 = 3" by linarith
  then have "(n mod 4 + (4 - n mod 4) mod 4) mod 4 = 0" by (elim disjE) (simp_all only:, simp_all)
  then show ?thesis by (simp only: pad_def mod_add_left_eq)
qed

lemma aligned_add: "a mod 4 = 0 \<Longrightarrow> b mod 4 = 0 \<Longrightarrow> (a + b) mod 4 = (0 :: nat)"
  by (simp only: mod_eq_0_iff_dvd dvd_add)

lemma pad_shift: "k mod 4 = 0 \<Longrightarrow> pad (k + n) = pad n"
  by (simp add: pad_def mod_add_left_eq [of k 4, symmetric])

lemma osc_string_length: "osc_string s = Ok bs \<Longrightarrow> length bs mod 4 = 0"
  using pad_mod [of "Suc _"] by (auto simp: osc_string_def rbind_Ok_iff Let_def)

lemma decode_osc_string:
  assumes "osc_string s = Ok bs" and "no_nul s" and "length pre mod 4 = 0"
  shows "decode_string (pre @ bs @ post) (length pre) = Ok (s, length pre + length bs)"
proof -
  obtain raw where raw: "ascii_bytes s = Ok raw" "bs = (raw @ [0]) @ replicate (pad (length (raw @ [0]))) 0"
    using assms(1) by (auto simp: osc_string_def rbind_Ok_iff Let_def)
  have r: "raw = map of_char s" "ascii_text raw = Ok s" using ascii_text_bytes [OF raw(1)] by blast+
  have len: "length raw = length s" by (simp add: r(1))
  have pads: "pad (length pre + length s + 1) = pad (length s + 1)"
    using pad_shift [OF assms(3), of "length s + 1"] by (simp add: add.assoc)
  have "index_zero (drop (length pre) (pre @ bs @ post)) = Some (length s)"
    using index_zero_text [OF assms(2)] by (simp add: raw(2) r(1))
  moreover have "slice (pre @ bs @ post) (length pre) (length pre + length s) = raw"
    by (simp add: slice_def raw(2) len)
  moreover have "slice (pre @ bs @ post) (length pre + length s + 1) (length pre + length s + 1 + pad (length s + 1))
      = replicate (pad (length s + 1)) 0"
    by (simp add: slice_def raw(2) len)
  moreover have "length bs = length s + 1 + pad (length s + 1)" by (simp add: raw(2) len)
  ultimately show ?thesis
    using pads by (simp add: decode_string_def r(2) Let_def list_ex_iff)
qed

section \<open>Arguments come back\<close>

text \<open>The value the wire carries for an argument.\<close>

definition wire :: "char \<Rightarrow> pyval \<Rightarrow> pyval" where
  "wire tag v =
     (if tag = CHR ''f'' then (case rbind (to_float v) struct_f32 of Inr x \<Rightarrow> VFloat x | Inl _ \<Rightarrow> v)
      else if tag = CHR ''i'' then (case to_int v of Inr n \<Rightarrow> VInt n | Inl _ \<Rightarrow> v)
      else VStr (to_str v))"

definition no_nul_arg :: "char \<Rightarrow> pyval \<Rightarrow> bool" where
  "no_nul_arg tag v = (tag = CHR ''s'' \<longrightarrow> no_nul (to_str v))"

lemma special_singles:
  "single_value (255 * 2 ^ 23) = PInf" "single_value (2 ^ 31 + 255 * 2 ^ 23) = NInf"
  "single_value (255 * 2 ^ 23 + 2 ^ 22) = NaN"
  by (simp_all add: single_value_def)

lemma packed_float:
  assumes "pack_float x = Ok a"
  shows "length a = 4 \<and> (\<exists>y. struct_f32 x = Ok y \<and> single_value (unbe32 a) = y)"
proof (cases x)
  case (Fin q)
  have idem: "f32 (f32 q) = f32 q" by (simp add: f32_def rnd_idem)
  have lim: "\<bar>f32 q\<bar> < F32_LIMIT" and a: "a = be32 (single_bits (f32 q))"
    using assms Fin by (auto split: if_splits)
  note v = single_value_bits [OF idem lim]
  then have "single_bits (f32 q) mod 2 ^ 32 = single_bits (f32 q)" by (intro mod_pos_pos_trivial) blast+
  then have "single_value (unbe32 a) = Fin (f32 q)" using v unfolding a unbe32_be32 by simp
  then show ?thesis using lim by (simp add: Fin a not_le)
next
  case PInf
  then show ?thesis using assms special_singles by (auto simp: unbe32_be32)
next
  case NInf
  then show ?thesis using assms special_singles by (auto simp: unbe32_be32)
next
  case NaN
  then show ?thesis using assms special_singles by (auto simp: unbe32_be32)
qed

lemma word_at_mid: "length a = 4 \<Longrightarrow> word_at (pre @ a @ post) (length pre) = Ok (unbe32 a)"
  by (simp add: word_at_def slice_def)

lemma decode_encode_arg:
  assumes "encode_arg tag v = Ok a" and "no_nul_arg tag v" and "length pre mod 4 = 0"
  shows "decode_arg tag (pre @ a @ post) (length pre) = Ok (wire tag v, length pre + length a) \<and> length a mod 4 = 0"
proof -
  consider (f) "tag = CHR ''f''" | (i) "tag = CHR ''i''" | (s) "tag = CHR ''s''"
    using assms(1) by (auto simp: encode_arg_def split: if_splits)
  then show ?thesis
  proof cases
    case f
    then obtain x where x: "to_float v = Ok x" "pack_float x = Ok a"
      using assms(1) by (auto simp: encode_arg_def rbind_Ok_iff)
    from packed_float [OF x(2)] show ?thesis
      by (auto simp: f decode_arg_def wire_def x(1) word_at_mid)
  next
    case i
    then obtain n where n: "to_int v = Ok n" "a = be32 n" "- (2 ^ 31) \<le> n" "n < 2 ^ 31"
      using assms(1) by (auto simp: encode_arg_def pack_int_def rbind_Ok_iff split: if_splits)
    then show ?thesis
      using signed32_mod [OF n(3,4)] by (simp add: i decode_arg_def wire_def word_at_mid unbe32_be32)
  next
    case s
    then have o: "osc_string (to_str v) = Ok a" "no_nul (to_str v)"
      using assms(1,2) by (simp_all add: encode_arg_def no_nul_arg_def)
    show ?thesis
      using decode_osc_string [OF o assms(3)] osc_string_length [OF o(1)] by (simp add: s decode_arg_def wire_def)
  qed
qed

lemma decode_encode_args:
  assumes "encode_args ts vs = Ok as" and "length ts = length vs" and "list_all2 no_nul_arg ts vs"
    and "length pre mod 4 = 0"
  shows "decode_args ts (pre @ as) (length pre) = Ok (map2 wire ts vs, length pre + length as)
    \<and> length as mod 4 = 0 \<and> no_nul ts"
  using assms
proof (induction ts arbitrary: vs as pre)
  case Nil
  then show ?case by (simp add: no_nul_def)
next
  case (Cons t ts)
  then obtain w ws where vs: "vs = w # ws" by (cases vs) auto
  with Cons.prems obtain a as' where a: "encode_arg t w = Ok a" "encode_args ts ws = Ok as'" "as = a @ as'"
    by (auto simp: rbind_Ok_iff)
  have one: "decode_arg t (pre @ a @ as') (length pre) = Ok (wire t w, length pre + length a) \<and> length a mod 4 = 0"
    using Cons.prems a(1) vs by (intro decode_encode_arg) auto
  then have "length (pre @ a) mod 4 = 0" using Cons.prems(4) one by (simp add: aligned_add)
  with Cons.IH [OF a(2), of "pre @ a"] Cons.prems vs
  have rest: "decode_args ts ((pre @ a) @ as') (length (pre @ a)) = Ok (map2 wire ts ws, length (pre @ a) + length as')
    \<and> length as' mod 4 = 0 \<and> no_nul ts" by auto
  have "(of_char t :: nat) \<noteq> 0" using a(1) by (auto simp: encode_arg_def of_char_def split: if_splits)
  then show ?case
    using one rest by (simp add: vs a(3) no_nul_def aligned_add)
qed

text \<open>
  C22. The wire is lossless: whatever message \<open>encode_osc\<close> accepts, with no NUL in its path and string
  arguments, takes a multiple of four bytes and decodes to the same path and tags and to the same
  arguments, floats rounded to the nearest single.
\<close>

theorem osc_roundtrip:
  assumes "encode_osc path types args = Ok data" and "no_nul path" and "list_all2 no_nul_arg types args"
  shows "decode_osc data = Ok (path, types, map2 wire types args) \<and> length data mod 4 = 0"
proof -
  obtain p t as where d: "osc_string path = Ok p" "osc_string (CHR '','' # types) = Ok t"
    "encode_args types args = Ok as" "data = p @ t @ as" "length types = length args"
    using assms(1) by (auto simp: encode_osc_def rbind_Ok_iff split: if_splits)
  have al: "length p mod 4 = 0" "length t mod 4 = 0" using osc_string_length d(1,2) by blast+
  then have al2: "length (p @ t) mod 4 = 0" by (simp add: aligned_add)
  note args = decode_encode_args [OF d(3,5) assms(3) al2]
  have "no_nul (CHR '','' # types)" using args by (simp add: no_nul_def of_char_def)
  then have "decode_string (p @ t @ as) (length p) = Ok (CHR '','' # types, length p + length t)"
    using decode_osc_string [OF d(2) _ al(1)] by blast
  moreover have "decode_string ([] @ p @ t @ as) (length ([] :: bytes)) = Ok (path, length ([] :: bytes) + length p)"
    by (rule decode_osc_string [OF d(1) assms(2), of "[]" "t @ as"]) simp
  ultimately have "decode_osc data = Ok (path, types, map2 wire types args)"
    using args by (simp add: decode_osc_def d(4) catching_def)
  then show ?thesis using args al by (simp add: d(4) aligned_add)
qed


lemma osc_roundtrip_witness:
  "\<exists>data. encode_osc ''/a'' ''is'' [VInt 7, VStr ''on''] = Ok data
     \<and> decode_osc data = Ok (''/a'', ''is'', map2 wire ''is'' [VInt 7, VStr ''on''])"
proof -
  have "is_ok (encode_osc ''/a'' ''is'' [VInt 7, VStr ''on''])"
    by (simp add: encode_osc_def osc_string_def ascii_bytes_def encode_arg_def pack_int_def of_char_def Let_def)
  then obtain data where data: "encode_osc ''/a'' ''is'' [VInt 7, VStr ''on''] = Ok data" by (auto simp: is_ok_iff)
  have "no_nul ''/a''" "list_all2 no_nul_arg ''is'' [VInt 7, VStr ''on'']"
    by (simp_all add: no_nul_def no_nul_arg_def of_char_def)
  from osc_roundtrip [OF data this] data show ?thesis by blast
qed

section \<open>Nested bundles\<close>

text \<open>What a datagram holds: a message, or a bundle of packets behind an eight byte time tag.\<close>

datatype packet = Message bytes | Bundle bytes "packet list"

fun frame :: "packet \<Rightarrow> bytes" where
  "frame (Message m) = m"
| "frame (Bundle tag ps) = BUNDLE @ tag @ concat (map (\<lambda>p. be32 (int (length (frame p))) @ frame p) ps)"

fun messages_of :: "packet \<Rightarrow> bytes list" where
  "messages_of (Message m) = [m]"
| "messages_of (Bundle tag ps) = concat (map messages_of ps)"

fun well_framed :: "packet \<Rightarrow> bool" where
  "well_framed (Message m) = (m \<noteq> [] \<and> length m mod 4 = 0 \<and> length m < 2 ^ 31 \<and> take 8 m \<noteq> BUNDLE)"
| "well_framed (Bundle tag ps) =
     (length tag = 8 \<and> list_all well_framed ps \<and> length (frame (Bundle tag ps)) < 2 ^ 31)"

lemma length_BUNDLE [simp]: "length BUNDLE = 8"
  by (simp add: BUNDLE_def)

lemma well_framed_length: "well_framed p \<Longrightarrow> frame p \<noteq> [] \<and> length (frame p) mod 4 = 0 \<and> length (frame p) < 2 ^ 31"
proof (induction p)
  case (Message m)
  then show ?case by simp
next
  case (Bundle tag ps)
  have "length (concat (map (\<lambda>p. be32 (int (length (frame p))) @ frame p) ps)) mod 4 = 0"
    using Bundle by (induction ps) (simp_all add: aligned_add list_all_iff)
  with Bundle.prems show ?case by (auto simp: BUNDLE_def aligned_add)
qed

lemma elements_frames:
  assumes "list_all well_framed ps" and "data = pre @ concat (map (\<lambda>p. be32 (int (length (frame p))) @ frame p) ps)"
  shows "elements data (length pre) = Ok (map frame ps)"
  using assms
proof (induction ps arbitrary: pre)
  case Nil
  then show ?case by (simp add: elements.simps)
next
  case (Cons p ps)
  have p: "frame p \<noteq> []" "length (frame p) mod 4 = 0" "length (frame p) < 2 ^ 31"
    using Cons.prems(1) well_framed_length by auto
  let ?n = "int (length (frame p))" and ?pre = "pre @ be32 (int (length (frame p))) @ frame p"
  have data: "data = pre @ be32 ?n @ frame p @ concat (map (\<lambda>p. be32 (int (length (frame p))) @ frame p) ps)"
    using Cons.prems(2) by simp
  have n: "?n < 2 ^ 31" unfolding of_nat_less_numeral_power_cancel_iff by (rule p(3))
  have "unbe32 (slice data (length pre) (length pre + 4)) = ?n mod 2 ^ 32"
    by (simp add: data slice_def unbe32_be32)
  then have size: "signed32 (unbe32 (slice data (length pre) (length pre + 4))) = ?n"
    using signed32_mod [of ?n] n by simp
  have body: "slice data (length pre + 4) (length pre + 4 + length (frame p)) = frame p"
    by (simp add: data slice_def)
  have "elements data (length ?pre) = Ok (map frame ps)"
    using Cons.prems by (intro Cons.IH) simp_all
  then have more: "elements data (length pre + 4 + length (frame p)) = Ok (map frame ps)" by (simp add: add.assoc)
  have "?n mod 4 = 0" "0 < ?n" using p(1,2) by (simp_all flip: of_nat_mod [of _ 4, simplified])
  then show ?case
    by (subst elements.simps) (simp add: size body more Let_def, simp add: data)
qed

lemma iter_pending_frame:
  "well_framed p \<Longrightarrow> iter_pending (frame p # rest) = rbind (iter_pending rest) (\<lambda>ms. Ok (messages_of p @ ms))"
proof (induction p arbitrary: rest)
  case (Message m)
  then show ?case by simp
next
  case (Bundle tag ps)
  let ?b = "frame (Bundle tag ps)"
  have len: "length ?b mod 4 = 0" "16 \<le> length ?b" "take 8 ?b = BUNDLE"
    using Bundle.prems well_framed_length [OF Bundle.prems] by simp_all
  have pre: "length (BUNDLE @ tag) = 16" using Bundle.prems by simp
  have "elements ?b (length (BUNDLE @ tag)) = Ok (map frame ps)"
    using Bundle.prems by (intro elements_frames) simp_all
  then have es: "elements ?b 16 = Ok (map frame ps)" unfolding pre .
  have "iter_pending (map frame qs @ rest) = rbind (iter_pending rest) (\<lambda>ms. Ok (concat (map messages_of qs) @ ms))"
    if "set qs \<subseteq> set ps" for qs
    using that
  proof (induction qs)
    case Nil
    show ?case by (cases "iter_pending rest") simp_all
  next
    case (Cons q qs)
    have q: "q \<in> set ps" "well_framed q" using Cons.prems Bundle.prems by (auto simp: list_all_iff)
    show ?case
      using Bundle.IH [OF q, of "map frame qs @ rest"] Cons
      by (cases "iter_pending rest") (simp_all add: append_assoc)
  qed
  then have "iter_pending (map frame ps @ rest) = rbind (iter_pending rest) (\<lambda>ms. Ok (concat (map messages_of ps) @ ms))"
    by blast
  then show ?case using len es by (simp del: frame.simps)
qed


text \<open>
  C24. The iterative unwrapping of bundles is the recursive one: for every well framed packet, however
  deeply bundles nest, \<open>iter_osc_messages\<close> returns the messages depth first in wire order.
\<close>

theorem bundles_flatten:
  assumes "well_framed p"
  shows "iter_osc_messages (frame p) = Ok (messages_of p)"
  using iter_pending_frame [OF assms, of "[]"] by (simp add: iter_osc_messages_def)

lemma bundles_flatten_witness:
  "iter_osc_messages (frame (Bundle (replicate 8 0) [Bundle (replicate 8 0) [Message [1, 2, 3, 4]], Message [5, 6, 7, 8]]))
     = Ok [[1, 2, 3, 4], [5, 6, 7, 8]]"
proof -
  have "well_framed (Bundle (replicate 8 0) [Bundle (replicate 8 0) [Message [1, 2, 3, 4]], Message [5, 6, 7, 8]])"
    by (simp add: BUNDLE_def)
  from bundles_flatten [OF this] show ?thesis by (simp del: frame.simps)
qed

section \<open>Malformed data\<close>

lemma decode_string_errors: "decode_string data offset = Raise e \<Longrightarrow> e = ValueError"
  by (auto simp: decode_string_def ascii_text_def rbind_Raise_iff Let_def split: option.splits if_splits)

lemma decode_args_errors: "decode_args ts data offset = Raise e \<Longrightarrow> e = ValueError \<or> e = StructError"
proof (induction ts arbitrary: offset)
  case Nil
  then show ?case by simp
next
  case (Cons t ts)
  have "e = ValueError \<or> e = StructError" if "decode_arg t data offset = Raise e"
    using that by (auto simp: decode_arg_def word_at_def rbind_Raise_iff split: if_splits dest: decode_string_errors)
  with Cons show ?case by (auto simp: rbind_Raise_iff)
qed

lemma elements_errors: "elements data offset = Raise e \<Longrightarrow> e = ValueError"
proof (induction data offset rule: elements.induct)
  case (1 data offset)
  define size where "size = signed32 (unbe32 (slice data offset (offset + 4)))"
  show ?case
  proof (cases "length data < offset + 4")
    case True
    with 1(2) show ?thesis by (simp add: elements.simps [of data offset])
  next
    case False
    show ?thesis
    proof (cases "size \<le> 0 \<or> size mod 4 \<noteq> 0 \<or> int (length data) < int (offset + 4) + size")
      case True
      with 1(2) False show ?thesis by (subst (asm) elements.simps) (simp add: Let_def size_def [symmetric])
    next
      case ok: False
      have "elements data (offset + 4 + nat size) = Raise e"
        using 1(2) False ok by (subst (asm) elements.simps) (simp add: Let_def size_def [symmetric] rbind_Raise_iff)
      with 1(1) [OF False size_def ok] show ?thesis by blast
    qed
  qed
qed

lemma iter_pending_errors: "iter_pending pending = Raise e \<Longrightarrow> e = ValueError"
proof (induction pending rule: iter_pending.induct)
  case 1
  then show ?case by simp
next
  case (2 current pending)
  show ?case
  proof (cases "elements current 16")
    case (Inl f)
    then show ?thesis using 2 elements_errors [OF Inl] by (auto simp: rbind_Raise_iff split: if_splits)
  next
    case (Inr es)
    then show ?thesis using 2 by (auto simp: rbind_Raise_iff split: if_splits)
  qed
qed

lemma decode_osc_errors: "decode_osc data = Raise e \<Longrightarrow> e = ValueError"
  by (auto simp: decode_osc_def rbind_Raise_iff catching_def split: if_splits sum.splits prod.splits
      dest!: decode_string_errors decode_args_errors)

lemma map_res_errors: "map_res f xs = Raise e \<Longrightarrow> \<exists>x\<in>set xs. f x = Raise e"
  by (induction xs) (auto simp: rbind_Raise_iff)

text \<open>
  C25. Whatever bytes the network hands in, decoding a delivery either yields all of its messages or
  raises ValueError: no struct.error, IndexError or overflow escapes, and no prefix is kept.
\<close>

theorem delivery_all_or_ValueError:
  "(\<exists>ms. decode_delivery data = Ok ms) \<or> decode_delivery data = Raise ValueError"
proof (cases "decode_delivery data")
  case (Inl e)
  then have "iter_pending [data] = Raise e \<or> (\<exists>xs. map_res decode_osc xs = Raise e)"
    unfolding decode_delivery_def iter_osc_messages_def rbind_Raise_iff by blast
  then have "e = ValueError"
    using iter_pending_errors decode_osc_errors by (elim disjE exE) (auto dest!: map_res_errors simp del: iter_pending.simps)
  with Inl show ?thesis by simp
qed simp

end
