(* ===== verification/Backend.thy ===== *)
theory Backend
  imports Effects Osc
begin

text \<open>
  \<^verbatim>\<open>backend.py\<close> and \<^verbatim>\<open>protocol.py\<close>: one checked connection to the backend process, as a state
  machine over the packets of its socket. The environment is explicit and arbitrary: the world
  holds the clock, the packets that will still arrive with the time each one takes, what the next
  socket sends will do, and what the stop check will answer; a script that has run out stands for
  silence, for sends that succeed and for no stop. Time is exact and passes in the socket calls only.
  The world also records every request put on the socket, every write the backend acknowledged
  (\<open>on_written\<close>) and every decoded device report (\<open>on_reported\<close>).
\<close>

unbundle bit_operations_syntax

section \<open>Protocol facts\<close>

definition MAGIC :: bytes where "MAGIC = map of_char ''ODK1''"
definition VERSION :: int where "VERSION = 1"
definition HEADER_SIZE :: nat where "HEADER_SIZE = 24"
definition REPLY :: int where "REPLY = 0x80000000"
definition PAYLOAD :: nat where "PAYLOAD = 8192"
definition HELLO_REPLY_SIZE :: nat where "HELLO_REPLY_SIZE = 24"

text \<open>Request kinds, unsolicited events, reply codes, roles and the sources of an observation.\<close>

definition HELLO :: int where "HELLO = 1"
definition BEGIN :: int where "BEGIN = 2"
definition END :: int where "END = 3"
definition KEEPALIVE :: int where "KEEPALIVE = 4"
definition WRITE :: int where "WRITE = 5"
definition REFRESH :: int where "REFRESH = 6"

definition EV_LEASE :: int where "EV_LEASE = 16"
definition EV_OBSERVATION :: int where "EV_OBSERVATION = 17"
definition EV_WINDOW :: int where "EV_WINDOW = 18"

definition ST_OK :: int where "ST_OK = 0"
definition ST_BUSY :: int where "ST_BUSY = 1"
definition ST_INVALID :: int where "ST_INVALID = 2"
definition ST_NOT_OWNER :: int where "ST_NOT_OWNER = 6"

definition ROLE_DESK :: int where "ROLE_DESK = 1"
definition ROLE_READER :: int where "ROLE_READER = 3"

definition SRC_DEVICE :: int where "SRC_DEVICE = 1"
definition SRC_DERIVED :: int where "SRC_DERIVED = 2"
definition SRC_METERS :: int where "SRC_METERS = 4"

lemmas protocol_defs = VERSION_def HEADER_SIZE_def REPLY_def PAYLOAD_def HELLO_REPLY_SIZE_def
  HELLO_def BEGIN_def END_def KEEPALIVE_def WRITE_def REFRESH_def EV_LEASE_def EV_OBSERVATION_def
  EV_WINDOW_def ST_OK_def ST_BUSY_def ST_INVALID_def ST_NOT_OWNER_def ROLE_DESK_def ROLE_READER_def
  SRC_DEVICE_def SRC_DERIVED_def SRC_METERS_def

text \<open>The client's own limits and clocks, in seconds.\<close>

definition CONTROL_QUEUE_BYTES :: nat where "CONTROL_QUEUE_BYTES = 256 * 1024"
definition CONTROL_QUEUE_PACKETS :: nat where "CONTROL_QUEUE_PACKETS = 4096"
definition CONTROL_HEARTBEAT :: rat where "CONTROL_HEARTBEAT = 1"
definition WRITE_PACE :: rat where "WRITE_PACE = 10 / 1000"
definition CONTROL_ACK_TIMEOUT :: rat where "CONTROL_ACK_TIMEOUT = 2"
definition CONTROL_ACQUIRE_TIMEOUT :: rat where "CONTROL_ACQUIRE_TIMEOUT = 30"

text \<open>\<open>errno\<close> values.\<close>

definition EPERM :: nat where "EPERM = 1"
definition EIO :: nat where "EIO = 5"
definition EBUSY :: nat where "EBUSY = 16"
definition EPROTO :: nat where "EPROTO = 71"
definition EOVERFLOW :: nat where "EOVERFLOW = 75"
definition ECONNRESET :: nat where "ECONNRESET = 104"
definition ENOBUFS :: nat where "ENOBUFS = 105"
definition ENOTCONN :: nat where "ENOTCONN = 107"
definition ETIMEDOUT :: nat where "ETIMEDOUT = 110"
definition EALREADY :: nat where "EALREADY = 114"
definition ECANCELED :: nat where "ECANCELED = 125"

subsection \<open>Packets\<close>

text \<open>\<open>struct.Struct(">4sIIIQ")\<close>.\<close>

type_synonym frame = "int \<times> int \<times> int \<times> int \<times> bytes"

definition be64 :: "int \<Rightarrow> bytes" where
  "be64 n = be32 (n div 2 ^ 32 mod 2 ^ 32) @ be32 (n mod 2 ^ 32)"

definition unbe64 :: "bytes \<Rightarrow> int" where
  "unbe64 bs = unbe32 (take 4 bs) * 2 ^ 32 + unbe32 (drop 4 bs)"

definition pack_packet :: "frame \<Rightarrow> bytes" where
  "pack_packet f = (case f of (kind, request, code, sequence, payload) \<Rightarrow>
     MAGIC @ be32 kind @ be32 request @ be32 code @ be64 sequence @ payload)"

definition unpack_packet :: "bytes \<Rightarrow> frame" where
  "unpack_packet packet = (unbe32 (slice packet 4 8), unbe32 (slice packet 8 12), unbe32 (slice packet 12 16),
     unbe64 (slice packet 16 24), drop 24 packet)"

section \<open>State\<close>

text \<open>
  A backend's traits; upstream oscmix reports no link state on a write, no playback matrix and no
  unchanged register.
\<close>

record traits =
  reports_link_state_on_write :: bool
  dumps_playback_matrix :: bool
  reports_unchanged_registers :: bool

definition OSCMIX :: traits where
  "OSCMIX = \<lparr>reports_link_state_on_write = False, dumps_playback_matrix = False,
     reports_unchanged_registers = False\<rparr>"

record delivery =
  dl_origin :: int
  dl_sequence :: int
  dl_epoch :: bytes
  dl_payload :: bytes

record control =
  ct_sources :: int
  ct_closed :: bool
  ct_request_id :: int
  ct_lease :: "int option"
  ct_last_heartbeat :: rat
  ct_last_write :: rat
  ct_generation :: int
  ct_last_sequence :: int
  ct_queue :: "delivery list"
  ct_queue_bytes :: nat
  ct_epoch :: bytes
  ct_device_name :: bytes
  ct_lease_held :: bool
  ct_pid :: int
  ct_traits :: traits

text \<open>A request as it went onto the socket: kind, request number, code, token, payload.\<close>

type_synonym outgoing = frame

text \<open>What \<open>recvmsg\<close> yields: a datagram with its truncation flag (an empty one is a disconnect), or an error.\<close>

datatype arrival = Datagram bytes bool | RecvError "nat option"

text \<open>What \<open>send\<close> does: the number of bytes it took, or an error.\<close>

datatype submission = Sent nat | SendError "nat option"

record 'x world =
  now :: rat
  inbox :: "(rat \<times> arrival) list"
  sends :: "(rat \<times> submission) list"
  stops :: "bool list"
  outbox :: "outgoing list"
  acked :: "osc_message list"
  reported :: "osc_message list"
  control :: control
  beside :: 'x

text \<open>
  The field \<open>beside\<close> carries what the operations above the connection observe of the machine
  besides the backend; nothing in this theory reads or writes it.
\<close>

section \<open>Single steps\<close>

definition upd :: "(control \<Rightarrow> control) \<Rightarrow> ('x world, unit) action" where
  "upd f = change (\<lambda>w. w\<lparr>control := f (control w)\<rparr>)"

definition field :: "(control \<Rightarrow> 'a) \<Rightarrow> ('x world, 'a) action" where
  "field f = look (\<lambda>w. f (control w))"

definition close_control :: "('x world, unit) action" where
  "close_control = upd (\<lambda>c. c\<lparr>ct_closed := True, ct_lease := None, ct_queue := [], ct_queue_bytes := 0\<rparr>)"

definition closing :: "exc \<Rightarrow> ('x world, 'a) action" where
  "closing e = bind close_control (\<lambda>_. fail e)"

lemma closing_run [run_simps]:
  "closing e w = (Raise e, w\<lparr>control := (control w)\<lparr>ct_closed := True, ct_lease := None, ct_queue := [], ct_queue_bytes := 0\<rparr>\<rparr>)"
  by (simp add: closing_def close_control_def upd_def run_simps)

definition protocol_error :: "('x world, 'a) action" where
  "protocol_error = closing (BackendControlError (Some EPROTO))"

text \<open>The stop check answers from its script.\<close>

definition should_stop :: "('x world, bool) action" where
  "should_stop w = (case stops w of [] \<Rightarrow> (Ok False, w) | b # bs \<Rightarrow> (Ok b, w\<lparr>stops := bs\<rparr>))"

definition check_open :: "('x world, unit) action" where
  "check_open = bind (field ct_closed) (\<lambda>c.
     if c then fail (BackendControlError (Some ENOTCONN))
     else bind should_stop (\<lambda>s. if s then closing (BackendControlError (Some ECANCELED)) else give ()))"

text \<open>\<open>sock.send(packet)\<close>: the packet is on the socket unless the call failed.\<close>

definition transmit :: "outgoing \<Rightarrow> ('x world, nat) action" where
  "transmit r w = (case sends w of
       [] \<Rightarrow> (Ok (length (pack_packet r)), w\<lparr>outbox := outbox w @ [r]\<rparr>)
     | (d, Sent n) # rest \<Rightarrow> (Ok n, w\<lparr>now := now w + max 0 d, sends := rest, outbox := outbox w @ [r]\<rparr>)
     | (d, SendError errno) # rest \<Rightarrow> (Raise (OSErr errno), w\<lparr>now := now w + max 0 d, sends := rest\<rparr>))"

text \<open>A send timeout has no errno; \<open>exc.errno or errno.ETIMEDOUT\<close>.\<close>

definition errno_or :: "nat option \<Rightarrow> nat \<Rightarrow> nat" where
  "errno_or e n = (case e of None \<Rightarrow> n | Some m \<Rightarrow> if m = 0 then n else m)"

definition dispatch :: "outgoing \<Rightarrow> ('x world, int) action" where
  "dispatch packet = bind (attempt is_os_error (transmit packet)
       (\<lambda>e. closing (BackendControlError (Some (errno_or (errno_of e) ETIMEDOUT))))) (\<lambda>sent.
     if sent \<noteq> length (pack_packet packet) then closing (BackendControlError (Some EIO))
     else give (fst (snd packet)))"

text \<open>The token of a request: the lease's when given, else the generation last seen.\<close>

definition token_of :: "int option \<Rightarrow> control \<Rightarrow> int" where
  "token_of token c = (case token of None \<Rightarrow> ct_generation c | Some t \<Rightarrow> t)"

definition send_request :: "int \<Rightarrow> int \<Rightarrow> bytes \<Rightarrow> int option \<Rightarrow> ('x world, int) action" where
  "send_request kind code payload token =
     bind check_open (\<lambda>_. bind (field id) (\<lambda>c.
     if PAYLOAD < length payload \<or> ct_request_id c = 0xffffffff then closing (BackendControlError (Some EOVERFLOW))
     else bind (upd (\<lambda>c. c\<lparr>ct_request_id := ct_request_id c + 1\<rparr>)) (\<lambda>_.
       dispatch (kind, ct_request_id c + 1, code, token_of token c, payload))))"

text \<open>\<open>_receive\<close>: None when nothing arrived within the timeout, which is at least a millisecond.\<close>

definition arrived :: "arrival \<Rightarrow> ('x world, frame) action" where
  "arrived a = (case a of
       RecvError errno \<Rightarrow> closing (BackendControlError errno)
     | Datagram packet truncated \<Rightarrow>
         if packet = [] then closing (BackendControlError (Some ECONNRESET))
         else if length packet < HEADER_SIZE \<or> HEADER_SIZE + PAYLOAD < length packet \<or> truncated then protocol_error
         else if take 4 packet \<noteq> MAGIC then protocol_error
         else give (unpack_packet packet))"

definition socket_wait :: "rat \<Rightarrow> ('x world, arrival option) action" where
  "socket_wait t w = (case inbox w of
       [] \<Rightarrow> (Ok None, w\<lparr>now := now w + t\<rparr>)
     | (d, a) # rest \<Rightarrow>
         if d \<le> t then (Ok (Some a), w\<lparr>now := now w + max 0 d, inbox := rest\<rparr>)
         else (Ok None, w\<lparr>now := now w + t, inbox := (d - t, a) # rest\<rparr>))"

definition receive :: "rat \<Rightarrow> ('x world, frame option) action" where
  "receive timeout = bind check_open (\<lambda>_. bind (socket_wait (max (1 / 1000) timeout)) (\<lambda>a.
     case a of None \<Rightarrow> give None | Some x \<Rightarrow> bind (arrived x) (\<lambda>f. give (Some f))))"

text \<open>An unsolicited packet.\<close>

definition lease_event :: "int \<Rightarrow> int \<Rightarrow> bytes \<Rightarrow> ('x world, unit) action" where
  "lease_event code sequence payload = bind (field id) (\<lambda>c.
     if payload \<noteq> [] \<or> code \<notin> {ST_OK, ST_BUSY} \<or> sequence < ct_generation c then protocol_error
     else if ct_lease c \<noteq> None \<and> (ct_lease c \<noteq> Some sequence \<or> code \<noteq> ST_BUSY) then protocol_error
     else upd (\<lambda>c. c\<lparr>ct_generation := sequence, ct_lease_held := (code = ST_BUSY)\<rparr>))"

definition observation_event :: "int \<Rightarrow> int \<Rightarrow> bytes \<Rightarrow> ('x world, unit) action" where
  "observation_event code sequence payload = bind (field id) (\<lambda>c.
     if code \<notin> {SRC_DEVICE, SRC_DERIVED, SRC_METERS} \<or> code AND ct_sources c = 0 \<or> payload = []
       \<or> length payload mod 4 \<noteq> 0 \<or> sequence \<le> ct_last_sequence c \<or> ct_epoch c = [] then protocol_error
     else bind (upd (\<lambda>c. c\<lparr>ct_last_sequence := sequence\<rparr>)) (\<lambda>_.
       let size = HEADER_SIZE + length payload in
       if CONTROL_QUEUE_PACKETS \<le> length (ct_queue c) \<or> CONTROL_QUEUE_BYTES < ct_queue_bytes c + size
       then closing (BackendControlError (Some ENOBUFS))
       else upd (\<lambda>c. c\<lparr>ct_queue := ct_queue c @ [\<lparr>dl_origin = code, dl_sequence = sequence,
           dl_epoch = ct_epoch c, dl_payload = payload\<rparr>], ct_queue_bytes := ct_queue_bytes c + size\<rparr>)))"

definition event :: "frame \<Rightarrow> ('x world, unit) action" where
  "event fr = (case fr of (kind, request, code, sequence, payload) \<Rightarrow>
     if request \<noteq> 0 then protocol_error
     else if kind = EV_LEASE then lease_event code sequence payload
     else if kind = EV_WINDOW then
       (if payload \<noteq> [] \<or> code \<notin> {ST_OK, ST_BUSY} then protocol_error else give ())
     else if kind = EV_OBSERVATION then observation_event code sequence payload
     else protocol_error)"


section \<open>Loops\<close>

text \<open>
  Every loop of the connection waits in \<open>receive\<close>: a wait either takes a packet from the inbox or
  lets at least a millisecond pass, so the loops end at their deadline whatever arrives.
\<close>

definition ticks :: "rat \<Rightarrow> 'x world \<Rightarrow> nat" where
  "ticks deadline w = nat \<lceil>1000 * (deadline - now w)\<rceil>"

definition later :: "'x world \<Rightarrow> 'x world \<Rightarrow> bool" where
  "later w v \<longleftrightarrow> length (inbox v) \<le> length (inbox w) \<and> now w \<le> now v"

interpretation tm: action_frame later
  by unfold_locales (auto simp: later_def)

lemma keeps_later_upd [simp, intro]: "keeps later (upd f)"
  by (auto simp: upd_def later_def intro: keeps_change)

lemma keeps_later_field [simp, intro]: "keeps later (field f)"
  by (simp add: field_def)

lemma keeps_later_closing [simp, intro]: "keeps later (closing e)" "keeps later protocol_error"
  by (auto simp: closing_def protocol_error_def close_control_def)

lemma keeps_later_stop [simp, intro]: "keeps later should_stop"
  by (rule keepsI) (auto simp: should_stop_def later_def split: list.splits)

lemma keeps_later_check [simp, intro]: "keeps later check_open"
  unfolding check_open_def by (intro tm.keeps_bind tm.keeps_if keeps_later_field keeps_later_stop) auto

lemma keeps_later_transmit [simp, intro]: "keeps later (transmit r)"
  by (rule keepsI) (auto simp: transmit_def later_def split: list.splits submission.splits)

lemma keeps_later_send_request [simp, intro]: "keeps later (send_request k c p t)"
  unfolding send_request_def dispatch_def
  by (intro tm.keeps_bind tm.keeps_if tm.keeps_attempt) auto

lemma keeps_later_wait [simp, intro]: "0 \<le> t \<Longrightarrow> keeps later (socket_wait t)"
  by (rule keepsI) (auto simp: socket_wait_def later_def split: list.splits if_splits)

lemma keeps_later_arrived [simp, intro]: "keeps later (arrived a)"
  unfolding arrived_def by (cases a) auto

lemma keeps_later_receive [simp, intro]: "keeps later (receive t)"
  unfolding receive_def
  by (intro tm.keeps_bind tm.keeps_option) auto

lemma keeps_later_event [simp, intro]: "keeps later (event f)"
  unfolding event_def lease_event_def observation_event_def Let_def
  by (auto intro!: tm.keeps_bind split: prod.splits)

lemma receive_progress:
  assumes "receive t w = (Ok f, v)"
  shows "later w v \<and> (length (inbox v) < length (inbox w) \<or> now w + 1 / 1000 \<le> now v)
    \<and> (f = None \<longrightarrow> now w + max (1 / 1000) t \<le> now v)"
proof -
  obtain u a u' where u: "check_open w = (Ok (), u)" "socket_wait (max (1 / 1000) t) u = (Ok a, u')"
    and f: "(case a of None \<Rightarrow> give None | Some x \<Rightarrow> bind (arrived x) (\<lambda>f. give (Some f))) u' = (Ok f, v)"
    using assms by (auto simp: receive_def elim!: bind_returned)
  have 1: "later w u" using keepsD [OF keeps_later_check u(1)] .
  have 2: "later u u' \<and> (a = None \<and> now u' = now u + max (1 / 1000) t \<or> a \<noteq> None \<and> length (inbox u') < length (inbox u))"
    using u(2) by (auto simp: socket_wait_def later_def split: list.splits if_splits)
  have 3: "later u' v \<and> (a = None \<longleftrightarrow> f = None)"
    using f by (cases a) (auto simp: run_simps later_def elim!: bind_returned dest!: keepsD [OF keeps_later_arrived])
  show ?thesis using 1 2 3 by (auto simp: later_def)
qed

lemma ticks_pass: "now w + 1 / 1000 \<le> now v \<Longrightarrow> 0 < deadline - now w \<Longrightarrow> ticks deadline v < ticks deadline w"
proof -
  assume t: "now w + 1 / 1000 \<le> now v" "0 < deadline - now w"
  have "1000 * (deadline - now v) \<le> 1000 * (deadline - now w) - 1" using t(1) by simp
  then have "\<lceil>1000 * (deadline - now v)\<rceil> \<le> \<lceil>1000 * (deadline - now w) - 1\<rceil>" by (rule ceiling_mono)
  moreover have "0 < \<lceil>1000 * (deadline - now w)\<rceil>" using t(2) by simp
  ultimately show ?thesis by (simp add: ticks_def)
qed

text \<open>The measure of a loop that waits for a deadline: packets to come, then milliseconds to go.\<close>

definition waiting :: "rat \<Rightarrow> ('x world \<times> 'x world) set" where
  "waiting deadline = measures [\<lambda>w. length (inbox w), ticks deadline]"

lemma wf_waiting [simp, intro]: "wf (waiting deadline)"
  by (simp add: waiting_def)

lemma receive_waiting:
  assumes "receive t w = (Ok f, v)" and "0 < deadline - now w"
  shows "(v, w) \<in> waiting deadline"
  using receive_progress [OF assms(1)] ticks_pass [of w v deadline] assms(2)
  by (auto simp: waiting_def later_def)

lemma waiting_later: "later u w \<Longrightarrow> (v, w) \<in> waiting deadline \<Longrightarrow> (v, u) \<in> waiting deadline"
proof -
  assume l: "later u w" and v: "(v, w) \<in> waiting deadline"
  have "ticks deadline w \<le> ticks deadline u"
    using l by (auto simp: ticks_def later_def intro!: nat_mono ceiling_mono)
  then show ?thesis using l v by (auto simp: waiting_def later_def)
qed

lemma later_waiting: "(v, w) \<in> waiting deadline \<Longrightarrow> later v u \<Longrightarrow> (u, w) \<in> waiting deadline"
proof -
  assume l: "later v u" and v: "(v, w) \<in> waiting deadline"
  have "ticks deadline u \<le> ticks deadline v"
    using l by (auto simp: ticks_def later_def intro!: nat_mono ceiling_mono)
  then show ?thesis using l v by (auto simp: waiting_def later_def)
qed

text \<open>\<open>_acknowledgement\<close>: the reply of this request, events on the way handled.\<close>

definition reply_of :: "int \<Rightarrow> int \<Rightarrow> frame \<Rightarrow> ('x world, int \<times> int \<times> bytes) action" where
  "reply_of kind request fr = (case fr of (received, number, code, sequence, payload) \<Rightarrow>
     if received \<noteq> (kind OR REPLY) \<or> number \<noteq> request then protocol_error
     else if kind \<noteq> HELLO \<and> (payload \<noteq> [] \<or> code \<notin> {ST_OK, ST_BUSY, ST_INVALID, ST_NOT_OWNER}) then protocol_error
     else give (code, sequence, payload))"

definition is_reply :: "frame \<Rightarrow> bool" where
  "is_reply fr = (fst fr AND REPLY \<noteq> 0)"

function ack_loop :: "int \<Rightarrow> int \<Rightarrow> rat \<Rightarrow> 'x world \<Rightarrow> (int \<times> int \<times> bytes) res \<times> 'x world" where
  "ack_loop kind request deadline w =
     (if deadline - now w \<le> 0 then closing (BackendControlError (Some ETIMEDOUT)) w
      else bind (receive (min (deadline - now w) (1 / 4))) (\<lambda>f v. case f of
          None \<Rightarrow> ack_loop kind request deadline v
        | Some fr \<Rightarrow> if is_reply fr then reply_of kind request fr v
            else bind (event fr) (\<lambda>_ u. ack_loop kind request deadline u) v) w)"
  by pat_completeness auto
termination
proof (relation "measures [\<lambda>(k, r, d, w). length (inbox w), \<lambda>(k, r, d, w). ticks d w]")
  fix kind request deadline and w v :: "'x world" and f
  assume "\<not> deadline - now w \<le> 0"
    and "receive (min (deadline - now w) (1 / 4)) w = (Ok f, v)"
  then have v: "(v, w) \<in> waiting deadline" by (intro receive_waiting) simp_all
  then show "((kind, request, deadline, v), kind, request, deadline, w)
      \<in> measures [\<lambda>(k, r, d, w). length (inbox w), \<lambda>(k, r, d, w). ticks d w]"
    by (simp add: waiting_def)
  fix fr :: frame and u v' and x :: unit
  assume "event fr v = (Ok x, u)"
  then have "(u, w) \<in> waiting deadline"
    by (intro later_waiting [OF v]) (rule keepsD [OF keeps_later_event])
  then show "((kind, request, deadline, u), kind, request, deadline, w)
      \<in> measures [\<lambda>(k, r, d, w). length (inbox w), \<lambda>(k, r, d, w). ticks d w]"
    by (simp add: waiting_def)
qed auto



declare ack_loop.simps [simp del]

definition acknowledgement :: "int \<Rightarrow> int \<Rightarrow> ('x world, int \<times> int \<times> bytes) action" where
  "acknowledgement kind n w = ack_loop kind n (now w + CONTROL_ACK_TIMEOUT) w"

definition request :: "int \<Rightarrow> int \<Rightarrow> bytes \<Rightarrow> int option \<Rightarrow> ('x world, int \<times> int \<times> bytes) action" where
  "request kind code payload token =
     bind (send_request kind code payload token) (\<lambda>n. acknowledgement kind n)"

text \<open>The remaining changes of the connection's state, one by one.\<close>

definition discard :: "('x world, unit) action" where
  "discard = upd (\<lambda>c. c\<lparr>ct_queue := [], ct_queue_bytes := 0\<rparr>)"

definition take_lease :: "int \<Rightarrow> ('x world, unit) action" where
  "take_lease generation w = upd (\<lambda>c. c\<lparr>ct_lease := Some generation, ct_generation := generation,
     ct_last_heartbeat := now w\<rparr>) w"

definition drop_lease :: "('x world, unit) action" where
  "drop_lease = upd (\<lambda>c. c\<lparr>ct_lease := None\<rparr>)"

definition set_generation :: "int \<Rightarrow> ('x world, unit) action" where
  "set_generation generation = upd (\<lambda>c. c\<lparr>ct_generation := generation\<rparr>)"

definition note_beat :: "('x world, unit) action" where
  "note_beat w = upd (\<lambda>c. c\<lparr>ct_last_heartbeat := now w\<rparr>) w"

definition pop_delivery :: "('x world, delivery option) action" where
  "pop_delivery = bind (field ct_queue) (\<lambda>q. case q of
       [] \<Rightarrow> give None
     | d # rest \<Rightarrow> bind (upd (\<lambda>c. c\<lparr>ct_queue := rest,
           ct_queue_bytes := ct_queue_bytes c - (HEADER_SIZE + length (dl_payload d))\<rparr>)) (\<lambda>_. give (Some d)))"

definition note_reported :: "osc_message list \<Rightarrow> ('x world, unit) action" where
  "note_reported ms = change (\<lambda>w. w\<lparr>reported := reported w @ ms\<rparr>)"

text \<open>
  What a relation must tolerate to hold across every operation of the connection that writes
  nothing: each primitive step of it. The lemmas below carry it through the composed operations
  and their loops once; the relations used are elapsed time and packets, the silence of the write
  log, and the state invariants.
\<close>

locale connection_frame = action_frame R for R :: "'x world \<Rightarrow> 'x world \<Rightarrow> bool" +
  assumes keeps_stop: "keeps R should_stop"
    and keeps_socket: "0 \<le> t \<Longrightarrow> keeps R (socket_wait t)"
    and keeps_close: "keeps R close_control"
    and keeps_request: "kind \<noteq> WRITE \<Longrightarrow> keeps R (send_request kind code payload token)"
    and handled: "receive t w = (Ok (Some fr), v) \<Longrightarrow> R w (snd (event fr v))"
    and keeps_discard: "keeps R discard"
    and keeps_beat: "keeps R note_beat"
    and keeps_pop: "keeps R pop_delivery"
begin

lemma keeps_field: "keeps R (field f)"
  by (simp add: field_def)

lemma keeps_closing: "keeps R (closing e)"
  unfolding closing_def by (intro keeps_bind keeps_close keeps_pure)

lemma keeps_protocol_error: "keeps R protocol_error"
  unfolding protocol_error_def by (rule keeps_closing)

lemma keeps_check: "keeps R check_open"
  unfolding check_open_def
  by (intro keeps_bind keeps_if keeps_field keeps_stop keeps_closing keeps_pure)

lemma keeps_arrived: "keeps R (arrived a)"
  unfolding arrived_def by (cases a) (auto intro: keeps_closing keeps_protocol_error)

lemma keeps_receive: "keeps R (receive t)"
  unfolding receive_def
  by (intro keeps_bind keeps_option keeps_check keeps_socket keeps_arrived keeps_pure) simp

text \<open>One round of a loop: wait, then go on, or handle what arrived and go on.\<close>

lemma receive_at:
  assumes "\<And>v. receive t w = (Ok None, v) \<Longrightarrow> R v (snd (a v))"
    and "\<And>fr v. receive t w = (Ok (Some fr), v) \<Longrightarrow> R w (snd (b fr v))"
  shows "R w (snd (bind (receive t) (\<lambda>f v. case f of None \<Rightarrow> a v | Some fr \<Rightarrow> b fr v) w))"
proof (cases "receive t w")
  case (Pair r v)
  have v: "R w v" using keepsD [OF keeps_receive Pair] .
  show ?thesis
  proof (cases r)
    case (Inl e)
    with Pair v show ?thesis by (simp add: bind_def)
  next
    case (Inr f)
    with Pair assms v step show ?thesis by (cases f) (auto simp: bind_def)
  qed
qed

lemma event_at:
  assumes "receive t w = (Ok (Some fr), v)" and "\<And>x u. event fr v = (Ok x, u) \<Longrightarrow> R u (snd (g x u))"
  shows "R w (snd (bind (event fr) g v))"
proof (cases "event fr v")
  case (Pair r u)
  with handled [OF assms(1)] assms(2) step show ?thesis by (cases r) (auto simp: bind_def)
qed

lemma keeps_reply: "keeps R (reply_of k n f)"
  unfolding reply_of_def by (auto intro: keeps_protocol_error split: prod.splits)

lemma ack_loop_keeps: "R w (snd (ack_loop k n d w))"
proof (induction k n d w rule: ack_loop.induct)
  case (1 k n d w)
  show ?case
  proof (cases "d - now w \<le> 0")
    case True
    then show ?thesis by (subst ack_loop.simps) (simp add: keeps_run [OF keeps_closing])
  next
    case False
    have "R w (snd (bind (receive (min (d - now w) (1 / 4))) (\<lambda>f v. case f of
          None \<Rightarrow> ack_loop k n d v
        | Some fr \<Rightarrow> if is_reply fr then reply_of k n fr v
            else bind (event fr) (\<lambda>_ u. ack_loop k n d u) v) w))"
    proof (rule receive_at)
      show "R v (snd (ack_loop k n d v))" if r: "receive (min (d - now w) (1 / 4)) w = (Ok None, v)" for v
        using "1.IH"(1) [OF False r refl] .
    next
      fix fr v assume r: "receive (min (d - now w) (1 / 4)) w = (Ok (Some fr), v)"
      show "R w (snd (if is_reply fr then reply_of k n fr v else bind (event fr) (\<lambda>_ u. ack_loop k n d u) v))"
      proof (cases "is_reply fr")
        case True
        have "R w (snd (reply_of k n fr v))"
          by (rule step [OF keepsD [OF keeps_receive r] keeps_run [OF keeps_reply]])
        with True show ?thesis by simp
      next
        case no: False
        have "R w (snd (bind (event fr) (\<lambda>_ u. ack_loop k n d u) v))"
          by (rule event_at [OF r]) (rule "1.IH"(2) [OF False r refl no])
        with no show ?thesis by simp
      qed
    qed
    with False show ?thesis by (subst ack_loop.simps) simp
  qed
qed

lemma keeps_ack: "keeps R (acknowledgement k n)"
  using ack_loop_keeps by (simp add: keeps_def acknowledgement_def)

lemma keeps_exchange: "kind \<noteq> WRITE \<Longrightarrow> keeps R (request kind code payload token)"
  unfolding request_def by (intro keeps_bind keeps_request keeps_ack)

end

text \<open>Taking and giving up the operation lease are the remaining steps.\<close>

locale lease_frame = connection_frame R for R :: "'x world \<Rightarrow> 'x world \<Rightarrow> bool" +
  assumes keeps_take: "keeps R (take_lease g)"
    and keeps_drop: "keeps R drop_lease"
    and keeps_generation: "keeps R (set_generation g)"

lemma keeps_later_update [simp, intro]:
  "keeps later discard" "keeps later (take_lease g)" "keeps later drop_lease" "keeps later (set_generation g)"
  "keeps later note_beat" "keeps later pop_delivery" "keeps later (note_reported ms)" "keeps later close_control"
  by (auto simp: discard_def take_lease_def drop_lease_def set_generation_def note_beat_def pop_delivery_def
      note_reported_def close_control_def keeps_def upd_def run_simps later_def bind_def field_def
      split: list.splits)

lemma later_handled: "receive t w = (Ok (Some fr), v) \<Longrightarrow> later w (snd (event fr v))"
  by (rule tm.step [OF keepsD [OF keeps_later_receive] keeps_run [OF keeps_later_event]])

interpretation lt: lease_frame later
  by unfold_locales (auto intro: later_handled)


lemmas later_keeps [simp, intro] = lt.keeps_receive lt.keeps_ack lt.keeps_exchange lt.keeps_reply lt.keeps_arrived

section \<open>Operations\<close>

definition heartbeat :: "('x world, unit) action" where
  "heartbeat = bind check_open (\<lambda>_. bind (look (\<lambda>w. (ct_lease (control w), now w - ct_last_heartbeat (control w)))) (\<lambda>(lease, age).
     case lease of
       None \<Rightarrow> give ()
     | Some token \<Rightarrow>
         if age < CONTROL_HEARTBEAT then give ()
         else bind (request KEEPALIVE 0 [] (Some token)) (\<lambda>(code, generation, _).
           if code \<noteq> 0 \<or> generation \<noteq> token then protocol_error else note_beat)))"

definition finish :: "('x world, unit) action" where
  "finish = bind check_open (\<lambda>_. bind (field ct_lease) (\<lambda>lease. case lease of
       None \<Rightarrow> fail (OSErr (Some EPERM))
     | Some token \<Rightarrow> bind drop_lease (\<lambda>_. bind (request END 0 [] (Some token)) (\<lambda>(code, generation, _).
         if code \<noteq> 0 \<or> generation \<le> token then protocol_error else set_generation generation))))"

context connection_frame
begin

lemma keeps_heartbeat: "keeps R heartbeat"
  unfolding heartbeat_def
  by (intro keeps_bind keeps_check keeps_pure)
    (auto split: option.splits intro!: keeps_bind keeps_exchange keeps_protocol_error keeps_beat
      simp: KEEPALIVE_def WRITE_def)

end

context lease_frame
begin

lemma keeps_finish: "keeps R finish"
  unfolding finish_def
  by (intro keeps_bind keeps_check keeps_field)
    (auto split: option.splits intro!: keeps_bind keeps_exchange keeps_protocol_error keeps_drop
      keeps_generation simp: END_def WRITE_def)

end

text \<open>\<open>wait(seconds)\<close> keeps the lease alive and handles what arrives.\<close>

function wait_loop :: "rat \<Rightarrow> 'x world \<Rightarrow> unit res \<times> 'x world" where
  "wait_loop deadline w = bind heartbeat (\<lambda>_ v.
     if deadline - now v \<le> 0 then give () v
     else bind (receive (min (1 / 4) (deadline - now v))) (\<lambda>f u. case f of
         None \<Rightarrow> wait_loop deadline u
       | Some fr \<Rightarrow> bind (event fr) (\<lambda>_ t. wait_loop deadline t) u) v) w"
  by pat_completeness auto
termination
proof (relation "measures [\<lambda>(d, w). length (inbox w), \<lambda>(d, w). ticks d w]")
  fix deadline x f and w v u :: "'x world"
  assume h: "heartbeat w = (Ok x, v)" and d: "\<not> deadline - now v \<le> 0"
    and r: "receive (min (1 / 4) (deadline - now v)) v = (Ok f, u)"
  then have u: "(u, w) \<in> waiting deadline"
    by (intro waiting_later [OF keepsD [OF lt.keeps_heartbeat h]] receive_waiting [OF r]) simp
  then show "((deadline, u), deadline, w) \<in> measures [\<lambda>(d, w). length (inbox w), \<lambda>(d, w). ticks d w]"
    by (simp add: waiting_def)
  fix fr :: frame and y t
  assume "event fr u = (Ok y, t)"
  then have "(t, w) \<in> waiting deadline"
    by (intro later_waiting [OF u]) (rule keepsD [OF keeps_later_event])
  then show "((deadline, t), deadline, w) \<in> measures [\<lambda>(d, w). length (inbox w), \<lambda>(d, w). ticks d w]"
    by (simp add: waiting_def)
qed auto

declare wait_loop.simps [simp del]

definition wait_for :: "rat \<Rightarrow> ('x world, unit) action" where
  "wait_for seconds w = wait_loop (now w + seconds) w"

text \<open>\<open>next_delivery(timeout)\<close>: the oldest queued delivery, else the next one to arrive.\<close>

function delivery_loop :: "rat \<Rightarrow> 'x world \<Rightarrow> delivery option res \<times> 'x world" where
  "delivery_loop deadline w = bind heartbeat (\<lambda>_. bind pop_delivery (\<lambda>d v.
     if d \<noteq> None then give d v
     else if deadline - now v \<le> 0 then give None v
     else bind (receive (min (deadline - now v) (1 / 4))) (\<lambda>f u. case f of
         None \<Rightarrow> delivery_loop deadline u
       | Some fr \<Rightarrow> bind (event fr) (\<lambda>_ t. delivery_loop deadline t) u) v)) w"
  by pat_completeness auto
termination
proof (relation "measures [\<lambda>(d, w). length (inbox w), \<lambda>(d, w). ticks d w]")
  fix deadline x f d and w w' v u :: "'x world"
  assume h: "heartbeat w = (Ok x, w')" and p: "pop_delivery w' = (Ok d, v)" and d: "\<not> deadline - now v \<le> 0"
    and r: "receive (min (deadline - now v) (1 / 4)) v = (Ok f, u)"
  have "later w v"
    using keepsD [OF lt.keeps_heartbeat h] keepsD [OF lt.keeps_pop p] by (rule tm.step)
  then have u: "(u, w) \<in> waiting deadline"
    using d by (intro waiting_later [OF _ receive_waiting [OF r]]) simp_all
  then show "((deadline, u), deadline, w) \<in> measures [\<lambda>(d, w). length (inbox w), \<lambda>(d, w). ticks d w]"
    by (simp add: waiting_def)
  fix fr :: frame and y t
  assume "event fr u = (Ok y, t)"
  then have "(t, w) \<in> waiting deadline"
    by (intro later_waiting [OF u]) (rule keepsD [OF keeps_later_event])
  then show "((deadline, t), deadline, w) \<in> measures [\<lambda>(d, w). length (inbox w), \<lambda>(d, w). ticks d w]"
    by (simp add: waiting_def)
qed auto

declare delivery_loop.simps [simp del]

definition next_delivery :: "rat \<Rightarrow> ('x world, delivery option) action" where
  "next_delivery timeout w = delivery_loop (now w + timeout) w"

text \<open>\<open>messages(timeout)\<close>: the reports of one device-origin delivery, decoded as a whole.\<close>

definition messages :: "rat \<Rightarrow> ('x world, osc_message list) action" where
  "messages timeout = bind (next_delivery timeout) (\<lambda>d. case d of
       None \<Rightarrow> give []
     | Some dl \<Rightarrow>
         if dl_origin dl \<noteq> SRC_DEVICE then give []
         else bind (case decode_delivery (dl_payload dl) of
             Inl e \<Rightarrow> if e = ValueError then protocol_error else fail e
           | Inr ms \<Rightarrow> give ms) (\<lambda>ms. bind (note_reported ms) (\<lambda>_. give ms)))"


context connection_frame
begin

lemma wait_loop_keeps: "R w (snd (wait_loop d w))"
proof (induction d w rule: wait_loop.induct)
  case (1 d w)
  show ?case
  proof (subst wait_loop.simps, rule bind_at [OF keeps_run [OF keeps_heartbeat]])
    fix x v assume h: "heartbeat w = (Ok x, v)"
    show "R v (snd (if d - now v \<le> 0 then give () v
      else bind (receive (min (1 / 4) (d - now v))) (\<lambda>f u. case f of None \<Rightarrow> wait_loop d u
        | Some fr \<Rightarrow> bind (event fr) (\<lambda>_ t. wait_loop d t) u) v))"
    proof (cases "d - now v \<le> 0")
      case True
      then show ?thesis by (simp add: keeps_run [OF keeps_pure(1)])
    next
      case False
      have "R v (snd (bind (receive (min (1 / 4) (d - now v))) (\<lambda>f u. case f of None \<Rightarrow> wait_loop d u
          | Some fr \<Rightarrow> bind (event fr) (\<lambda>_ t. wait_loop d t) u) v))"
      proof (rule receive_at)
        show "R u (snd (wait_loop d u))" if r: "receive (min (1 / 4) (d - now v)) v = (Ok None, u)" for u
          using "1.IH"(1) [OF h False r refl] .
        show "R v (snd (bind (event fr) (\<lambda>_ t. wait_loop d t) u))"
          if r: "receive (min (1 / 4) (d - now v)) v = (Ok (Some fr), u)" for fr u
          by (rule event_at [OF r]) (rule "1.IH"(2) [OF h False r refl])
      qed
      with False show ?thesis by simp
    qed
  qed
qed

lemma delivery_loop_keeps: "R w (snd (delivery_loop d w))"
proof (induction d w rule: delivery_loop.induct)
  case (1 d w)
  show ?case
  proof (subst delivery_loop.simps, rule bind_at [OF keeps_run [OF keeps_heartbeat]],
      rule bind_at [OF keeps_run [OF keeps_pop]])
    fix x w' p v assume h: "heartbeat w = (Ok x, w')" and p: "pop_delivery w' = (Ok p, v)"
    show "R v (snd (if p \<noteq> None then give p v else if d - now v \<le> 0 then give None v
      else bind (receive (min (d - now v) (1 / 4))) (\<lambda>f u. case f of None \<Rightarrow> delivery_loop d u
        | Some fr \<Rightarrow> bind (event fr) (\<lambda>_ t. delivery_loop d t) u) v))"
    proof (cases "p \<noteq> None \<or> d - now v \<le> 0")
      case True
      then show ?thesis by (auto simp: keeps_run [OF keeps_pure(1)])
    next
      case False
      then have no: "\<not> p \<noteq> None" "\<not> d - now v \<le> 0" by simp_all
      have "R v (snd (bind (receive (min (d - now v) (1 / 4))) (\<lambda>f u. case f of None \<Rightarrow> delivery_loop d u
          | Some fr \<Rightarrow> bind (event fr) (\<lambda>_ t. delivery_loop d t) u) v))"
      proof (rule receive_at)
        show "R u (snd (delivery_loop d u))" if r: "receive (min (d - now v) (1 / 4)) v = (Ok None, u)" for u
          using "1.IH"(1) [OF h p no r refl] .
        show "R v (snd (bind (event fr) (\<lambda>_ t. delivery_loop d t) u))"
          if r: "receive (min (d - now v) (1 / 4)) v = (Ok (Some fr), u)" for fr u
          by (rule event_at [OF r]) (rule "1.IH"(2) [OF h p no r refl])
      qed
      with no show ?thesis by simp
    qed
  qed
qed

lemma keeps_wait: "keeps R (wait_for s)"
  using wait_loop_keeps by (simp add: keeps_def wait_for_def)

lemma keeps_delivery: "keeps R (next_delivery s)"
  using delivery_loop_keeps by (simp add: keeps_def next_delivery_def)

lemma keeps_messages:
  assumes "\<And>ms. keeps R (note_reported ms)"
  shows "keeps R (messages t)"
  unfolding messages_def
  by (intro keeps_bind keeps_delivery)
    (auto split: option.splits sum.splits intro!: keeps_bind keeps_protocol_error assms)

end


text \<open>A request that was answered took at least one packet, so asking again ends as well.\<close>

lemma receive_some: "receive t w = (Ok (Some fr), v) \<Longrightarrow> length (inbox v) < length (inbox w)"
proof -
  assume r: "receive t w = (Ok (Some fr), v)"
  then obtain u a u' where u: "check_open w = (Ok (), u)" "socket_wait (max (1 / 1000) t) u = (Ok a, u')"
    and f: "(case a of None \<Rightarrow> give None | Some x \<Rightarrow> bind (arrived x) (\<lambda>f. give (Some f))) u' = (Ok (Some fr), v)"
    by (auto simp: receive_def elim!: bind_returned)
  then obtain x where a: "a = Some x" by (cases a) (simp_all add: run_simps)
  have "length (inbox u') < length (inbox u)"
    using u(2) a by (auto simp: socket_wait_def split: list.splits if_splits)
  moreover have "later w u" using keepsD [OF keeps_later_check u(1)] .
  moreover have "later u' v" using f a
    by (auto simp: run_simps later_def elim!: bind_returned dest!: keepsD [OF keeps_later_arrived])
  ultimately show ?thesis by (simp add: later_def)
qed

lemma ack_loop_consumes: "ack_loop k n d w = (Ok x, v) \<Longrightarrow> length (inbox v) < length (inbox w)"
proof (induction k n d w arbitrary: x v rule: ack_loop.induct)
  case (1 k n d w)
  have d: "\<not> d - now w \<le> 0"
  proof
    assume "d - now w \<le> 0"
    with 1(3) show False
      by (subst (asm) ack_loop.simps) (simp add: closing_def close_control_def upd_def run_simps)
  qed
  with 1(3) have "bind (receive (min (d - now w) (1 / 4))) (\<lambda>f v. case f of
        None \<Rightarrow> ack_loop k n d v
      | Some fr \<Rightarrow> if is_reply fr then reply_of k n fr v
          else bind (event fr) (\<lambda>_ u. ack_loop k n d u) v) w = (Ok x, v)"
    by (subst (asm) ack_loop.simps) simp
  then obtain f u where r: "receive (min (d - now w) (1 / 4)) w = (Ok f, u)"
    and go: "(case f of None \<Rightarrow> ack_loop k n d u
      | Some fr \<Rightarrow> if is_reply fr then reply_of k n fr u
          else bind (event fr) (\<lambda>_ u. ack_loop k n d u) u) = (Ok x, v)"
    by (rule bind_returned)
  have u: "length (inbox u) \<le> length (inbox w)"
    using keepsD [OF lt.keeps_receive r] by (simp add: later_def)
  show ?case
  proof (cases f)
    case None
    with go 1(1) [OF d r None] u show ?thesis by fastforce
  next
    case (Some fr)
    with r have less: "length (inbox u) < length (inbox w)" by (auto intro: receive_some)
    have "later u v"
    proof (cases "is_reply fr")
      case True
      with go Some show ?thesis using keepsD [OF lt.keeps_reply] by simp blast
    next
      case no: False
      with go Some obtain y t where "event fr u = (Ok y, t)" "ack_loop k n d t = (Ok x, v)"
        by (auto elim: bind_returned)
      then have "later u t" "later t v"
        using keepsD [OF keeps_later_event] lt.ack_loop_keeps [of t k n d] by (blast, simp)
      then show ?thesis by (rule tm.step)
    qed
    with less show ?thesis by (simp add: later_def)
  qed
qed

lemma request_consumes: "request k c p t w = (Ok x, v) \<Longrightarrow> length (inbox v) < length (inbox w)"
proof -
  assume "request k c p t w = (Ok x, v)"
  then obtain n u where u: "send_request k c p t w = (Ok n, u)" "ack_loop k n (now u + CONTROL_ACK_TIMEOUT) u = (Ok x, v)"
    by (auto simp: request_def acknowledgement_def elim!: bind_returned)
  then show ?thesis
    using keepsD [OF keeps_later_send_request u(1)] ack_loop_consumes [OF u(2)] by (simp add: later_def)
qed

text \<open>\<open>begin\<close>: ask for the operation lease until it is granted, refused or the time is up.\<close>

function begin_loop :: "rat \<Rightarrow> 'x world \<Rightarrow> unit res \<times> 'x world" where
  "begin_loop deadline w = bind (request BEGIN 0 [] None) (\<lambda>rep v.
     bind discard (\<lambda>_ u.
       if fst rep = ST_OK then take_lease (fst (snd rep)) u
       else if fst rep = ST_NOT_OWNER then fail (OSErr (Some EPERM)) u
       else if fst rep \<noteq> ST_BUSY \<or> deadline \<le> now u then fail (OSErr (Some EBUSY)) u
       else bind (wait_for (min (1 / 10) (max 0 (deadline - now u)))) (\<lambda>_ t. begin_loop deadline t) u) v) w"
  by pat_completeness auto
termination
proof (relation "measure (\<lambda>(d, w). length (inbox w))")
  fix deadline rep y z and w v u t :: "'x world"
  assume "request BEGIN 0 [] None w = (Ok rep, v)" and "discard v = (Ok y, u)"
    and "wait_for (min (1 / 10) (max 0 (deadline - now u))) u = (Ok z, t)"
  then have "length (inbox v) < length (inbox w)" "later v u" "later u t"
    using keepsD [OF keeps_later_update(1)] keepsD [OF lt.keeps_wait] by (auto dest: request_consumes)
  then show "((deadline, t), deadline, w) \<in> measure (\<lambda>(d, w). length (inbox w))"
    by (simp add: later_def)
qed simp

declare begin_loop.simps [simp del]

definition begin_operation :: "rat \<Rightarrow> ('x world, unit) action" where
  "begin_operation timeout = bind (field ct_lease) (\<lambda>lease.
     if lease \<noteq> None then fail (OSErr (Some EALREADY)) else (\<lambda>w. begin_loop (now w + timeout) w))"

text \<open>\<open>request_dump\<close>: ask for a refresh; what was queued before its acknowledgement is discarded.\<close>

function dump_loop :: "rat \<Rightarrow> 'x world \<Rightarrow> unit res \<times> 'x world" where
  "dump_loop deadline w = bind heartbeat (\<lambda>_ w'. bind (field ct_lease) (\<lambda>lease w''. bind (request REFRESH 0 [] lease) (\<lambda>rep v.
     bind discard (\<lambda>_ u.
       if fst rep = ST_OK then give () u
       else if fst rep \<noteq> ST_BUSY \<or> deadline \<le> now u then fail (BackendControlError (Some EBUSY)) u
       else bind (wait_for (min (1 / 10) (max 0 (deadline - now u)))) (\<lambda>_ t. dump_loop deadline t) u) v) w'') w') w"
  by pat_completeness auto
termination
proof (relation "measure (\<lambda>(d, w). length (inbox w))")
  fix deadline h lease rep y z and w w' w'' v u t :: "'x world"
  assume "heartbeat w = (Ok h, w')" and "field ct_lease w' = (Ok lease, w'')"
    and "request REFRESH 0 [] lease w'' = (Ok rep, v)" and "discard v = (Ok y, u)"
    and "wait_for (min (1 / 10) (max 0 (deadline - now u))) u = (Ok z, t)"
  then have "later w w'" "later w' w''" "length (inbox v) < length (inbox w'')" "later v u" "later u t"
    using keepsD [OF keeps_later_update(1)] keepsD [OF lt.keeps_wait] keepsD [OF lt.keeps_heartbeat]
      keepsD [OF keeps_later_field] by (auto dest: request_consumes)
  then show "((deadline, t), deadline, w) \<in> measure (\<lambda>(d, w). length (inbox w))"
    by (simp add: later_def)
qed simp

declare dump_loop.simps [simp del]

definition request_dump :: "('x world, unit) action" where
  "request_dump w = dump_loop (now w + 12) w"


context connection_frame
begin

lemma dump_loop_keeps: "R w (snd (dump_loop d w))"
proof (induction d w rule: dump_loop.induct)
  case (1 d w)
  show ?case
  proof (subst dump_loop.simps, rule bind_at [OF keeps_run [OF keeps_heartbeat]],
      rule bind_at [OF keeps_run [OF keeps_field]], rule bind_at [OF keeps_run [OF keeps_exchange]],
      simp add: REFRESH_def WRITE_def, rule bind_at [OF keeps_run [OF keeps_discard]])
    fix h w' lease w'' rep v x u
    assume h: "heartbeat w = (Ok h, w')" and l: "field ct_lease w' = (Ok lease, w'')"
      and r: "request REFRESH 0 [] lease w'' = (Ok rep, v)" and u: "discard v = (Ok x, u)"
    show "R u (snd (if fst rep = ST_OK then give () u
       else if fst rep \<noteq> ST_BUSY \<or> d \<le> now u then fail (BackendControlError (Some EBUSY)) u
       else bind (wait_for (min (1 / 10) (max 0 (d - now u)))) (\<lambda>_ t. dump_loop d t) u))"
    proof (cases "fst rep = ST_OK \<or> fst rep \<noteq> ST_BUSY \<or> d \<le> now u")
      case True
      then show ?thesis
        by (auto simp: keeps_run [OF keeps_pure(1)] keeps_run [OF keeps_pure(2)])
    next
      case False
      then have no: "fst rep \<noteq> ST_OK" "\<not> (fst rep \<noteq> ST_BUSY \<or> d \<le> now u)" by simp_all
      have "R u (snd (bind (wait_for (min (1 / 10) (max 0 (d - now u)))) (\<lambda>_ t. dump_loop d t) u))"
        by (rule bind_at [OF keeps_run [OF keeps_wait]]) (rule 1 [OF h l r u no])
      with no show ?thesis by simp
    qed
  qed
qed

lemma keeps_dump: "keeps R request_dump"
  using dump_loop_keeps by (simp add: keeps_def request_dump_def)

end

context lease_frame
begin

lemma begin_loop_keeps: "R w (snd (begin_loop d w))"
proof (induction d w rule: begin_loop.induct)
  case (1 d w)
  show ?case
  proof (subst begin_loop.simps, rule bind_at [OF keeps_run [OF keeps_exchange]],
      simp add: BEGIN_def WRITE_def, rule bind_at [OF keeps_run [OF keeps_discard]])
    fix rep v x u assume r: "request BEGIN 0 [] None w = (Ok rep, v)" and u: "discard v = (Ok x, u)"
    show "R u (snd (if fst rep = ST_OK then take_lease (fst (snd rep)) u
       else if fst rep = ST_NOT_OWNER then fail (OSErr (Some EPERM)) u
       else if fst rep \<noteq> ST_BUSY \<or> d \<le> now u then fail (OSErr (Some EBUSY)) u
       else bind (wait_for (min (1 / 10) (max 0 (d - now u)))) (\<lambda>_ t. begin_loop d t) u))"
    proof (cases "fst rep = ST_OK \<or> fst rep = ST_NOT_OWNER \<or> fst rep \<noteq> ST_BUSY \<or> d \<le> now u")
      case True
      then show ?thesis
        by (auto simp: keeps_run [OF keeps_take] keeps_run [OF keeps_pure(2)])
    next
      case False
      then have no: "fst rep \<noteq> ST_OK" "fst rep \<noteq> ST_NOT_OWNER" "\<not> (fst rep \<noteq> ST_BUSY \<or> d \<le> now u)"
        by simp_all
      have "R u (snd (bind (wait_for (min (1 / 10) (max 0 (d - now u)))) (\<lambda>_ t. begin_loop d t) u))"
        by (rule bind_at [OF keeps_run [OF keeps_wait]]) (rule 1 [OF r u no])
      with no show ?thesis by simp
    qed
  qed
qed

lemma keeps_begin: "keeps R (begin_operation t)"
  unfolding begin_operation_def
  by (intro keeps_bind keeps_field) (use begin_loop_keeps in \<open>auto simp: keeps_def fail_def same\<close>)

end

section \<open>Writing\<close>

text \<open>
  \<open>send\<close>: one acknowledged WRITE per message. A failure before the packet left counts the message
  as unwritten; once it was submitted it counts as written, because it may have reached the device;
  a refusal in the reply counts it as unwritten again.
\<close>

definition paths_of :: "osc_message list \<Rightarrow> string list" where
  "paths_of ms = map fst ms"

definition note_written :: "osc_message \<Rightarrow> ('x world, unit) action" where
  "note_written m = change (\<lambda>w. w\<lparr>acked := acked w @ [m], control := control w\<lparr>ct_last_write := now w\<rparr>\<rparr>)"

definition paced :: "('x world, unit) action" where
  "paced = bind (look (\<lambda>w. WRITE_PACE - (now w - ct_last_write (control w)))) (\<lambda>gap.
     if 0 < gap then wait_for gap else give ())"

definition submit :: "osc_message \<Rightarrow> ('x world, int) action" where
  "submit m = (case m of (path, tags, args) \<Rightarrow>
     bind paced (\<lambda>_. bind heartbeat (\<lambda>_. bind (lift (encode_osc path tags args)) (\<lambda>payload.
     bind (field ct_lease) (\<lambda>lease. send_request WRITE 0 payload lease)))))"

definition confirm_write :: "int \<Rightarrow> ('x world, int) action" where
  "confirm_write n = bind (acknowledgement WRITE n) (\<lambda>(code, generation, _).
     bind (field ct_lease) (\<lambda>lease.
     if code = ST_OK \<and> lease \<noteq> Some generation then protocol_error else give code))"

fun send_burst :: "string list \<Rightarrow> osc_message list \<Rightarrow> ('x world, unit) action" where
  "send_burst written [] = give ()"
| "send_burst written (m # rest) =
     bind (attempt is_os_error (submit m) (\<lambda>e. fail (WriteFailed (errno_of e) written (fst m # paths_of rest)))) (\<lambda>n.
     bind (attempt is_os_error (confirm_write n) (\<lambda>e. fail (WriteFailed (errno_of e) (written @ [fst m]) (paths_of rest)))) (\<lambda>code.
     if code \<noteq> 0 then fail (WriteFailed (Some (if code = ST_BUSY then EBUSY else EPROTO)) written (fst m # paths_of rest))
     else bind (note_written m) (\<lambda>_. send_burst (written @ [fst m]) rest)))"

definition send_messages :: "osc_message list \<Rightarrow> ('x world, unit) action" where
  "send_messages burst = bind (field ct_lease) (\<lambda>lease.
     if lease = None then fail (WriteFailed (Some EPERM) [] (paths_of burst)) else send_burst [] burst)"

section \<open>Connecting\<close>

text \<open>Strict UTF-8, as \<open>bytes.decode("utf-8", "strict")\<close> accepts it.\<close>

definition continuation :: "8 word \<Rightarrow> bool" where
  "continuation b = (0x80 \<le> b \<and> b \<le> 0xBF)"

fun is_utf8 :: "bytes \<Rightarrow> bool" where
  "is_utf8 [] = True"
| "is_utf8 (a # rest) =
     (if a < 0x80 then is_utf8 rest
      else case rest of [] \<Rightarrow> False | b # rest \<Rightarrow>
        if 0xC2 \<le> a \<and> a \<le> 0xDF then continuation b \<and> is_utf8 rest
        else case rest of [] \<Rightarrow> False | c # rest \<Rightarrow>
          if 0xE0 \<le> a \<and> a \<le> 0xEF then
            continuation b \<and> continuation c \<and> (a = 0xE0 \<longrightarrow> 0xA0 \<le> b) \<and> (a = 0xED \<longrightarrow> b \<le> 0x9F) \<and> is_utf8 rest
          else case rest of [] \<Rightarrow> False | d # rest \<Rightarrow>
            0xF0 \<le> a \<and> a \<le> 0xF4 \<and> continuation b \<and> continuation c \<and> continuation d
            \<and> (a = 0xF0 \<longrightarrow> 0x90 \<le> b) \<and> (a = 0xF4 \<longrightarrow> b \<le> 0x8F) \<and> is_utf8 rest)"

definition new_control :: "int \<Rightarrow> control res" where
  "new_control sources =
     (if sources < 1 \<or> sources AND NOT (SRC_DEVICE OR SRC_DERIVED OR SRC_METERS) \<noteq> 0 then Raise ValueError
      else Ok \<lparr>ct_sources = sources, ct_closed = False, ct_request_id = 0, ct_lease = None, ct_last_heartbeat = 0,
        ct_last_write = 0, ct_generation = 0, ct_last_sequence = 0, ct_queue = [], ct_queue_bytes = 0,
        ct_epoch = [], ct_device_name = [], ct_lease_held = False, ct_pid = - 1, ct_traits = OSCMIX\<rparr>)"

text \<open>
  \<open>_connect\<close>. What the file system and the kernel say comes in: whether the path is a socket, how
  the connect ended, and the credentials of the peer.
\<close>

type_synonym credentials = "int \<times> int \<times> int"

definition differs :: "int option \<Rightarrow> int \<Rightarrow> bool" where
  "differs expected actual = (case expected of None \<Rightarrow> False | Some x \<Rightarrow> actual \<noteq> x)"

definition handshake :: "bool \<Rightarrow> unit res \<Rightarrow> credentials \<Rightarrow> int \<Rightarrow> int option \<Rightarrow> int option \<Rightarrow> bool \<Rightarrow> ('x world, unit) action" where
  "handshake is_socket joined peer expected_pid expected_uid expected_gid reader = (case peer of (pid, uid, gid) \<Rightarrow>
     if \<not> is_socket then fail (OSErr (Some EPERM))
     else bind (lift joined) (\<lambda>_. bind (upd (\<lambda>c. c\<lparr>ct_pid := pid\<rparr>)) (\<lambda>_.
       if pid \<noteq> expected_pid \<or> differs expected_uid uid \<or> differs expected_gid gid then fail (OSErr (Some EPERM))
       else bind (field ct_sources) (\<lambda>sources.
         bind (request HELLO (if reader then ROLE_READER else ROLE_DESK) (be32 sources) None) (\<lambda>(code, generation, payload).
         let name = butlast (drop HELLO_REPLY_SIZE payload) in
         if code \<noteq> ST_OK \<or> length payload \<le> HELLO_REPLY_SIZE \<or> last payload \<noteq> 0 \<or> 0 \<in> set name
         then fail (OSErr (Some EPROTO))
         else if unbe32 (slice payload 16 20) \<noteq> pid \<or> unbe32 (slice payload 20 24) \<noteq> VERSION
         then fail (OSErr (Some EPROTO))
         else bind (upd (\<lambda>c. c\<lparr>ct_epoch := take 16 payload\<rparr>)) (\<lambda>_.
           if \<not> is_utf8 name then fail ValueError
           else upd (\<lambda>c. c\<lparr>ct_device_name := name, ct_generation := generation\<rparr>)))))))"

text \<open>The constructor: a failed handshake leaves a closed connection; one that is no OSError becomes one.\<close>

definition connect :: "int \<Rightarrow> bool \<Rightarrow> unit res \<Rightarrow> credentials \<Rightarrow> int \<Rightarrow> int option \<Rightarrow> int option \<Rightarrow> bool \<Rightarrow> ('x world, unit) action" where
  "connect sources is_socket joined peer expected_pid expected_uid expected_gid reader =
     bind (lift (new_control sources)) (\<lambda>c. bind (upd (\<lambda>_. c)) (\<lambda>_.
     attempt (\<lambda>e. is_os_error e \<or> e = ValueError \<or> e = StructError)
       (handshake is_socket joined peer expected_pid expected_uid expected_gid reader)
       (\<lambda>e. closing (if is_os_error e then e else OSErr (Some EPROTO)))))"

end
