(* ===== verification/Draining.thy ===== *)
theory Draining
  imports Backend
begin

text \<open>
  Reading reports makes progress: every delivery handed out shortens the inbox or the queue, and a
  read that returns nothing let its time pass. The loops of the operations above the connection
  end by this measure.
\<close>

definition drains :: "'x world \<Rightarrow> 'x world \<Rightarrow> bool" where
  "drains w v \<longleftrightarrow> now w \<le> now v \<and> (length (inbox v) < length (inbox w)
     \<or> length (inbox v) = length (inbox w) \<and> length (ct_queue (control v)) \<le> length (ct_queue (control w)))"

interpretation dr: action_frame drains
  by unfold_locales (auto simp: drains_def)

lemma drains_upd: "(\<And>c. length (ct_queue (f c)) \<le> length (ct_queue c)) \<Longrightarrow> keeps drains (upd f)"
  by (rule keepsI) (auto simp: upd_def run_simps drains_def)

lemma drains_closing: "keeps drains (closing e)"
  by (rule keepsI) (auto simp: run_simps drains_def)

lemma drains_stop: "keeps drains should_stop"
  by (rule keepsI) (auto simp: should_stop_def drains_def split: list.splits)

lemma drains_check: "keeps drains check_open"
  unfolding check_open_def
  by (intro dr.keeps_bind dr.keeps_if drains_stop drains_closing dr.keeps_pure) (simp add: field_def)

lemma drains_transmit: "keeps drains (transmit r)"
  by (rule keepsI) (auto simp: transmit_def drains_def split: list.splits submission.splits)

lemma drains_receive_event: "receive t w = (Ok (Some fr), v) \<Longrightarrow> drains w (snd (event fr v))"
proof -
  assume r: "receive t w = (Ok (Some fr), v)"
  have "later v (snd (event fr v))" by (rule keeps_run [OF keeps_later_event])
  moreover have "length (inbox v) < length (inbox w)" using r by (rule receive_some)
  moreover have "later w v" using keepsD [OF keeps_later_receive r] .
  ultimately show ?thesis by (simp add: later_def drains_def)
qed

interpretation drain: connection_frame drains
proof unfold_locales
  show "keeps drains (send_request kind code payload token)" if "kind \<noteq> WRITE" for kind code payload token
    unfolding send_request_def dispatch_def
    by (intro dr.keeps_bind dr.keeps_if dr.keeps_attempt drains_check drains_closing drains_upd drains_transmit dr.keeps_pure)
      (simp_all add: field_def)
  show "keeps drains (socket_wait t)" if "0 \<le> t" for t
    using that by (intro keepsI) (auto simp: socket_wait_def drains_def split: list.splits if_splits)
  show "keeps drains close_control" unfolding close_control_def by (rule drains_upd) simp
  show "keeps drains pop_delivery"
    by (rule keepsI) (auto simp: pop_delivery_def field_def upd_def run_simps drains_def split: list.splits)
  show "keeps drains discard" unfolding discard_def by (rule drains_upd) simp
  show "keeps drains note_beat" by (rule keepsI) (auto simp: note_beat_def upd_def run_simps drains_def)
qed (auto intro: drains_stop drains_receive_event)

definition shorter :: "'x world \<Rightarrow> 'x world \<Rightarrow> bool" where
  "shorter w v \<longleftrightarrow> length (inbox v) < length (inbox w)
     \<or> length (inbox v) = length (inbox w) \<and> length (ct_queue (control v)) < length (ct_queue (control w))"

lemma shorter_drains: "drains w v \<Longrightarrow> shorter v u \<Longrightarrow> shorter w u"
  by (auto simp: shorter_def drains_def)

lemma pop_shorter: "pop_delivery w = (Ok (Some d), v) \<Longrightarrow> shorter w v"
  by (auto simp: pop_delivery_def field_def upd_def run_simps shorter_def split: list.splits)

lemma delivery_loop_progress:
  "delivery_loop d w = (Ok x, v) \<Longrightarrow> (case x of None \<Rightarrow> d \<le> now v | Some _ \<Rightarrow> shorter w v)"
proof (induction d w arbitrary: x v rule: delivery_loop.induct)
  case (1 d w)
  from 1(3) obtain y w' p u where h: "heartbeat w = (Ok y, w')" and p: "pop_delivery w' = (Ok p, u)"
    and go: "(if p \<noteq> None then give p u else if d - now u \<le> 0 then give None u
      else bind (receive (min (d - now u) (1 / 4))) (\<lambda>f u. case f of None \<Rightarrow> delivery_loop d u
        | Some fr \<Rightarrow> bind (event fr) (\<lambda>_ t. delivery_loop d t) u) u) = (Ok x, v)"
    by (subst (asm) delivery_loop.simps) (elim bind_returned)
  have w': "drains w w'" using keepsD [OF drain.keeps_heartbeat h] .
  have u: "drains w u" using w' keepsD [OF drain.keeps_pop p] by (rule dr.step)
  show ?case
  proof (cases p)
    case (Some dl)
    with go p pop_shorter [of w' dl u] w' show ?thesis
      by (auto simp: run_simps intro: shorter_drains)
  next
    case None
    then have np: "\<not> p \<noteq> None" by simp
    show ?thesis
    proof (cases "d - now u \<le> 0")
      case True
      with go None show ?thesis by (auto simp: run_simps)
    next
      case False
      with go None obtain f t where r: "receive (min (d - now u) (1 / 4)) u = (Ok f, t)"
        and go': "(case f of None \<Rightarrow> delivery_loop d t | Some fr \<Rightarrow> bind (event fr) (\<lambda>_ t. delivery_loop d t) t) = (Ok x, v)"
        by (auto elim: bind_returned)
      show ?thesis
      proof (cases f)
        case None
        have "drains u t" using keepsD [OF drain.keeps_receive r] .
        then have "drains w t" using u by (blast intro: dr.step)
        then show ?thesis using 1(1) [OF h p np False r None] go' None
          by (cases x) (auto intro: shorter_drains)
      next
        case (Some fr)
        with go' obtain z s where e: "event fr t = (Ok z, s)" and l: "delivery_loop d s = (Ok x, v)"
          by (auto elim: bind_returned)
        have "drains u s" using drains_receive_event [OF r [unfolded Some]] e by simp
        then have "drains w s" using u by (blast intro: dr.step)
        then show ?thesis using 1(2) [OF h p np False r Some e l] by (cases x) (auto intro: shorter_drains)
      qed
    qed
  qed
qed

text \<open>A loop that reads reports until a deadline.\<close>

definition reading :: "rat \<Rightarrow> ('x world \<times> 'x world) set" where
  "reading deadline = measures [\<lambda>w. length (inbox w), \<lambda>w. length (ct_queue (control w)), ticks deadline]"

lemma wf_reading [simp, intro]: "wf (reading deadline)"
  by (simp add: reading_def)

lemma ticks_mono: "now w \<le> now v \<Longrightarrow> ticks d v \<le> ticks d w"
  by (auto simp: ticks_def intro!: nat_mono ceiling_mono)

lemma reading_drains: "drains u w \<Longrightarrow> (v, w) \<in> reading d \<Longrightarrow> (v, u) \<in> reading d"
  using ticks_mono [of u w d] by (auto simp: reading_def drains_def)

lemma bind_closing [run_simps]: "bind (closing e) f w = (Raise e, snd (closing e w :: unit res \<times> 'x world))"
  by (simp add: bind_def closing_run)

lemma messages_reading:
  assumes m: "messages t w = (Ok ms, v)" and t: "0 < t" and d: "0 < d - now w" and enough: "1 / 1000 \<le> t \<or> d - now w \<le> t"
  shows "(v, w) \<in> reading d"
proof -
  from m obtain x u where n: "delivery_loop (now w + t) w = (Ok x, u)"
    and rest: "(case x of None \<Rightarrow> give [] | Some dl \<Rightarrow>
         if dl_origin dl \<noteq> SRC_DEVICE then give []
         else bind (case decode_delivery (dl_payload dl) of
             Inl e \<Rightarrow> if e = ValueError then protocol_error else fail e
           | Inr ms \<Rightarrow> give ms) (\<lambda>ms. bind (note_reported ms) (\<lambda>_. give ms))) u = (Ok ms, v)"
    unfolding messages_def next_delivery_def by (elim bind_returned)
  have dr: "drains w u" using drain.delivery_loop_keeps [of w "now w + t"] n by simp
  have same: "inbox v = inbox u \<and> ct_queue (control v) = ct_queue (control u) \<and> now v = now u"
    using rest by (auto simp: run_simps protocol_error_def note_reported_def split: option.splits if_splits sum.splits)
  show ?thesis
  proof (cases x)
    case (Some dl)
    then have "shorter w u" using delivery_loop_progress [OF n] by simp
    then show ?thesis using same by (auto simp: shorter_def reading_def)
  next
    case None
    then have "now w + t \<le> now v" using delivery_loop_progress [OF n] same by simp
    then have "ticks d v < ticks d w"
    proof (cases "d - now w \<le> t")
      case True
      with \<open>now w + t \<le> now v\<close> have "ticks d v = 0" by (simp add: ticks_def)
      moreover have "0 < ticks d w" using d by (simp add: ticks_def)
      ultimately show ?thesis by simp
    next
      case False
      then have "now w + 1 / 1000 \<le> now v" using enough \<open>now w + t \<le> now v\<close> by auto
      then show ?thesis using d by (rule ticks_pass)
    qed
    then show ?thesis using dr same by (auto simp: reading_def drains_def)
  qed
qed

section \<open>What a read reports\<close>

definition unreported :: "'x world \<Rightarrow> 'x world \<Rightarrow> bool" where
  "unreported w v \<longleftrightarrow> reported v = reported w \<and> beside v = beside w"

interpretation un: action_frame unreported
  by unfold_locales (auto simp: unreported_def)

lemma unreported_upd: "keeps unreported (upd f)"
  by (rule keepsI) (auto simp: upd_def run_simps unreported_def)

lemma unreported_closing: "keeps unreported (closing e)"
  by (rule keepsI) (auto simp: run_simps unreported_def)

lemma unreported_stop: "keeps unreported should_stop"
  by (rule keepsI) (auto simp: should_stop_def unreported_def split: list.splits)

lemma unreported_check: "keeps unreported check_open"
  unfolding check_open_def
  by (intro un.keeps_bind un.keeps_if unreported_stop unreported_closing un.keeps_pure) (simp add: field_def)

lemma unreported_receive: "keeps unreported (receive t)"
proof -
  have "keeps unreported (arrived a :: ('a world, frame) action)" for a
    unfolding arrived_def protocol_error_def by (auto split: arrival.splits intro: unreported_closing)
  moreover have "keeps unreported (socket_wait s :: ('a world, arrival option) action)" for s
    by (rule keepsI) (auto simp: socket_wait_def unreported_def split: list.splits if_splits)
  ultimately show ?thesis
    unfolding receive_def by (intro un.keeps_bind un.keeps_option unreported_check un.keeps_pure)
qed

interpretation noreport: connection_frame unreported
proof unfold_locales
  show "keeps unreported (send_request kind code payload token)" for kind code payload token
  proof -
    have "keeps unreported (transmit p)" for p
      by (rule keepsI) (auto simp: transmit_def unreported_def split: list.splits submission.splits)
    then show ?thesis unfolding send_request_def dispatch_def
      by (intro un.keeps_bind un.keeps_if un.keeps_attempt unreported_check unreported_closing unreported_upd un.keeps_pure)
        (simp add: field_def)
  qed
  have event: "keeps unreported (event fr)" for fr
    unfolding event_def lease_event_def observation_event_def protocol_error_def Let_def
    by (auto split: prod.splits intro!: un.keeps_bind unreported_upd unreported_closing simp: field_def)
  show "unreported w (snd (event fr v))" if "receive t w = (Ok (Some fr), v)" for t w fr v
    by (rule un.step [OF keepsD [OF unreported_receive that] keeps_run [OF event]])
  show "keeps unreported (socket_wait t)" for t
    by (rule keepsI) (auto simp: socket_wait_def unreported_def split: list.splits if_splits)
  show "keeps unreported pop_delivery"
    by (rule keepsI) (auto simp: pop_delivery_def field_def upd_def run_simps unreported_def split: list.splits)
  show "keeps unreported note_beat" by (rule keepsI) (auto simp: note_beat_def upd_def run_simps unreported_def)
qed (auto simp: close_control_def discard_def intro: unreported_upd unreported_stop)

lemma messages_reported:
  assumes "messages t w = (Ok ms, v)"
  shows "reported v = reported w @ ms" and messages_beside: "beside v = beside w"
proof -
  from assms obtain x u where n: "next_delivery t w = (Ok x, u)"
    and rest: "(case x of None \<Rightarrow> give [] | Some dl \<Rightarrow>
         if dl_origin dl \<noteq> SRC_DEVICE then give []
         else bind (case decode_delivery (dl_payload dl) of
             Inl e \<Rightarrow> if e = ValueError then protocol_error else fail e
           | Inr ms \<Rightarrow> give ms) (\<lambda>ms. bind (note_reported ms) (\<lambda>_. give ms))) u = (Ok ms, v)"
    unfolding messages_def by (elim bind_returned)
  have "reported u = reported w" "beside u = beside w"
    using keepsD [OF noreport.keeps_delivery n] by (simp_all add: unreported_def)
  moreover have "reported v = reported u @ ms" "beside v = beside u"
    using rest by (auto simp: run_simps protocol_error_def note_reported_def split: option.splits if_splits sum.splits)
  ultimately show "reported v = reported w @ ms" "beside v = beside w" by simp_all
qed

lemma dump_unreported: "request_dump w = (r, v) \<Longrightarrow> reported v = reported w"
  using keepsD [OF noreport.keeps_dump, of w r v] by (simp add: unreported_def)

end
