(* ===== verification/Streams.thy ===== *)
theory Streams
  imports Base Draining
begin

text \<open>
  \<^verbatim>\<open>streams.py\<close>: which USB playback modes carry a desk's playback channels, and the guard that
  rechecks the mode before each phase of an apply. What a reading of /proc yields comes from the
  world: the next reading of a script, an idle card once it has run out. Parsing /proc itself is
  not modelled.
\<close>

definition CHANNELS_BY_ALTSET :: "(int, int) dict" where
  "CHANNELS_BY_ALTSET = [(1, 20), (2, 16), (3, 14), (4, 8)]"

record playback_mode =
  pm_rate :: int
  pm_channels :: int
  pm_altset :: int

record playback_state =
  ps_card :: "int option"
  ps_serial :: string
  ps_mode :: "playback_mode option"

text \<open>The script of readings of /proc; None is one that raises, always an OSError without an errno.\<close>

type_synonym desk_world = "playback_state option list world"

text \<open>Why a mode cannot carry the desk.\<close>

datatype stream_problem =
    UnmeasuredMap
  | UnmeasuredRate
  | FailedTransfer
  | RouteNeeds string "int list" int
  | SettingsNeed "int list" int

definition stream_limit :: "playback_mode \<Rightarrow> int" where
  "stream_limit mode = (if pm_rate mode \<in> {88200, 96000} then min (pm_channels mode) 16 else pm_channels mode)"

fun route_needs :: "int \<Rightarrow> route list \<Rightarrow> stream_problem option" where
  "route_needs limit [] = None"
| "route_needs limit (r # rs) =
     (let unavailable = filter (\<lambda>ch. limit < ch) (route_playback r) in
      if \<not> route_base r \<and> unavailable \<noteq> [] then Some (RouteNeeds (route_name r) unavailable limit)
      else route_needs limit rs)"

definition settings_need :: "int \<Rightarrow> channel_setting list \<Rightarrow> stream_problem option" where
  "settings_need limit settings =
     (let unavailable = sorted_set (map cs_channel (filter (\<lambda>s. cs_family s = ''playback'' \<and> limit < cs_channel s) settings))
      in if unavailable \<noteq> [] then Some (SettingsNeed unavailable limit) else None)"

definition playback_problem :: "config \<Rightarrow> playback_mode \<Rightarrow> stream_problem option" where
  "playback_problem c mode =
     (if dget CHANNELS_BY_ALTSET (pm_altset mode) \<noteq> Some (pm_channels mode) then Some UnmeasuredMap
      else if pm_rate mode \<notin> {44100, 48000, 88200, 96000, 176400, 192000} then Some UnmeasuredRate
      else if pm_rate mode \<in> {176400, 192000} \<and> 14 < pm_channels mode then Some FailedTransfer
      else case route_needs (stream_limit mode) (cfg_routes c) of
          Some p \<Rightarrow> Some p
        | None \<Rightarrow> settings_need (stream_limit mode) (cfg_channels c))"

section \<open>The guard\<close>

definition read_playback :: "config \<Rightarrow> (desk_world, playback_state) action" where
  "read_playback c w = (case beside w of
       [] \<Rightarrow> (Ok \<lparr>ps_card = None, ps_serial = cfg_serial c, ps_mode = None\<rparr>, w)
     | r # rest \<Rightarrow> (case r of None \<Rightarrow> Raise (OSErr None) | Some state \<Rightarrow> Ok state, w\<lparr>beside := rest\<rparr>))"

definition guarded :: "config \<Rightarrow> bool" where
  "guarded c \<longleftrightarrow> cfg_device_name c = DEFAULT_DEVICE_NAME \<and> cfg_usb_id c = DEFAULT_USB_ID
     \<and> (list_ex (\<lambda>r. route_playback r \<noteq> []) (cfg_routes c) \<or> list_ex (\<lambda>s. cs_family s = ''playback'') (cfg_channels c))"

text \<open>\<open>PlaybackGuard.check\<close>; the guard's state is the reading of the previous phase.\<close>

definition guard_check :: "config \<Rightarrow> playback_state option \<Rightarrow> (desk_world, playback_state option) action" where
  "guard_check c before =
     (if \<not> guarded c then give before
      else bind (read_playback c) (\<lambda>state.
        if before \<noteq> None \<and> before \<noteq> Some state then fail (OSErr None)
        else case ps_mode state of
          None \<Rightarrow> give (Some state)
        | Some mode \<Rightarrow> if playback_problem c mode \<noteq> None then fail (OSErr None) else give (Some state)))"

section \<open>What a passing mode carries\<close>





end
