(* ===== verification/Playback.thy ===== *)
theory Playback
  imports DeviceFacts
begin

text \<open>
  \<^verbatim>\<open>playback.py\<close>: the declared ownership of the playback mute flags and of the matrix columns
  an unmute replaces. The declarations are validated before any I/O; the facts below say what
  a desk that passed guarantees: both flags of a pair agree, and a released pair owns every cell
  of both of its columns.
\<close>

section \<open>Paths and pairs\<close>

definition mute_path :: "int \<Rightarrow> string" where
  "mute_path channel = chan_path ''playback'' channel ''mute''"

definition pair_left :: "int \<Rightarrow> int" where
  "pair_left channel = channel - (channel - 1) mod 2"

text \<open>The settings that declare a mute flag, and their validated final values.\<close>

definition is_mute_setting :: "channel_setting \<Rightarrow> bool" where
  "is_mute_setting s = (cs_family s = ''playback'' \<and> cs_option s = ''mute'')"

type_synonym mutes = "(int, int) dict"

definition declared_mutes :: "config \<Rightarrow> mutes res" where
  "declared_mutes c = fold_res (\<lambda>s mutes.
       if is_mute_setting s
       then rbind (py_integer (cs_value s)) (\<lambda>value. Ok (dset (cs_channel s) value mutes))
       else Ok mutes) (cfg_channels c) []"

definition retained_pair :: "string \<Rightarrow> int option" where
  "retained_pair path = (case segments (strip_slash path) of
       [family, number, option] \<Rightarrow>
         if family = ''playback'' \<and> option = ''mute'' then
           (case py_int number of
              Some channel \<Rightarrow> if 1 \<le> channel \<and> channel \<le> 20 then Some (pair_left channel) else None
            | None \<Rightarrow> None)
         else None
     | _ \<Rightarrow> None)"

definition retained_pairs :: "string list \<Rightarrow> int list" where
  "retained_pairs retained = sorted_set (List.map_filter retained_pair retained)"

definition route_cells :: "config \<Rightarrow> int \<Rightarrow> (int \<times> int) list" where
  "route_cells c left = concat (map (\<lambda>r. concat (map (\<lambda>src.
       map (\<lambda>out. (out, src)) (route_output r))
         (filter (\<lambda>src. src \<in> {left, left + 1}) (route_playback r))))
     (filter (\<lambda>r. \<not> route_base r) (cfg_routes c)))"

section \<open>Validation\<close>

definition validated_mute :: "config \<Rightarrow> device option \<Rightarrow> channel_setting \<Rightarrow> mutes \<Rightarrow> mutes res" where
  "validated_mute c dev s mutes =
     rbind (check (cs_family s \<in> {''input'', ''output'', ''playback''}) ConfigError) (\<lambda>_.
     if cs_family s \<noteq> ''playback'' then Ok mutes
     else case dev of
       None \<Rightarrow> Raise ConfigError
     | Some d \<Rightarrow>
         if dev_usb_id d \<noteq> cfg_usb_id c \<or> dev_registers d = [] then Raise ConfigError
         else case option_register dev ''playback'' (cs_option s) (cs_channel s) of
           None \<Rightarrow> Raise ConfigError
         | Some row \<Rightarrow>
             rbind (catching [TypeError, ValueError] ConfigError
                      (rbind (report_value (cs_value s) row) (\<lambda>_. py_integer (cs_value s)))) (\<lambda>value.
             if cs_option s \<noteq> ''mute'' then Raise ConfigError
             else if dget mutes (cs_channel s) \<noteq> None \<and> dget mutes (cs_channel s) \<noteq> Some value
             then Raise ConfigError
             else Ok (dset (cs_channel s) value mutes)))"

definition validated_mutes :: "config \<Rightarrow> device option \<Rightarrow> mutes res" where
  "validated_mutes c dev = fold_res (validated_mute c dev) (cfg_channels c) []"

definition valid_side :: "device \<Rightarrow> string \<Rightarrow> int list \<Rightarrow> bool" where
  "valid_side d family channels =
     ((length channels = 1 \<or> length channels = 2)
      \<and> list_all (\<lambda>ch. ch \<in> set (channels_for d family)) channels
      \<and> (length channels = 2 \<longrightarrow> odd_pair channels))"

definition validate_playback_route :: "route \<Rightarrow> device \<Rightarrow> unit res" where
  "validate_playback_route r d =
     rbind (check (valid_side d ''playback'' (route_playback r)) ConfigError) (\<lambda>_.
     rbind (check (valid_side d ''output'' (route_output r)) ConfigError) (\<lambda>_.
     rbind (check (length (route_playback r) = length (route_output r)) ConfigError) (\<lambda>_.
     rbind (catching [TypeError, ValueError] ConfigError (py_finite (VFloat (route_level r)))) (\<lambda>level.
       check (- 65 \<le> level \<and> level \<le> 6
              \<and> \<not> (length (route_output r) = 2 \<and> \<not> route_stereo r \<and> 0 < level)) ConfigError))))"

definition validate_route_links :: "route list \<Rightarrow> device \<Rightarrow> unit res" where
  "validate_route_links routes d = rbind (fold_res (\<lambda>r links.
       rbind (if route_playback r \<noteq> [] then validate_playback_route r d else Ok ()) (\<lambda>_.
       rbind (link_requirements r) (\<lambda>ls. add_links ConfigError ls links))) routes [])
     (\<lambda>_. Ok ())"

definition required_cells :: "device \<Rightarrow> int \<Rightarrow> (int \<times> int) list" where
  "required_cells d left =
     concat (map (\<lambda>out. [(out, left), (out, left + 1)]) (channels_for d ''output''))"

definition require_complete_unmute :: "config \<Rightarrow> device \<Rightarrow> mutes \<Rightarrow> int list \<Rightarrow> unit res" where
  "require_complete_unmute c d mutes pairs = rbind (map_res (\<lambda>left.
       case dget mutes left of None \<Rightarrow> Raise KeyError
       | Some value \<Rightarrow>
           if value = 0
           then check (list_all (\<lambda>cell. cell \<in> set (route_cells c left)) (required_cells d left)) ConfigError
           else Ok ()) pairs) (\<lambda>_. Ok ())"

definition check_partners :: "mutes \<Rightarrow> int \<Rightarrow> unit res" where
  "check_partners mutes left = (case (dget mutes left, dget mutes (left + 1)) of
       (Some a, Some b) \<Rightarrow> check (a = b) ConfigError
     | _ \<Rightarrow> Raise ConfigError)"

definition mute_pairs :: "mutes \<Rightarrow> int list" where
  "mute_pairs mutes = sorted_set (map pair_left (dkeys mutes))"

definition validate_playback_mute :: "config \<Rightarrow> unit res" where
  "validate_playback_mute c = (let dev = device_for_name (cfg_device_name c) in
     rbind (validated_mutes c dev) (\<lambda>mutes.
     if mutes = [] then Ok ()
     else case dev of None \<Rightarrow> Raise ConfigError
     | Some d \<Rightarrow>
         rbind (map_res (check_partners mutes) (mute_pairs mutes)) (\<lambda>_.
         rbind (validate_route_links (cfg_routes c) d) (\<lambda>_.
         require_complete_unmute c d mutes (mute_pairs mutes)))))"

section \<open>Facts\<close>

lemma pair_left_odd_of: "pair_left = odd_of"
  by (rule ext) (simp add: pair_left_def odd_of_eq)

lemma pair_left_pair: "ch = pair_left ch \<or> ch = pair_left ch + 1"
  unfolding pair_left_odd_of by (rule odd_of_pair)

lemma pair_left_left [simp]: "pair_left (pair_left ch) = pair_left ch"
    "pair_left (pair_left ch + 1) = pair_left ch"
  unfolding pair_left_def by presburger+

lemma retained_pair_mute_path:
  "1 \<le> ch \<Longrightarrow> ch \<le> 20 \<Longrightarrow> retained_pair (mute_path ch) = Some (pair_left ch)"
proof -
  assume ch: "1 \<le> ch" "ch \<le> 20"
  have "strip_slash (mute_path ch) = ''playback'' @ CHR ''/'' # show_int ch @ ''/mute''"
    by (simp add: strip_slash_def strip_with_def mute_path_def chan_path_def)
  then have "segments (strip_slash (mute_path ch)) = [''playback'', show_int ch, ''mute'']"
    using split_on_append [of "CHR ''/''" "''playback''"] split_on_append [of "CHR ''/''" "show_int ch"]
    by (simp add: segments_def)
  with ch show ?thesis by (simp add: retained_pair_def)
qed

lemma set_route_cells:
  "(out, src) \<in> set (route_cells c left) \<longleftrightarrow>
     (src = left \<or> src = left + 1)
     \<and> (\<exists>r\<in>set (cfg_routes c). \<not> route_base r \<and> src \<in> set (route_playback r) \<and> out \<in> set (route_output r))"
  by (auto simp: route_cells_def)

lemma fold_agree:
  assumes "fold_res (validated_mute c dev) ss mutes = Ok mutes'"
  shows "\<forall>ch v. dget mutes ch = Some v \<longrightarrow> dget mutes' ch = Some v"
    and "\<forall>s\<in>set ss. is_mute_setting s \<longrightarrow>
      (\<exists>v. py_integer (cs_value s) = Ok v \<and> dget mutes' (cs_channel s) = Some v)"
proof -
  have step: "(\<forall>ch v. dget mutes ch = Some v \<longrightarrow> dget m' ch = Some v) \<and>
      (is_mute_setting s \<longrightarrow> (\<exists>v. py_integer (cs_value s) = Ok v \<and> dget m' (cs_channel s) = Some v))"
    if "validated_mute c dev s mutes = Ok m'" for s mutes m'
    using that
    by (auto simp: validated_mute_def is_mute_setting_def res_simps dict_simps
        split: if_splits option.splits)
  show "\<forall>ch v. dget mutes ch = Some v \<longrightarrow> dget mutes' ch = Some v"
    and "\<forall>s\<in>set ss. is_mute_setting s \<longrightarrow>
      (\<exists>v. py_integer (cs_value s) = Ok v \<and> dget mutes' (cs_channel s) = Some v)"
    using assms
  proof (induction ss arbitrary: mutes)
    case Nil
    { case 1 then show ?case by simp }
    { case 2 then show ?case by simp }
  next
    case (Cons s ss)
    { case 1
      then obtain m where "validated_mute c dev s mutes = Ok m"
          "fold_res (validated_mute c dev) ss m = Ok mutes'" by (auto simp: res_simps)
      then show ?case using Cons(1) step by blast }
    { case 2
      then obtain m where "validated_mute c dev s mutes = Ok m"
          "fold_res (validated_mute c dev) ss m = Ok mutes'" by (auto simp: res_simps)
      then show ?case using Cons(1,2) step by (metis set_ConsD) }
  qed
qed

lemma fold_from_settings:
  assumes "fold_res (validated_mute c dev) ss mutes = Ok mutes'" and "dget mutes' ch = Some v"
  shows "dget mutes ch = Some v \<or> (\<exists>s\<in>set ss. is_mute_setting s \<and> cs_channel s = ch)"
  using assms
proof (induction ss arbitrary: mutes)
  case Nil
  then show ?case by simp
next
  case (Cons s ss)
  then obtain m where m: "validated_mute c dev s mutes = Ok m"
    "fold_res (validated_mute c dev) ss m = Ok mutes'" by (auto simp: res_simps)
  have "dget m ch = Some v \<Longrightarrow> dget mutes ch = Some v \<or> is_mute_setting s \<and> cs_channel s = ch"
    using m(1) by (auto simp: validated_mute_def is_mute_setting_def res_simps dict_simps
        split: if_splits option.splits)
  with Cons.IH [OF m(2) Cons.prems(2)] show ?case by auto
qed

text \<open>What a passed validation has established, as the planner and the writer use it.\<close>

lemma validate_playback_muteE:
  assumes "validate_playback_mute c = Ok ()" and "s \<in> set (cfg_channels c)" and "is_mute_setting s"
  obtains d mutes v where "device_for_name (cfg_device_name c) = Some d"
    "validated_mutes c (Some d) = Ok mutes"
    "dget mutes (pair_left (cs_channel s)) = Some v"
    "dget mutes (pair_left (cs_channel s) + 1) = Some v"
    "v = 0 \<Longrightarrow> set (required_cells d (pair_left (cs_channel s)))
       \<subseteq> set (route_cells c (pair_left (cs_channel s)))"
proof -
  let ?left = "pair_left (cs_channel s)" and ?dev = "device_for_name (cfg_device_name c)"
  from assms(1) obtain mutes where mutes: "validated_mutes c ?dev = Ok mutes"
    by (auto simp: validate_playback_mute_def res_simps Let_def)
  then have declared: "cs_channel s \<in> set (dkeys mutes)"
    using fold_agree(2) assms(2,3) unfolding validated_mutes_def
    by (metis dget_None option.distinct(1))
  then have "mutes \<noteq> []" by auto
  with assms(1) mutes obtain d us where d: "?dev = Some d"
    "map_res (check_partners mutes) (mute_pairs mutes) = Ok us"
    "require_complete_unmute c d mutes (mute_pairs mutes) = Ok ()"
    by (auto simp: validate_playback_mute_def res_simps Let_def split: option.splits)
  have left: "?left \<in> set (mute_pairs mutes)" using declared unfolding mute_pairs_def
    by (metis image_eqI list.set_map set_sorted_set)
  then have "is_ok (check_partners mutes ?left)" using d(2) by (rule map_res_all [rotated])
  then obtain v where v: "dget mutes ?left = Some v" "dget mutes (?left + 1) = Some v"
    by (auto simp: check_partners_def is_ok_iff split: option.splits)
  have "set (required_cells d ?left) \<subseteq> set (route_cells c ?left)" if "v = 0"
  proof -
    from d(3) obtain vs where "map_res (\<lambda>left. case dget mutes left of None \<Rightarrow> Raise KeyError
       | Some value \<Rightarrow>
           if value = 0
           then check (list_all (\<lambda>cell. cell \<in> set (route_cells c left)) (required_cells d left)) ConfigError
           else Ok ()) (mute_pairs mutes) = Ok vs"
      by (auto simp: require_complete_unmute_def res_simps)
    from map_res_all [OF this left] v that show ?thesis
      by (auto simp: is_ok_iff list_all_iff)
  qed
  with d(1) mutes v show ?thesis by (intro that) auto
qed

section \<open>Properties\<close>

text \<open>
  C2. Ownership of the playback mutes: when validation passes, every declared mute flag has a
  declaration for its pair partner too, all declarations of the pair have one and the same
  value, and a pair that is to be released (value 0) owns, through the desk's own routes, the
  matrix cell of both of its channels at every output of the device.
\<close>

theorem released_pair_owns_matrix:
  assumes "validate_playback_mute c = Ok ()" and "s \<in> set (cfg_channels c)" and "is_mute_setting s"
    and "device_for_name (cfg_device_name c) = Some d" and "left = pair_left (cs_channel s)"
  shows "\<exists>v. (\<forall>t\<in>set (cfg_channels c). is_mute_setting t \<and> pair_left (cs_channel t) = left
              \<longrightarrow> py_integer (cs_value t) = Ok v)
    \<and> (\<forall>ch\<in>{left, left + 1}. \<exists>t\<in>set (cfg_channels c). is_mute_setting t \<and> cs_channel t = ch)
    \<and> (v = 0 \<longrightarrow> (\<forall>out\<in>set (channels_for d ''output''). \<forall>src\<in>{left, left + 1}.
         \<exists>r\<in>set (cfg_routes c). \<not> route_base r \<and> src \<in> set (route_playback r)
           \<and> out \<in> set (route_output r)))"
proof -
  obtain d' mutes v where d': "device_for_name (cfg_device_name c) = Some d'"
    and m: "validated_mutes c (Some d') = Ok mutes"
    and v: "dget mutes left = Some v" "dget mutes (left + 1) = Some v"
    and owned: "v = 0 \<Longrightarrow> set (required_cells d' left) \<subseteq> set (route_cells c left)"
    using assms(1-3) unfolding assms(5) by (rule validate_playback_muteE) blast
  then have "d' = d" using assms(4) by simp
  note fold = m [unfolded validated_mutes_def]
  have "py_integer (cs_value t) = Ok v"
    if "t \<in> set (cfg_channels c)" "is_mute_setting t" "pair_left (cs_channel t) = left" for t
    using fold_agree(2) [OF fold] that pair_left_pair [of "cs_channel t"] v by auto
  moreover have "\<exists>t\<in>set (cfg_channels c). is_mute_setting t \<and> cs_channel t = ch"
    if "ch \<in> {left, left + 1}" for ch
    using fold_from_settings [OF fold] that v by auto
  moreover have "\<exists>r\<in>set (cfg_routes c). \<not> route_base r \<and> src \<in> set (route_playback r)
      \<and> out \<in> set (route_output r)"
    if "v = 0" "out \<in> set (channels_for d ''output'')" "src \<in> {left, left + 1}" for out src
  proof -
    have "(out, src) \<in> set (required_cells d left)" using that by (auto simp: required_cells_def)
    then show ?thesis using owned that(1) by (auto simp: \<open>d' = d\<close> set_route_cells)
  qed
  ultimately show ?thesis by blast
qed

text \<open>A desk that mutes the first playback pair.\<close>

definition muting_config :: config where
  "muting_config = default_config \<lparr>cfg_channels :=
     [\<lparr>cs_family = ''playback'', cs_channel = 1, cs_option = ''mute'', cs_value = VInt 1\<rparr>,
      \<lparr>cs_family = ''playback'', cs_channel = 2, cs_option = ''mute'', cs_value = VInt 1\<rparr>]\<rparr>"

lemma muting_config_valid: "validate_playback_mute muting_config = Ok ()"
proof -
  have "report_value (VInt 1) mute_row = Ok 1"
    using report_value_flag [of mute_row 1] by (simp add: mute_row_def)
  then have m: "validated_mutes muting_config (Some UCX2) = Ok [(1, 1), (2, 1)]"
    by (simp add: validated_mutes_def muting_config_def default_config_def validated_mute_def
        option_register_mute DEFAULT_USB_ID_def)
  have p: "mute_pairs [(1, 1), (2, 1)] = [1]" by code_simp
  show ?thesis
    using m by (simp add: validate_playback_mute_def p check_partners_def validate_route_links_def
        require_complete_unmute_def muting_config_def default_config_def)
qed

lemma released_pair_owns_matrix_witness:
  "\<exists>v. (\<forall>t\<in>set (cfg_channels muting_config). is_mute_setting t \<and> pair_left (cs_channel t) = 1
        \<longrightarrow> py_integer (cs_value t) = Ok v)
    \<and> (\<forall>ch\<in>{1, 1 + 1}. \<exists>t\<in>set (cfg_channels muting_config). is_mute_setting t \<and> cs_channel t = ch)
    \<and> (v = 0 \<longrightarrow> (\<forall>out\<in>set (channels_for UCX2 ''output''). \<forall>src\<in>{1, 1 + 1}.
         \<exists>r\<in>set (cfg_routes muting_config). \<not> route_base r \<and> src \<in> set (route_playback r)
           \<and> out \<in> set (route_output r)))"
  by (rule released_pair_owns_matrix [OF muting_config_valid,
        of "\<lparr>cs_family = ''playback'', cs_channel = 1, cs_option = ''mute'', cs_value = VInt 1\<rparr>"])
    (simp_all add: muting_config_def default_config_def is_mute_setting_def pair_left_def)

end
