(* ===== verification/Autogain.thy ===== *)
theory Autogain
  imports Playback
begin

text \<open>
  \<^verbatim>\<open>autogain.py\<close>: who owns an input gain while AutoSet may change it. A report is the typed
  observation \<open>(tags, args)\<close> of a path; a path that is absent from the reports (or whose report is
  None in the source) is unknown. The facts say that a gain is given up only for a flag that was
  really reported off, that the dependencies of every retained gain are requested, and what a
  passed validation excludes.
\<close>

type_synonym report = "string \<times> pyval list"
type_synonym reports = "(string, report) dict"

text \<open>A strict typed Boolean observation.\<close>

definition flag_value :: "report option \<Rightarrow> int option" where
  "flag_value rep = (case rep of None \<Rightarrow> None
     | Some (tags, args) \<Rightarrow>
         if tags \<noteq> ''i'' then None
         else (case args of [VInt i] \<Rightarrow> if i = 0 \<or> i = 1 then Some i else None | _ \<Rightarrow> None))"

definition autogain_supported :: "config \<Rightarrow> bool" where
  "autogain_supported c = (case device_for_name (cfg_device_name c) of
       None \<Rightarrow> False | Some d \<Rightarrow> dev_name d = dev_name UCX2)"

definition autoset_input :: "int \<Rightarrow> bool" where
  "autoset_input ch = (ch \<in> {1, 2, 3, 4})"

definition autogain_pairs :: "config \<Rightarrow> int list" where
  "autogain_pairs c =
     (if \<not> autogain_supported c then []
      else sorted_set (
        map (\<lambda>s. pair_left (cs_channel s))
          (filter (\<lambda>s. cs_family s = ''input'' \<and> cs_option s \<in> {''gain'', ''autoset''}
                     \<and> autoset_input (cs_channel s)) (cfg_channels c))
        @ concat (map (\<lambda>r. map pair_left (filter autoset_input (route_input r))) (cfg_routes c))))"

definition declared_flag :: "pyval \<Rightarrow> int option" where
  "declared_flag v = (case num_of v of
       Some x \<Rightarrow> if fl_eq x (Fin 0) then Some 0 else if fl_eq x (Fin 1) then Some 1 else None
     | None \<Rightarrow> None)"

definition autoset_path :: "int \<Rightarrow> string" where
  "autoset_path ch = chan_path ''input'' ch ''autoset''"

definition input_link :: "int \<Rightarrow> string" where
  "input_link left = chan_path ''input'' left ''stereo''"

definition gain_path :: "int \<Rightarrow> string" where
  "gain_path ch = chan_path ''input'' ch ''gain''"

definition dependency_paths :: "config \<Rightarrow> string list" where
  "dependency_paths c = concat (map (\<lambda>left.
     [autoset_path left, autoset_path (left + 1), input_link left]) (autogain_pairs c))"

definition declared_on :: "config \<Rightarrow> bool \<Rightarrow> int list" where
  "declared_on c use_declarations =
     (if use_declarations
      then map cs_channel (filter (\<lambda>s. cs_family s = ''input'' \<and> cs_option s = ''autoset''
             \<and> declared_flag (cs_value s) = Some 1) (cfg_channels c))
      else [])"

definition protected_inputs :: "int list \<Rightarrow> reports \<Rightarrow> string list \<Rightarrow> int \<Rightarrow> int list" where
  "protected_inputs on reports linked left =
     (let pair = [left, left + 1];
          protected = filter (\<lambda>ch. ch \<in> set on
                        \<or> flag_value (dget reports (autoset_path ch)) \<noteq> Some 0) pair;
          link = input_link left
      in if protected \<noteq> [] \<and> (link \<in> set linked \<or> flag_value (dget reports link) \<noteq> Some 0)
         then pair else protected)"

text \<open>The elements of the frozenset the source returns.\<close>

definition retained_gains :: "config \<Rightarrow> reports \<Rightarrow> string list \<Rightarrow> bool \<Rightarrow> string list" where
  "retained_gains c reports linked use_declarations =
     (concat (map (\<lambda>left.
       map gain_path (protected_inputs (declared_on c use_declarations) reports linked left))
     (autogain_pairs c)))"

text \<open>The input pairs every route declares as mono.\<close>

definition mono_links :: "config \<Rightarrow> (int, bool list) dict" where
  "mono_links c = foldl (\<lambda>links r. case source r of (family, channels) \<Rightarrow>
       (if family \<noteq> ''input'' then links
        else case channels of [] \<Rightarrow> links
        | s # _ \<Rightarrow> let left = pair_left s in
            if left = 1 \<or> left = 3
            then dset left ((case dget links left of None \<Rightarrow> [] | Some v \<Rightarrow> v) @ [length channels = 2]) links
            else links)) [] (cfg_routes c)"

definition declared_mono_pairs :: "config \<Rightarrow> int list" where
  "declared_mono_pairs c = map fst (filter (\<lambda>(left, values). set values = {False}) (mono_links c))"

text \<open>The declarations of AutoSet-on and of gains, validated.\<close>

definition autogain_setting :: "channel_setting \<Rightarrow> int list \<times> int list \<Rightarrow> (int list \<times> int list) res" where
  "autogain_setting s st = (case st of (on, gains) \<Rightarrow>
     if cs_family s \<noteq> ''input'' then Ok st
     else if cs_option s = ''autoset'' then
       (if \<not> autoset_input (cs_channel s) then Raise ConfigError
        else case declared_flag (cs_value s) of
          None \<Rightarrow> Raise ConfigError
        | Some v \<Rightarrow> Ok (if v \<noteq> 0 then (cs_channel s # on, gains) else st))
     else if cs_option s = ''gain'' \<and> autoset_input (cs_channel s) then
       (case option_register (Some UCX2) ''input'' ''gain'' (cs_channel s) of
          None \<Rightarrow> Raise ConfigError
        | Some row \<Rightarrow> rbind (number_value (cs_value s) row False) (\<lambda>_. Ok (on, cs_channel s # gains)))
     else Ok st)"

definition gain_partners :: "int list \<Rightarrow> int \<Rightarrow> int list" where
  "gain_partners mono_pairs ch = (let left = pair_left ch in
     if left \<in> set mono_pairs then [ch] else [left, left + 1])"

definition validate_autogain :: "config \<Rightarrow> unit res" where
  "validate_autogain c =
     (if \<not> autogain_supported c then Ok ()
      else rbind (fold_res autogain_setting (cfg_channels c) ([], [])) (\<lambda>(on, gains).
        if dget (cfg_policies c) (''input'', ''gain'') \<noteq> Some PIN then Ok ()
        else rbind (map_res (\<lambda>ch.
               check (\<not> list_ex (\<lambda>p. p \<in> set on) (gain_partners (declared_mono_pairs c) ch)) ConfigError)
             (sorted_set gains)) (\<lambda>_. Ok ())))"

section \<open>Facts\<close>

lemma flag_value_Some:
  "flag_value rep = Some v \<longleftrightarrow> rep = Some (''i'', [VInt v]) \<and> (v = 0 \<or> v = 1)"
  by (auto simp: flag_value_def split: option.splits prod.splits list.splits pyval.splits if_splits)

lemma input_paths_inject [simp]:
  "autoset_path a = autoset_path b \<longleftrightarrow> a = b" "input_link a = input_link b \<longleftrightarrow> a = b"
  "gain_path a = gain_path b \<longleftrightarrow> a = b" "gain_path a \<noteq> input_link b" "gain_path a \<noteq> autoset_path b"
  "autoset_path a \<noteq> input_link b" "input_link b \<noteq> autoset_path a" "input_link b \<noteq> gain_path a"
  "autoset_path b \<noteq> gain_path a"
  by (simp_all add: autoset_path_def input_link_def gain_path_def chan_path_inject)

lemma set_autogain_pairs:
  "autogain_supported c \<Longrightarrow> left \<in> set (autogain_pairs c) \<longleftrightarrow>
     (\<exists>s\<in>set (cfg_channels c). cs_family s = ''input'' \<and> (cs_option s = ''gain'' \<or> cs_option s = ''autoset'')
        \<and> autoset_input (cs_channel s) \<and> left = pair_left (cs_channel s))
     \<or> (\<exists>r\<in>set (cfg_routes c). \<exists>ch\<in>set (route_input r). autoset_input ch \<and> left = pair_left ch)"
  by (auto simp: autogain_pairs_def)

lemma autogain_pairs_odd: "left \<in> set (autogain_pairs c) \<Longrightarrow> left = 1 \<or> left = 3"
proof -
  assume left: "left \<in> set (autogain_pairs c)"
  have "autogain_supported c" using left by (auto simp: autogain_pairs_def split: if_splits)
  with left obtain ch where "autoset_input ch" "left = pair_left ch"
    by (auto simp: set_autogain_pairs)
  then show ?thesis by (auto simp: autoset_input_def pair_left_def)
qed

lemma pair_of_left: "left = 1 \<or> left = 3 \<Longrightarrow> ch \<in> {left, left + 1} \<longleftrightarrow> pair_left ch = left"
  unfolding pair_left_def by (auto; presburger)

lemma set_retained_gains:
  "gain_path ch \<in> set (retained_gains c reports linked use) \<longleftrightarrow>
     pair_left ch \<in> set (autogain_pairs c)
     \<and> ch \<in> set (protected_inputs (declared_on c use) reports linked (pair_left ch))"
proof -
  have mem: "ch \<in> {left, left + 1}" if "ch \<in> set (protected_inputs on reports linked left)" for on left
    using that by (auto simp: protected_inputs_def Let_def split: if_splits)
  have "ch \<in> set (protected_inputs on reports linked left) \<Longrightarrow> left \<in> set (autogain_pairs c)
      \<Longrightarrow> left = pair_left ch" for on left
    using mem [of on left] autogain_pairs_odd [of left c] pair_of_left [of left ch] by auto
  then show ?thesis by (auto simp: retained_gains_def)
qed

section \<open>Properties\<close>

text \<open>
  C4. A gain under AutoSet is written only on positive evidence. For an input of a pair the desk
  touches, its gain is not retained exactly when: no declaration (where declarations count) and
  no report leaves its own AutoSet on or unknown, and either the same holds of its pair partner,
  or the pair was reported unlinked and no planned write links it. The three observations this
  decision reads are all requested as dependencies.
\<close>

theorem gain_released_iff_off:
  assumes "left \<in> set (autogain_pairs c)" and "ch \<in> {left, left + 1}"
    and "partner = left + (left + 1) - ch"
  shows "(gain_path ch \<notin> set (retained_gains c reports linked use_decl) \<longleftrightarrow>
      (ch \<notin> set (declared_on c use_decl) \<and> dget reports (autoset_path ch) = Some (''i'', [VInt 0]))
      \<and> ((partner \<notin> set (declared_on c use_decl)
            \<and> dget reports (autoset_path partner) = Some (''i'', [VInt 0]))
         \<or> (dget reports (input_link left) = Some (''i'', [VInt 0]) \<and> input_link left \<notin> set linked)))
    \<and> {autoset_path ch, autoset_path partner, input_link left} \<subseteq> set (dependency_paths c)"
proof -
  have left: "pair_left ch = left" using autogain_pairs_odd [OF assms(1)] assms(2) pair_of_left by blast
  have "gain_path ch \<notin> set (retained_gains c reports linked use_decl) \<longleftrightarrow>
      ch \<notin> set (protected_inputs (declared_on c use_decl) reports linked left)"
    using assms(1) left by (simp add: set_retained_gains)
  also have "\<dots> \<longleftrightarrow>
      (ch \<notin> set (declared_on c use_decl) \<and> flag_value (dget reports (autoset_path ch)) = Some 0)
      \<and> ((partner \<notin> set (declared_on c use_decl)
            \<and> flag_value (dget reports (autoset_path partner)) = Some 0)
         \<or> (flag_value (dget reports (input_link left)) = Some 0 \<and> input_link left \<notin> set linked))"
    using assms(2,3) by (auto simp: protected_inputs_def Let_def)
  finally show ?thesis using assms by (auto simp: dependency_paths_def flag_value_Some)
qed

definition autoset_config :: config where
  "autoset_config = default_config \<lparr>cfg_channels :=
     [\<lparr>cs_family = ''input'', cs_channel = 1, cs_option = ''gain'', cs_value = VFloat (Fin 20)\<rparr>]\<rparr>"

lemma autoset_config_pairs: "autogain_pairs autoset_config = [1]"
  by (simp add: autogain_pairs_def autoset_config_def default_config_def autogain_supported_def
      autoset_input_def pair_left_def sorted_set_def)

lemma gain_released_iff_off_witness:
  "gain_path 1 \<notin> set (retained_gains autoset_config
     [(autoset_path 1, (''i'', [VInt 0])), (input_link 1, (''i'', [VInt 0]))] [] True)
   \<and> gain_path 1 \<in> set (retained_gains autoset_config [(autoset_path 1, (''i'', [VInt 0]))] [] True)"
proof -
  have on: "declared_on autoset_config True = []"
    by (simp add: declared_on_def autoset_config_def default_config_def)
  have P: "gain_path 1 \<notin> set (retained_gains autoset_config reports [] True) \<longleftrightarrow>
      (dget reports (autoset_path 1) = Some (''i'', [VInt 0]))
      \<and> (dget reports (autoset_path 2) = Some (''i'', [VInt 0])
         \<or> dget reports (input_link 1) = Some (''i'', [VInt 0]))" for reports
  proof -
    have "1 \<in> set (autogain_pairs autoset_config)" "(1 :: int) \<in> {1, 1 + 1}" "(2 :: int) = 1 + (1 + 1) - 1"
      by (simp_all add: autoset_config_pairs)
    from conjunct1 [OF gain_released_iff_off [OF this, of reports "[]" True]]
    show ?thesis unfolding on by (simp only: list.set empty_iff not_False_eq_True simp_thms)
  qed
  then have Q: "gain_path 1 \<in> set (retained_gains autoset_config reports [] True) \<longleftrightarrow>
      \<not> (dget reports (autoset_path 1) = Some (''i'', [VInt 0])
      \<and> (dget reports (autoset_path 2) = Some (''i'', [VInt 0])
         \<or> dget reports (input_link 1) = Some (''i'', [VInt 0])))" for reports
    by blast
  show ?thesis unfolding Q by simp
qed

text \<open>
  C12. A desk that passed has no gain pinned against AutoSet: with an explicit \<open>input.gain = pin\<close>,
  no configured gain of inputs 1-4 has AutoSet declared on for its own channel, nor for its pair
  partner unless every route declares that input pair mono.
\<close>

theorem pinned_gain_without_autoset:
  assumes "validate_autogain c = Ok ()" and "autogain_supported c"
    and "dget (cfg_policies c) (''input'', ''gain'') = Some PIN"
    and "g \<in> set (cfg_channels c)" and "cs_family g = ''input''" and "cs_option g = ''gain''"
    and "autoset_input (cs_channel g)"
    and "a \<in> set (cfg_channels c)" and "cs_family a = ''input''" and "cs_option a = ''autoset''"
    and "declared_flag (cs_value a) = Some 1"
  shows "cs_channel a \<noteq> cs_channel g
    \<and> (pair_left (cs_channel a) = pair_left (cs_channel g)
         \<longrightarrow> pair_left (cs_channel g) \<in> set (declared_mono_pairs c))"
proof -
  obtain on gains us where f: "fold_res autogain_setting (cfg_channels c) ([], []) = Ok (on, gains)"
    and all: "map_res (\<lambda>ch. check (\<not> list_ex (\<lambda>p. p \<in> set on)
        (gain_partners (declared_mono_pairs c) ch)) ConfigError) (sorted_set gains) = Ok us"
    using assms(1-3) by (auto simp: validate_autogain_def res_simps)
  have collect: "set (fst st) \<subseteq> set (fst st') \<and> set (snd st) \<subseteq> set (snd st')
     \<and> (\<forall>s\<in>set ss. cs_family s = ''input'' \<longrightarrow>
          (cs_option s = ''autoset'' \<and> declared_flag (cs_value s) = Some 1 \<longrightarrow> cs_channel s \<in> set (fst st'))
        \<and> (cs_option s = ''gain'' \<and> autoset_input (cs_channel s) \<longrightarrow> cs_channel s \<in> set (snd st')))"
    if "fold_res autogain_setting ss st = Ok st'" for ss st st'
    using that
  proof (induction ss arbitrary: st)
    case (Cons s ss)
    then obtain m where m: "autogain_setting s st = Ok m" "fold_res autogain_setting ss m = Ok st'"
      by (auto simp: res_simps)
    have "set (fst st) \<subseteq> set (fst m) \<and> set (snd st) \<subseteq> set (snd m) \<and> (cs_family s = ''input'' \<longrightarrow>
          (cs_option s = ''autoset'' \<and> declared_flag (cs_value s) = Some 1 \<longrightarrow> cs_channel s \<in> set (fst m))
        \<and> (cs_option s = ''gain'' \<and> autoset_input (cs_channel s) \<longrightarrow> cs_channel s \<in> set (snd m)))"
      using m(1) by (auto simp: autogain_setting_def res_simps split: prod.splits if_splits option.splits)
    then show ?case using Cons.IH [OF m(2)] by auto
  qed simp
  have on: "cs_channel a \<in> set on" and gains: "cs_channel g \<in> set gains"
    using collect [OF f] assms(4-11) by auto
  have "is_ok (check (\<not> list_ex (\<lambda>p. p \<in> set on)
        (gain_partners (declared_mono_pairs c) (cs_channel g))) ConfigError)"
    by (rule map_res_all [OF all]) (use gains in simp)
  then have "cs_channel a \<notin> set (gain_partners (declared_mono_pairs c) (cs_channel g))"
    using on by (auto simp: is_ok_iff list_ex_iff)
  then show ?thesis
    using pair_left_pair [of "cs_channel a"] pair_left_pair [of "cs_channel g"]
    by (auto simp: gain_partners_def Let_def split: if_splits)
qed

text \<open>An explicit pin of a gain that AutoSet does not own passes.\<close>

definition pinned_config :: config where
  "pinned_config = default_config \<lparr>cfg_policies := [((''input'', ''gain''), PIN)], cfg_channels :=
     [\<lparr>cs_family = ''input'', cs_channel = 1, cs_option = ''gain'', cs_value = VFloat (Fin 0)\<rparr>,
      \<lparr>cs_family = ''input'', cs_channel = 3, cs_option = ''autoset'', cs_value = VBool True\<rparr>]\<rparr>"

definition mic_gain_row :: register where
  "mic_gain_row = (Register ''/input/{ch}/gain'' ''f'' VERIFIABLE ''input-gain-mic'')
      \<lparr>reg_domain := Some NUMBER, reg_lo := Some 0, reg_hi := Some 75,
       reg_unit := ''dB'', reg_policy := PIN, reg_scale := Some D0_1, reg_truncates := True\<rparr>"

lemma option_register_mic_gain: "option_register (Some UCX2) ''input'' ''gain'' 1 = Some mic_gain_row"
  by (simp add: option_register_def ucx2_registers find_append ucx2_flat_rows_def Register_def
      option_template_def family_prefix_def has_def mic_gain_row_def channels_for_def UCX2_def
      ucx2_channels_def seq_def)

lemma zero_gain_legal: "number_value (VFloat (Fin 0)) mic_gain_row False = Ok 0"
  using format_limits
  by (simp add: number_value_def mic_gain_row_def Register_def raw_value_def raw_unchecked_def
      float32_dround within_bound_def limit_of_def trunc_def in_int16_def)

lemma pinned_config_valid: "validate_autogain pinned_config = Ok ()"
proof -
  have "fold_res autogain_setting (cfg_channels pinned_config) ([], []) = Ok ([3], [1])"
    by (simp add: pinned_config_def default_config_def autogain_setting_def autoset_input_def
        option_register_mic_gain zero_gain_legal declared_flag_def)
  moreover have "autogain_supported pinned_config"
    by (simp add: autogain_supported_def pinned_config_def default_config_def)
  moreover have "gain_partners (declared_mono_pairs pinned_config) 1 = [1, 2]"
    by (simp add: declared_mono_pairs_def mono_links_def pinned_config_def default_config_def
        gain_partners_def pair_left_def)
  moreover have "dget (cfg_policies pinned_config) (''input'', ''gain'') = Some PIN"
    by (simp add: pinned_config_def)
  ultimately show ?thesis
    by (simp add: validate_autogain_def sorted_set_def)
qed

lemma pinned_gain_without_autoset_witness:
  "cs_channel (cfg_channels pinned_config ! 1) \<noteq> cs_channel (cfg_channels pinned_config ! 0)
   \<and> validate_autogain pinned_config = Ok ()"
proof -
  let ?g = "\<lparr>cs_family = ''input'', cs_channel = 1, cs_option = ''gain'', cs_value = VFloat (Fin 0)\<rparr>"
  let ?a = "\<lparr>cs_family = ''input'', cs_channel = 3, cs_option = ''autoset'', cs_value = VBool True\<rparr>"
  have "autogain_supported pinned_config"
    by (simp add: autogain_supported_def pinned_config_def default_config_def)
  from pinned_gain_without_autoset [OF pinned_config_valid this, of ?g ?a] show ?thesis
    using pinned_config_valid
    by (simp add: pinned_config_def default_config_def autoset_input_def declared_flag_def)
qed

end
