(* ===== verification/Reconcile.thy ===== *)
theory Reconcile
  imports Autogain Base
begin

text \<open>
  The first half of \<^verbatim>\<open>reconcile.py\<close>: the desired register state of a desk. The messages of a
  route (its pair links and its matrix cells), the phases of an apply, the encoding of settings
  as register writes, and \<open>desired\<close>, which orders them. Planning is in \<^verbatim>\<open>Planning.thy\<close>.
\<close>

section \<open>Messages of a route\<close>

definition link_message :: "link \<Rightarrow> message" where
  "link_message l = (case l of (kind, channel, linked) \<Rightarrow>
     (chan_path kind channel ''stereo'', ''i'', [VInt (if linked then 1 else 0)]))"

definition link_messages :: "route \<Rightarrow> message list res" where
  "link_messages r = rbind (link_requirements r) (\<lambda>ls. Ok (map link_message ls))"

text \<open>Float addition, as far as a level may be infinite or NaN.\<close>

fun fl_add :: "fl \<Rightarrow> rat \<Rightarrow> fl" where
  "fl_add (Fin a) b = dround (a + b)"
| "fl_add x b = x"

text \<open>The level of an unlinked pair: the mute floor stays the explicit zero.\<close>

definition unlinked_level :: "fl \<Rightarrow> fl" where
  "unlinked_level level =
     (if fl_le level (Fin LEVEL_MIN) then Fin LEVEL_MIN
      else fl_add (if fl_less (Fin 0) level then Fin 0 else level) UNLINKED_GAIN_OFFSET)"

definition volume_message :: "fl \<Rightarrow> int \<Rightarrow> message" where
  "volume_message volume out = (chan_path ''output'' out ''volume'', ''f'', [VFloat volume])"

definition volume_messages :: "route \<Rightarrow> int list \<Rightarrow> message list" where
  "volume_messages r outs = (case route_volume r of None \<Rightarrow> []
     | Some volume \<Rightarrow> map (volume_message volume) outs)"

definition mix_messages :: "route \<Rightarrow> message list res" where
  "mix_messages r = rbind (checked_pan r) (\<lambda>pan. case source r of (kind, src) \<Rightarrow>
     (case route_output r of
        [left, right] \<Rightarrow> (case src of [] \<Rightarrow> Raise IndexError
          | pb_left # _ \<Rightarrow> Ok (
              (if route_stereo r
               then [(mix_path left kind pb_left, ''fi'', [VFloat (route_level r), VInt pan])]
               else [(mix_path left kind pb_left, ''fi'',
                        [VFloat (unlinked_level (route_level r)), VInt (- 100)]),
                     (mix_path right kind pb_left, ''fi'',
                        [VFloat (unlinked_level (route_level r)), VInt 100])])
              @ volume_messages r [left, right]))
      | [out] \<Rightarrow> (case src of
            [pb] \<Rightarrow> Ok ((mix_path out kind pb, ''fi'', [VFloat (route_level r), VInt 0])
                       # volume_messages r [out])
          | _ \<Rightarrow> Raise ValueError)
      | _ \<Rightarrow> Raise ValueError))"

section \<open>Phases\<close>

datatype phase = PLAYBACK_MUTE_ON | AUTOSET_OFF | LINK | MIX | CHANNEL | AUTOSET_ON
  | PLAYBACK_MUTE_OFF

fun phase_value :: "phase \<Rightarrow> int" where
  "phase_value PLAYBACK_MUTE_ON = - 2"
| "phase_value AUTOSET_OFF = - 1"
| "phase_value LINK = 0"
| "phase_value MIX = 1"
| "phase_value CHANNEL = 2"
| "phase_value AUTOSET_ON = 3"
| "phase_value PLAYBACK_MUTE_OFF = 4"

lemma phase_value_inject [simp]: "phase_value a = phase_value b \<longleftrightarrow> a = b"
  by (cases a; cases b) auto

text \<open>The order of the \<open>IntEnum\<close>, which is the order of an apply.\<close>

instantiation phase :: linorder
begin

definition less_eq_phase :: "phase \<Rightarrow> phase \<Rightarrow> bool" where
  "a \<le> b \<longleftrightarrow> phase_value a \<le> phase_value b"

definition less_phase :: "phase \<Rightarrow> phase \<Rightarrow> bool" where
  "a < b \<longleftrightarrow> phase_value a < phase_value b"

instance
  by intro_classes (auto simp: less_eq_phase_def less_phase_def)

end

text \<open>One register the config asks for.\<close>

record entry =
  en_path :: string
  en_tags :: string
  en_args :: args
  en_phase :: phase
  en_base :: bool
  en_compared :: bool

definition Entry :: "string \<Rightarrow> string \<Rightarrow> args \<Rightarrow> phase \<Rightarrow> entry" where
  "Entry path tags args phase = \<lparr>en_path = path, en_tags = tags, en_args = args,
     en_phase = phase, en_base = False, en_compared = True\<rparr>"

section \<open>Encoding settings\<close>

text \<open>
  \<open>str(value)\<close> as far as an enum compares it with a choice; no choice of a table is the text of
  a float.
\<close>

fun py_str :: "pyval \<Rightarrow> string option" where
  "py_str (VStr s) = Some s"
| "py_str (VInt i) = Some (show_int i)"
| "py_str (VBool b) = Some (if b then ''True'' else ''False'')"
| "py_str (VFloat x) = None"

fun position_of :: "'a \<Rightarrow> 'a list \<Rightarrow> nat option" where
  "position_of x [] = None"
| "position_of x (y # ys) = (if x = y then Some 0 else map_option Suc (position_of x ys))"

definition enum_value :: "register \<Rightarrow> pyval \<Rightarrow> int res" where
  "enum_value r v =
     (case py_str v of None \<Rightarrow> Raise ValueError
      | Some s \<Rightarrow> (case position_of s (reg_choices r) of
            None \<Rightarrow> Raise ValueError
          | Some position \<Rightarrow>
              if reg_values r \<noteq> []
              then (if position < length (reg_values r) then Ok (reg_values r ! position) else Raise IndexError)
              else Ok (int position)))"

text \<open>\<open>float(value)\<close> of a value that was validated as a number.\<close>

fun py_float :: "pyval \<Rightarrow> fl res" where
  "py_float (VFloat x) = Ok x"
| "py_float (VInt i) = float_of_int i"
| "py_float (VBool b) = Ok (Fin (if b then 1 else 0))"
| "py_float (VStr s) = Raise ValueError"

definition int_phase :: "string \<Rightarrow> int \<Rightarrow> phase" where
  "int_phase path number =
     (if startswith path ''/playback/'' \<and> endswith path ''/mute''
      then (if number \<noteq> 0 then PLAYBACK_MUTE_ON else PLAYBACK_MUTE_OFF)
      else if endswith path ''/autoset'' then (if number \<noteq> 0 then AUTOSET_ON else AUTOSET_OFF)
      else CHANNEL)"

definition check_domain :: "register \<Rightarrow> pyval \<Rightarrow> unit res" where
  "check_domain r v =
     (if reg_domain r = Some NUMBER then rbind (number_value v r False) (\<lambda>_. Ok ())
      else if reg_domain r = Some BOOL then rbind (report_value v r) (\<lambda>_. Ok ())
      else Ok ())"

definition encode :: "string \<Rightarrow> register \<Rightarrow> pyval \<Rightarrow> entry res" where
  "encode path r v =
     (if reg_domain r = Some ENUM
      then rbind (enum_value r v) (\<lambda>n. Ok (Entry path ''i'' [VInt n] CHANNEL))
      else rbind (check_domain r v) (\<lambda>_.
        if startswith (reg_tags r) ''f''
        then rbind (py_float v) (\<lambda>x. Ok (Entry path ''f'' [VFloat x] CHANNEL))
        else rbind (py_integer v) (\<lambda>n. Ok (Entry path ''i'' [VInt n] (int_phase path n)))))"

definition channel_entry :: "device \<Rightarrow> channel_setting \<Rightarrow> entry list res" where
  "channel_entry d s =
     (case option_register (Some d) (cs_family s) (cs_option s) (cs_channel s) of
        None \<Rightarrow> if option_channels (Some d) (cs_family s) (cs_option s) \<noteq> []
                then Raise ValueError else Ok []
      | Some r \<Rightarrow> rbind (encode (chan_path (cs_family s) (cs_channel s) (cs_option s)) r (cs_value s))
                    (\<lambda>e. Ok [e]))"

definition channel_entries :: "config \<Rightarrow> entry list res" where
  "channel_entries c = (case device_for_name (cfg_device_name c) of
       None \<Rightarrow> Ok []
     | Some d \<Rightarrow> rbind (map_res (channel_entry d) (cfg_channels c)) (\<lambda>ess. Ok (concat ess)))"

definition global_entry :: "device \<Rightarrow> global_setting \<Rightarrow> entry list res" where
  "global_entry d g = (case dget (settable_globals (Some d) (gs_family g)) (gs_option g) of
       None \<Rightarrow> Ok []
     | Some r \<Rightarrow> rbind (encode (gs_path g) r (gs_value g)) (\<lambda>e. Ok [e]))"

definition global_entries :: "config \<Rightarrow> entry list res" where
  "global_entries c = (case device_for_name (cfg_device_name c) of
       None \<Rightarrow> Ok []
     | Some d \<Rightarrow> rbind (map_res (global_entry d) (cfg_globals c)) (\<lambda>ess. Ok (concat ess)))"

section \<open>The desired state\<close>

type_synonym entries = "(string, entry) dict"

text \<open>A route of the desk wins over one of the base on a shared register.\<close>

definition store_entry :: "phase \<Rightarrow> route \<Rightarrow> message \<Rightarrow> entries \<Rightarrow> entries" where
  "store_entry phase r m es = (case m of (path, tags, args) \<Rightarrow>
     if route_base r \<and> (case dget es path of Some e \<Rightarrow> \<not> en_base e | None \<Rightarrow> False) then es
     else dset path (Entry path tags args phase \<lparr>en_base := route_base r\<rparr>) es)"

definition store_messages :: "phase \<Rightarrow> (route \<Rightarrow> message list res) \<Rightarrow> route \<Rightarrow> entries \<Rightarrow> entries res" where
  "store_messages phase produce r es =
     rbind (produce r) (\<lambda>ms. Ok (foldl (\<lambda>es m. store_entry phase r m es) es ms))"

definition route_entries :: "route list \<Rightarrow> entries res" where
  "route_entries routes =
     rbind (fold_res (store_messages LINK link_messages) routes [])
       (fold_res (store_messages MIX mix_messages) routes)"

text \<open>\<open>_send_order\<close>: the position of every path in the order the messages were produced.\<close>

type_synonym positions = "(string, nat) dict \<times> nat"

definition place :: "positions \<Rightarrow> message \<Rightarrow> positions" where
  "place p m = (case p of (pos, index) \<Rightarrow>
     if dget pos (fst m) = None then (dset (fst m) index pos, index + 1) else (pos, index))"

definition place_messages :: "(route \<Rightarrow> message list res) \<Rightarrow> route \<Rightarrow> positions \<Rightarrow> positions res" where
  "place_messages produce r p = rbind (produce r) (\<lambda>ms. Ok (foldl place p ms))"

definition send_order :: "route list \<Rightarrow> positions res" where
  "send_order routes =
     rbind (fold_res (place_messages link_messages) routes ([], 0))
       (fold_res (place_messages mix_messages) routes)"

text \<open>A nonzero balance needs channels the device has.\<close>

definition check_pan_channels :: "device \<Rightarrow> route \<Rightarrow> unit res" where
  "check_pan_channels d r = rbind (checked_pan r) (\<lambda>pan.
     if pan \<noteq> 0 then
       check (list_all (\<lambda>(family, channels). list_all (\<lambda>ch. ch \<in> set (channels_for d family)) channels)
         [source r, (''output'', route_output r)]) ValueError
     else Ok ())"

definition base_part :: "config \<Rightarrow> string list \<Rightarrow> device option \<Rightarrow> entry list res" where
  "base_part c declared dev = (case dev of None \<Rightarrow> Ok []
     | Some d \<Rightarrow> rbind (base_entries (cfg_base c) (cfg_routes c) declared d) (\<lambda>bs. Ok
         (map (\<lambda>(path, tags, args, compared).
            Entry path tags args MIX \<lparr>en_base := True, en_compared := compared\<rparr>) bs)))"

definition desired :: "config \<Rightarrow> entry list res" where
  "desired c =
     rbind (validate_route_pan (cfg_routes c)) (\<lambda>_.
     rbind (validate_autogain c) (\<lambda>_.
     rbind (validate_playback_mute c) (\<lambda>_.
     let dev = device_for_name (cfg_device_name c) in
     rbind (case dev of None \<Rightarrow> Ok ()
            | Some d \<Rightarrow> rbind (map_res (check_pan_channels d) (cfg_routes c)) (\<lambda>_. Ok ())) (\<lambda>_.
     rbind (route_entries (cfg_routes c)) (\<lambda>entries.
     rbind (send_order (cfg_routes c)) (\<lambda>(pos, _).
     let ordered = sort_key (\<lambda>e. case dget pos (en_path e) of Some n \<Rightarrow> n | None \<Rightarrow> 0) (map snd entries) in
     rbind (base_part c (dkeys entries) dev) (\<lambda>base.
     rbind (channel_entries c) (\<lambda>channels.
     rbind (global_entries c) (\<lambda>globals.
       Ok (sort_key en_phase (ordered @ base @ channels @ globals)))))))))))"

section \<open>Policy of a path\<close>

definition policy_for :: "string \<Rightarrow> device option \<Rightarrow> (string \<times> string, policy) dict \<Rightarrow> policy" where
  "policy_for path dev policies =
     (case (if policies = [] then None else
             (case segments (strip_slash path) of
                [family, _, option] \<Rightarrow> dget policies (family, option)
              | _ \<Rightarrow> None)) of
        Some p \<Rightarrow> p
      | None \<Rightarrow> register_policy dev path)"

section \<open>The claims on registers\<close>

text \<open>
  The reference: every message of every route with its phase, in production order. A register
  belongs to the last claim of the desk's own routes on it, else to the last claim of the base.
\<close>

type_synonym claim = "phase \<times> route \<times> message"

definition phase_claims :: "phase \<Rightarrow> (route \<Rightarrow> message list res) \<Rightarrow> route list \<Rightarrow> claim list res" where
  "phase_claims phase produce routes =
     rbind (map_res (\<lambda>r. rbind (produce r) (\<lambda>ms. Ok (map (\<lambda>m. (phase, r, m)) ms))) routes)
       (\<lambda>css. Ok (concat css))"

definition route_claims :: "route list \<Rightarrow> claim list res" where
  "route_claims routes = rbind (phase_claims LINK link_messages routes) (\<lambda>links.
     rbind (phase_claims MIX mix_messages routes) (\<lambda>mix. Ok (links @ mix)))"

fun claim_path :: "claim \<Rightarrow> string" where
  "claim_path (phase, r, (path, tags, args)) = path"

fun claim_base :: "claim \<Rightarrow> bool" where
  "claim_base (phase, r, m) = route_base r"

fun claim_entry :: "claim \<Rightarrow> entry" where
  "claim_entry (phase, r, (path, tags, args)) = Entry path tags args phase \<lparr>en_base := route_base r\<rparr>"

definition owner :: "claim list \<Rightarrow> string \<Rightarrow> claim option" where
  "owner cs path = (case List.find (\<lambda>c. claim_path c = path \<and> \<not> claim_base c) (rev cs) of
       Some c \<Rightarrow> Some c
     | None \<Rightarrow> List.find (\<lambda>c. claim_path c = path) (rev cs))"

fun store_claim :: "entries \<Rightarrow> claim \<Rightarrow> entries" where
  "store_claim es (phase, r, m) = store_entry phase r m es"

lemma claim_entry_sel [simp]: "en_path (claim_entry c) = claim_path c" "en_base (claim_entry c) = claim_base c"
  by (cases c; simp add: Entry_def split: prod.splits)+

lemma store_claim_eq:
  "store_claim es c =
     (if claim_base c \<and> (case dget es (claim_path c) of Some e \<Rightarrow> \<not> en_base e | None \<Rightarrow> False) then es
      else dset (claim_path c) (claim_entry c) es)"
  by (cases c) (auto simp: store_entry_def split: prod.splits)

lemma fold_phase_claims:
  "fold_res (store_messages phase produce) routes es =
     rbind (phase_claims phase produce routes) (\<lambda>cs. Ok (foldl store_claim es cs))"
proof (induction routes arbitrary: es)
  case Nil
  then show ?case by (simp add: phase_claims_def)
next
  case (Cons r routes)
  have store: "foldl (\<lambda>es m. store_entry phase r m es) es ms
      = foldl store_claim es (map (\<lambda>m. (phase, r, m)) ms)" for es ms
    by (induction ms arbitrary: es) auto
  show ?case
  proof (cases "produce r")
    case (Inr ms)
    then have "store_messages phase produce r es = Ok (foldl store_claim es (map (\<lambda>m. (phase, r, m)) ms))"
      by (simp add: store_messages_def store)
    with Inr show ?thesis
      by (cases "map_res (\<lambda>r. rbind (produce r) (\<lambda>ms. Ok (map (\<lambda>m. (phase, r, m)) ms))) routes")
        (simp_all add: Cons phase_claims_def)
  qed (simp add: store_messages_def phase_claims_def)
qed

lemma route_entries_claims:
  "route_entries routes = rbind (route_claims routes) (\<lambda>cs. Ok (foldl store_claim [] cs))"
  by (cases "phase_claims LINK link_messages routes"; cases "phase_claims MIX mix_messages routes")
    (simp_all add: route_entries_def route_claims_def fold_phase_claims)

lemma owner_path: "owner cs path = Some c \<Longrightarrow> claim_path c = path \<and> c \<in> set cs"
  by (auto simp: owner_def split: option.splits dest!: find_SomeD)

text \<open>Storing the claims one by one computes the owner of every register.\<close>

lemma store_claims_owner:
  "dget (foldl store_claim [] cs) path = map_option claim_entry (owner cs path)"
proof (induction cs arbitrary: path rule: rev_induct)
  case Nil
  then show ?case by (simp add: owner_def)
next
  case (snoc c cs)
  let ?es = "foldl store_claim [] cs"
  have own: "owner (cs @ [c]) path =
      (if claim_path c \<noteq> path then owner cs path
       else if \<not> claim_base c then Some c
       else case List.find (\<lambda>c. claim_path c = path \<and> \<not> claim_base c) (rev cs) of
          Some d \<Rightarrow> Some d | None \<Rightarrow> Some c)"
    by (auto simp: owner_def split: option.splits)
  show ?case
  proof (cases "claim_path c = path \<and> claim_base c")
    case False
    then show ?thesis using snoc [of path]
      by (auto simp: store_claim_eq own dict_simps split: option.splits)
  next
    case True
    show ?thesis
    proof (cases "List.find (\<lambda>c. claim_path c = path \<and> \<not> claim_base c) (rev cs)")
      case None
      have "claim_base d" if "owner cs path = Some d" for d
        using that None find_NoneD [OF None, of d] by (auto simp: owner_def dest!: find_SomeD)
      then show ?thesis using True None snoc [of path]
        by (auto simp: store_claim_eq own dict_simps split: option.splits)
    next
      case (Some d)
      then have "owner cs path = Some d" "\<not> claim_base d"
        using find_SomeD [OF Some] by (auto simp: owner_def)
      then show ?thesis using True Some snoc [of path] by (simp add: store_claim_eq own)
    qed
  qed
qed

lemma store_claim_keys:
  assumes "distinct (dkeys es)"
  shows "distinct (dkeys (store_claim es c))"
    and "set (dkeys (store_claim es c)) = insert (claim_path c) (set (dkeys es))"
proof -
  have "claim_path c \<in> set (dkeys es)"
    if "case dget es (claim_path c) of Some e \<Rightarrow> \<not> en_base e | None \<Rightarrow> False"
    using that dget_None [of es "claim_path c"] by (cases "dget es (claim_path c)") auto
  then have "claim_path c \<in> set (dkeys es)" if "store_claim es c \<noteq> dset (claim_path c) (claim_entry c) es"
    using that unfolding store_claim_eq by presburger
  moreover have "store_claim es c = es \<or> store_claim es c = dset (claim_path c) (claim_entry c) es"
    unfolding store_claim_eq by simp
  ultimately show "distinct (dkeys (store_claim es c))"
    and "set (dkeys (store_claim es c)) = insert (claim_path c) (set (dkeys es))"
    using assms pd.distinct_store pd.set_keys_store by (metis insert_absorb)+
qed

lemma store_claims_keys:
  "distinct (dkeys es) \<Longrightarrow> distinct (dkeys (foldl store_claim es cs))
     \<and> set (dkeys (foldl store_claim es cs)) = set (dkeys es) \<union> claim_path ` set cs"
proof (induction cs arbitrary: es)
  case (Cons c cs)
  note key = store_claim_keys [OF Cons.prems, of c]
  show ?case using Cons.IH [OF key(1)] unfolding key(2) by simp
qed simp

lemma entries_of_paths:
  assumes "distinct (dkeys es)" and "\<forall>x\<in>set es. en_path (snd x) = fst x"
  shows "\<forall>x\<in>set (foldl store_claim es cs). en_path (snd x) = fst x"
  using assms
proof (induction cs arbitrary: es)
  case (Cons c cs)
  have "en_path (snd x) = fst x" if "x \<in> set (store_claim es c)" for x
  proof -
    have "x \<in> set es \<or> x \<in> set (dset (claim_path c) (claim_entry c) es)"
      using that unfolding store_claim_eq by presburger
    then have "x \<in> set es \<or> x = (claim_path c, claim_entry c)"
      using dset_in_set [OF Cons.prems(1)] by blast
    then show ?thesis using Cons.prems(2) by auto
  qed
  with store_claim_keys(1) [OF Cons.prems(1)] show ?case
    using Cons.IH by (simp only: foldl_Cons) blast
qed simp

section \<open>The send order\<close>

text \<open>The keys of a dictionary filled from a list of keys, in order of first appearance.\<close>

definition add_key :: "string list \<Rightarrow> string \<Rightarrow> string list" where
  "add_key ks k = (if k \<in> set ks then ks else ks @ [k])"

fun claim_message :: "claim \<Rightarrow> message" where
  "claim_message (phase, r, m) = m"

lemma fst_claim_message [simp]: "fst (claim_message c) = claim_path c"
  by (cases c) auto

lemma store_claim_add_key: "dkeys (store_claim es c) = add_key (dkeys es) (claim_path c)"
proof -
  have "claim_path c \<in> set (dkeys es)"
    if "case dget es (claim_path c) of Some e \<Rightarrow> \<not> en_base e | None \<Rightarrow> False"
    using that dget_None [of es "claim_path c"] by (cases "dget es (claim_path c)") auto
  then show ?thesis
    by (cases "claim_base c \<and> (case dget es (claim_path c) of Some e \<Rightarrow> \<not> en_base e | None \<Rightarrow> False)")
      (simp_all only: store_claim_eq add_key_def dkeys_dset if_True if_False simp_thms)
qed

lemma store_claims_add_keys:
  "dkeys (foldl store_claim es cs) = foldl add_key (dkeys es) (map claim_path cs)"
  by (induction cs arbitrary: es) (simp_all only: foldl.simps list.map store_claim_add_key)

text \<open>Positions are handed out in the order the paths are first seen.\<close>

definition in_order :: "positions \<Rightarrow> bool" where
  "in_order p = (map snd (fst p) = [0..<snd p] \<and> distinct (dkeys (fst p)))"

lemma place_in_order:
  assumes "in_order p"
  shows "in_order (place p m)" and "dkeys (fst (place p m)) = add_key (dkeys (fst p)) (fst m)"
proof -
  obtain pos n where p: "p = (pos, n)" by (cases p)
  have append: "dset k v d = d @ [(k, v)]" if "k \<notin> set (dkeys d)" for k v and d :: "(string, nat) dict"
    using that by (induction d) auto
  show "dkeys (fst (place p m)) = add_key (dkeys (fst p)) (fst m)"
    by (auto simp: place_def p dict_simps dget_None add_key_def)
  show "in_order (place p m)"
  proof (cases "fst m \<in> set (dkeys pos)")
    case True
    then have "place p m = p" using dget_None by (force simp: place_def p)
    with assms show ?thesis by simp
  next
    case False
    then have "place p m = (pos @ [(fst m, n)], n + 1)"
      using append dget_None [of pos "fst m"] by (simp add: place_def p)
    with assms False show ?thesis by (simp add: in_order_def p)
  qed
qed

lemma place_fold:
  "in_order p \<Longrightarrow> in_order (foldl place p ms)
     \<and> dkeys (fst (foldl place p ms)) = foldl add_key (dkeys (fst p)) (map fst ms)"
  using place_in_order by (induction ms arbitrary: p) auto

lemma fold_place_claims:
  "fold_res (place_messages produce) routes p =
     rbind (phase_claims phase produce routes) (\<lambda>cs. Ok (foldl place p (map claim_message cs)))"
proof (induction routes arbitrary: p)
  case Nil
  then show ?case by (simp add: phase_claims_def)
next
  case (Cons r routes)
  show ?case
  proof (cases "produce r")
    case (Inr ms)
    then have "place_messages produce r p = Ok (foldl place p ms)" by (simp add: place_messages_def)
    with Inr show ?thesis
      by (cases "map_res (\<lambda>r. rbind (produce r) (\<lambda>ms. Ok (map (\<lambda>m. (phase, r, m)) ms))) routes")
        (simp_all add: Cons phase_claims_def o_def)
  qed (simp add: place_messages_def phase_claims_def)
qed

lemma send_order_claims:
  "send_order routes = rbind (route_claims routes) (\<lambda>cs. Ok (foldl place ([], 0) (map claim_message cs)))"
  by (cases "phase_claims LINK link_messages routes"; cases "phase_claims MIX mix_messages routes")
    (simp_all add: send_order_def route_claims_def fold_place_claims [where phase = LINK and produce = link_messages]
      fold_place_claims [where phase = MIX and produce = mix_messages])

text \<open>Sorting the entries by send position leaves them where the dictionary has them.\<close>

lemma sort_by_position:
  assumes "es = foldl store_claim [] cs" and "p = foldl place ([], 0) (map claim_message cs)"
  shows "sort_key (\<lambda>e. case dget (fst p) (en_path e) of Some n \<Rightarrow> n | None \<Rightarrow> 0) (map snd es) = map snd es"
proof (rule sort_key_id_if_sorted)
  have "in_order ([], 0)" by (simp add: in_order_def)
  from place_fold [OF this, of "map claim_message cs"]
  have p: "in_order p" "dkeys (fst p) = foldl add_key [] (map claim_path cs)"
    unfolding assms(2) by (simp_all add: o_def)
  have keys: "dkeys es = dkeys (fst p)" unfolding assms(1) store_claims_add_keys p(2) by simp
  have paths: "map en_path (map snd es) = dkeys es"
    using entries_of_paths [of "[]" cs] unfolding assms(1) by auto
  have "map (\<lambda>k. case dget (fst p) k of Some n \<Rightarrow> n | None \<Rightarrow> 0) (dkeys (fst p)) = map snd (fst p)"
  proof -
    have "dget (fst p) (fst x) = Some (snd x)" if "x \<in> set (fst p)" for x
      using that p(1) by (intro map_of_is_SomeI) (simp_all add: in_order_def)
    then have "map (\<lambda>x. case dget (fst p) (fst x) of Some n \<Rightarrow> n | None \<Rightarrow> 0) (fst p) = map snd (fst p)"
      by (intro map_cong refl) simp
    then show ?thesis by (simp add: o_def)
  qed
  then have "map (\<lambda>e. case dget (fst p) (en_path e) of Some n \<Rightarrow> n | None \<Rightarrow> 0) (map snd es) = [0..<snd p]"
    using p(1) paths keys unfolding in_order_def by (metis (no_types, lifting) list.map_comp comp_def map_eq_conv)
  then show "sorted (map (\<lambda>e. case dget (fst p) (en_path e) of Some n \<Rightarrow> n | None \<Rightarrow> 0) (map snd es))"
    by (simp only: sorted_upt)
qed

section \<open>What desired consists of\<close>

text \<open>
  The parts of the desired state: the entries of the routes, in the order their registers were
  first claimed, then the silent cells of a base, then the settings.
\<close>

lemma desiredE:
  assumes "desired c = Ok es"
  obtains cs base channels globals where
    "route_claims (cfg_routes c) = Ok cs"
    "base_part c (dkeys (foldl store_claim [] cs)) (device_for_name (cfg_device_name c)) = Ok base"
    "channel_entries c = Ok channels" "global_entries c = Ok globals"
    "es = sort_key en_phase (map snd (foldl store_claim [] cs) @ base @ channels @ globals)"
    "validate_playback_mute c = Ok ()" "validate_autogain c = Ok ()"
    "validate_route_pan (cfg_routes c) = Ok ()"
proof -
  from assms obtain entries pn base channels globals where
    v: "validate_playback_mute c = Ok ()" "validate_autogain c = Ok ()"
      "validate_route_pan (cfg_routes c) = Ok ()"
    and e: "route_entries (cfg_routes c) = Ok entries"
    and p: "send_order (cfg_routes c) = Ok pn"
    and b: "base_part c (dkeys entries) (device_for_name (cfg_device_name c)) = Ok base"
    and c: "channel_entries c = Ok channels" and g: "global_entries c = Ok globals"
    and es: "es = sort_key en_phase (sort_key (\<lambda>e. case dget (fst pn) (en_path e) of Some n \<Rightarrow> n
        | None \<Rightarrow> 0) (map snd entries) @ base @ channels @ globals)"
    unfolding desired_def Let_def rbind_Ok_iff case_prod_unfold by (auto simp only: sum.inject)
  from e obtain cs where cs: "route_claims (cfg_routes c) = Ok cs" "entries = foldl store_claim [] cs"
    unfolding route_entries_claims rbind_Ok_iff by auto
  from p cs(1) have "pn = foldl place ([], 0) (map claim_message cs)"
    unfolding send_order_claims by simp
  from sort_by_position [OF cs(2) this] es
  have "es = sort_key en_phase (map snd (foldl store_claim [] cs) @ base @ channels @ globals)"
    unfolding cs(2) by simp
  with that cs b c g v show ?thesis by blast
qed

lemma desired_sorted: "desired c = Ok es \<Longrightarrow> sorted (map en_phase es)"
  by (erule desiredE) simp

section \<open>Which phase a claim has\<close>

lemma source_kind: "fst (source r) = ''input'' \<or> fst (source r) = ''playback''"
  by (simp add: source_def)

lemma link_messages_paths:
  assumes "link_messages r = Ok ms" and "m \<in> set ms"
  shows "\<exists>kind ch. (kind = ''input'' \<or> kind = ''playback'' \<or> kind = ''output'')
    \<and> fst m = chan_path kind ch ''stereo''"
proof -
  obtain ls where ls: "link_requirements r = Ok ls" "ms = map link_message ls"
    using assms(1) by (auto simp: link_messages_def res_simps)
  obtain s ss out outs where
    "ls = [(fst (source r), odd_of s, length (snd (source r)) = 2),
           (''output'', odd_of out, length (route_output r) = 2 \<and> route_stereo r)]"
    using ls(1) by (rule link_requirementsE)
  then have "fst m = chan_path (fst (source r)) (odd_of s) ''stereo''
      \<or> fst m = chan_path ''output'' (odd_of out) ''stereo''"
    using assms(2) unfolding ls(2) by (auto simp: link_message_def)
  then show ?thesis using source_kind by metis
qed

text \<open>The three shapes of a route's mix messages.\<close>

lemma mix_messagesE:
  assumes "mix_messages r = Ok ms"
  obtains (linked) left right pb src where "route_output r = [left, right]" "snd (source r) = pb # src"
      "route_stereo r" "checked_pan r = Ok (route_pan r)"
      "ms = (mix_path left (fst (source r)) pb, ''fi'', [VFloat (route_level r), VInt (route_pan r)])
            # volume_messages r [left, right]"
  | (unlinked) left right pb src where "route_output r = [left, right]" "snd (source r) = pb # src"
      "\<not> route_stereo r" "checked_pan r = Ok (route_pan r)"
      "ms = (mix_path left (fst (source r)) pb, ''fi'', [VFloat (unlinked_level (route_level r)), VInt (- 100)])
            # (mix_path right (fst (source r)) pb, ''fi'', [VFloat (unlinked_level (route_level r)), VInt 100])
            # volume_messages r [left, right]"
  | (single) out pb where "route_output r = [out]" "snd (source r) = [pb]" "checked_pan r = Ok (route_pan r)"
      "ms = (mix_path out (fst (source r)) pb, ''fi'', [VFloat (route_level r), VInt 0])
            # volume_messages r [out]"
proof -
  obtain kind src where src: "source r = (kind, src)" by (cases "source r")
  obtain pan where pan: "checked_pan r = Ok pan" using assms by (auto simp: mix_messages_def res_simps)
  then have p: "pan = route_pan r" by (simp add: checked_pan_value)
  consider "route_output r = []" | out where "route_output r = [out]"
    | left right where "route_output r = [left, right]" | a b c' cs where "route_output r = a # b # c' # cs"
    by (metis neq_Nil_conv)
  then show ?thesis
  proof cases
    case 1
    with assms src pan show ?thesis by (simp add: mix_messages_def)
  next
    case (2 out)
    then obtain pb where "src = [pb]"
      using assms src pan by (cases src rule: remdups_adj.cases) (auto simp: mix_messages_def)
    with assms src pan p 2 show ?thesis by (intro single [of out pb]) (auto simp: mix_messages_def)
  next
    case (3 left right)
    then obtain pb srcs where s: "src = pb # srcs"
      using assms src pan by (cases src) (auto simp: mix_messages_def)
    show ?thesis
    proof (cases "route_stereo r")
      case True
      with assms src pan p 3 s show ?thesis
        by (intro linked [of left right pb srcs]) (auto simp: mix_messages_def)
    next
      case False
      with assms src pan p 3 s show ?thesis
        by (intro unlinked [of left right pb srcs]) (auto simp: mix_messages_def)
    qed
  next
    case (4 a b c' cs)
    with assms src pan show ?thesis by (simp add: mix_messages_def)
  qed
qed

lemma volume_messages_paths: "m \<in> set (volume_messages r outs) \<Longrightarrow> \<exists>out\<in>set outs. fst m = chan_path ''output'' out ''volume''"
  by (auto simp: volume_messages_def volume_message_def split: option.splits)

lemma mix_messages_paths:
  assumes "mix_messages r = Ok ms" and "m \<in> set ms"
  shows "(\<exists>out ch. fst m = mix_path out (fst (source r)) ch) \<or> (\<exists>out. fst m = chan_path ''output'' out ''volume'')"
  using assms(1)
proof (rule mix_messagesE)
  fix left right pb src
  assume "ms = (mix_path left (fst (source r)) pb, ''fi'', [VFloat (route_level r), VInt (route_pan r)])
            # volume_messages r [left, right]"
  then show ?thesis using assms(2) volume_messages_paths by (metis fst_conv set_ConsD)
next
  fix left right pb src
  assume "ms = (mix_path left (fst (source r)) pb, ''fi'', [VFloat (unlinked_level (route_level r)), VInt (- 100)])
            # (mix_path right (fst (source r)) pb, ''fi'', [VFloat (unlinked_level (route_level r)), VInt 100])
            # volume_messages r [left, right]"
  then show ?thesis using assms(2) volume_messages_paths by (metis fst_conv set_ConsD)
next
  fix out pb
  assume "ms = (mix_path out (fst (source r)) pb, ''fi'', [VFloat (route_level r), VInt 0])
            # volume_messages r [out]"
  then show ?thesis using assms(2) volume_messages_paths by (metis fst_conv set_ConsD)
qed

lemma link_path_not_mix:
  assumes "link_messages r = Ok ls" "l \<in> set ls" "mix_messages q = Ok ms" "m \<in> set ms"
  shows "fst l \<noteq> fst m"
proof -
  obtain kind ch where l: "fst l = chan_path kind ch ''stereo''"
    and k: "kind = ''input'' \<or> kind = ''playback'' \<or> kind = ''output''"
    using link_messages_paths [OF assms(1,2)] by blast
  have no: "CHR ''/'' \<notin> set kind" "kind \<noteq> ''mix''" using k by auto
  consider out c where "fst m = mix_path out (fst (source q)) c" | out where "fst m = chan_path ''output'' out ''volume''"
    using mix_messages_paths [OF assms(3,4)] by blast
  then show ?thesis
  proof cases
    case 1
    then show ?thesis using mix_not_chan [OF no] unfolding l by metis
  next
    case 2
    then show ?thesis using no(1) unfolding l by (simp add: chan_path_inject)
  qed
qed

lemma set_phase_claims:
  assumes "phase_claims phase produce routes = Ok cs"
  shows "c \<in> set cs \<longleftrightarrow> (\<exists>r\<in>set routes. \<exists>ms m. produce r = Ok ms \<and> m \<in> set ms \<and> c = (phase, r, m))"
proof -
  obtain css where css: "map_res (\<lambda>r. rbind (produce r) (\<lambda>ms. Ok (map (\<lambda>m. (phase, r, m)) ms))) routes = Ok css"
    and cs: "cs = concat css"
    using assms by (auto simp: phase_claims_def res_simps)
  have "c \<in> set (concat css) \<longleftrightarrow> (\<exists>r\<in>set routes. \<exists>ms m. produce r = Ok ms \<and> m \<in> set ms \<and> c = (phase, r, m))"
    using css by (induction routes arbitrary: css) (auto simp: res_simps; blast)+
  with cs show ?thesis by simp
qed

lemma route_claimsE:
  assumes "route_claims routes = Ok cs"
  obtains ls ms where "phase_claims LINK link_messages routes = Ok ls"
    "phase_claims MIX mix_messages routes = Ok ms" "cs = ls @ ms"
  using assms by (auto simp: route_claims_def res_simps)

text \<open>The owner of a link's register is a link claim, the owner of a cell's a mix claim.\<close>

lemma owner_phase:
  assumes "route_claims routes = Ok cs" and "owner cs p = Some c"
  shows "(\<exists>r\<in>set routes. \<exists>ls l. link_messages r = Ok ls \<and> l \<in> set ls \<and> p = fst l) \<Longrightarrow> fst c = LINK"
    and "(\<exists>r\<in>set routes. \<exists>ms m. mix_messages r = Ok ms \<and> m \<in> set ms \<and> p = fst m) \<Longrightarrow> fst c = MIX"
proof -
  obtain ls ms where cs: "phase_claims LINK link_messages routes = Ok ls"
    "phase_claims MIX mix_messages routes = Ok ms" "cs = ls @ ms"
    using assms(1) by (rule route_claimsE)
  have c: "claim_path c = p" "c \<in> set ls \<or> c \<in> set ms"
    using owner_path [OF assms(2)] cs(3) by auto
  have link: "\<exists>r\<in>set routes. \<exists>ls l. link_messages r = Ok ls \<and> l \<in> set ls \<and> c = (LINK, r, l)" if "c \<in> set ls"
    using that set_phase_claims [OF cs(1), of c] by simp
  have mix: "\<exists>r\<in>set routes. \<exists>ms m. mix_messages r = Ok ms \<and> m \<in> set ms \<and> c = (MIX, r, m)" if "c \<in> set ms"
    using that set_phase_claims [OF cs(2), of c] by simp
  have path: "claim_path (ph, r, m) = fst m" for ph r m
    by (cases m) simp
  show "fst c = LINK" if *: "\<exists>r\<in>set routes. \<exists>ls l. link_messages r = Ok ls \<and> l \<in> set ls \<and> p = fst l"
    using c link mix * path link_path_not_mix by (metis fst_conv)
  show "fst c = MIX" if *: "\<exists>r\<in>set routes. \<exists>ms m. mix_messages r = Ok ms \<and> m \<in> set ms \<and> p = fst m"
    using c link mix * path link_path_not_mix by (metis fst_conv)
qed

lemma owner_exists: "c \<in> set cs \<Longrightarrow> \<exists>d. owner cs (claim_path c) = Some d"
  unfolding owner_def using find_NoneD [of "\<lambda>d. claim_path d = claim_path c" "rev cs" c]
  by (cases "List.find (\<lambda>d. claim_path d = claim_path c) (rev cs)") (auto split: option.splits)

lemma owner_entry_desired:
  assumes "desired c = Ok es" and "route_claims (cfg_routes c) = Ok cs" and "owner cs p = Some cl"
  shows "claim_entry cl \<in> set es"
proof -
  from assms(1) obtain cs' base channels globals where
    "route_claims (cfg_routes c) = Ok cs'"
    "es = sort_key en_phase (map snd (foldl store_claim [] cs') @ base @ channels @ globals)"
    by (rule desiredE)
  moreover have "(p, claim_entry cl) \<in> set (foldl store_claim [] cs)"
    using store_claims_owner [of cs p] assms(3) by (auto intro: dget_in_set)
  ultimately show ?thesis using assms(2) by (force simp: image_iff)
qed

lemma distinct_map_sort: "distinct (map f (sort_key g xs)) = distinct (map f xs)"
  by (simp only: distinct_map distinct_sort set_sort)

lemma in_set_desired_phases:
  assumes "sorted (map en_phase es)" "e \<in> set es" "f \<in> set es" "en_phase e < en_phase f"
  shows "\<exists>i j. i < j \<and> j < length es \<and> es ! i = e \<and> es ! j = f"
proof -
  obtain i j where ij: "i < length es" "es ! i = e" "j < length es" "es ! j = f"
    using assms(2,3) by (auto simp: in_set_conv_nth)
  have "\<not> j \<le> i"
  proof
    assume "j \<le> i"
    then have "map en_phase es ! j \<le> map en_phase es ! i"
      using assms(1) ij by (intro sorted_nth_mono) auto
    then show False using ij assms(4) by simp
  qed
  then have "i < j" by simp
  then show ?thesis using ij by blast
qed

lemma device_channels_distinct:
  assumes "device_for_name name = Some d"
  shows "distinct (channels_for d k)"
proof -
  have "d = UCX2 \<or> d = FF802"
    using assms by (auto simp: device_for_name_def DEVICES_def split: if_splits)
  moreover have "distinct (channels_for UCX2 k)"
    unfolding channels_for_def UCX2_def ucx2_channels_def seq_def by auto
  moreover have "distinct (channels_for FF802 k)"
    unfolding channels_for_def FF802_def seq_def by auto
  ultimately show ?thesis by blast
qed

section \<open>Encoded settings\<close>






section \<open>A small desk\<close>

text \<open>One linked stereo route with a fader; the witnesses use it.\<close>

definition main_route :: route where
  "main_route = Route ''main'' [1, 2] \<lparr>route_playback := [1, 2], route_volume := Some (Fin (- 10))\<rparr>"

definition demo_config :: config where
  "demo_config = default_config \<lparr>cfg_routes := [main_route]\<rparr>"

lemma main_route_sel [simp]:
  "route_output main_route = [1, 2]" "route_playback main_route = [1, 2]" "route_input main_route = []"
  "source main_route = (''playback'', [1, 2])" "route_level main_route = Fin 0" "route_pan main_route = 0"
  "route_volume main_route = Some (Fin (- 10))" "route_stereo main_route" "\<not> route_base main_route"
  by (simp_all add: main_route_def Route_def source_def)

lemma demo_config_sel [simp]:
  "cfg_routes demo_config = [main_route]" "cfg_channels demo_config = []" "cfg_globals demo_config = []"
  "cfg_policies demo_config = []" "cfg_base demo_config = ''keep''"
  "device_for_name (cfg_device_name demo_config) = Some UCX2"
  by (simp_all add: demo_config_def default_config_def)

lemma main_messages:
  "link_messages main_route = Ok [(chan_path ''playback'' 1 ''stereo'', ''i'', [VInt 1]),
     (chan_path ''output'' 1 ''stereo'', ''i'', [VInt 1])]"
  "mix_messages main_route = Ok [(mix_path 1 ''playback'' 1, ''fi'', [VFloat (Fin 0), VInt 0]),
     (chan_path ''output'' 1 ''volume'', ''f'', [VFloat (Fin (- 10))]),
     (chan_path ''output'' 2 ''volume'', ''f'', [VFloat (Fin (- 10))])]"
  by (simp_all add: link_messages_def link_requirements_def link_message_def mix_messages_def
      checked_pan_zero volume_messages_def volume_message_def odd_of_def)

lemma keep_base: "base_entries ''keep'' routes declared d = rbind (declared_links routes) (\<lambda>_. Ok [])"
  by (cases "declared_links routes") (simp_all add: base_entries_def check_base_def BASES_def silences_def o_def)

lemma demo_valid:
  "validate_route_pan [main_route] = Ok ()" "validate_autogain demo_config = Ok ()"
  "validate_playback_mute demo_config = Ok ()"
  by (simp_all add: validate_route_pan_def checked_pan_zero validate_autogain_def autogain_supported_def
      validate_playback_mute_def validated_mutes_def)

lemma demo_desired: "desired demo_config = Ok
  [Entry (chan_path ''playback'' 1 ''stereo'') ''i'' [VInt 1] LINK,
   Entry (chan_path ''output'' 1 ''stereo'') ''i'' [VInt 1] LINK,
   Entry (mix_path 1 ''playback'' 1) ''fi'' [VFloat (Fin 0), VInt 0] MIX,
   Entry (chan_path ''output'' 1 ''volume'') ''f'' [VFloat (Fin (- 10))] MIX,
   Entry (chan_path ''output'' 2 ''volume'') ''f'' [VFloat (Fin (- 10))] MIX]"
  by (simp add: desired_def demo_valid check_pan_channels_def checked_pan_zero route_entries_def
      store_messages_def main_messages store_entry_def Entry_def send_order_def place_messages_def place_def
      base_part_def keep_base declared_links_def link_requirements_def channel_entries_def global_entries_def
      chan_path_inject mix_not_chan mix_not_chan [symmetric] less_eq_phase_def)



section \<open>Properties\<close>

text \<open>
  C1. Links before the matrix: in the desired state of a desk, each register any route links a
  pair with stands, in the link phase, before each register any route's mix writes, which is
  in the mix phase: no route's matrix message precedes another route's link.
\<close>

theorem links_precede_mix:
  assumes "desired c = Ok es" and "r \<in> set (cfg_routes c)" and "q \<in> set (cfg_routes c)"
    and "link_messages r = Ok ls" and "l \<in> set ls" and "mix_messages q = Ok ms" and "m \<in> set ms"
  shows "\<exists>i j. i < j \<and> j < length es
    \<and> en_path (es ! i) = fst l \<and> en_phase (es ! i) = LINK
    \<and> en_path (es ! j) = fst m \<and> en_phase (es ! j) = MIX"
proof -
  obtain cs where cs: "route_claims (cfg_routes c) = Ok cs" using assms(1) by (rule desiredE)
  then obtain lc mc where ph: "phase_claims LINK link_messages (cfg_routes c) = Ok lc"
    "phase_claims MIX mix_messages (cfg_routes c) = Ok mc" "cs = lc @ mc" by (rule route_claimsE)
  have path: "claim_path (a, b, n) = fst n" for a b n by (cases n) simp
  have "(LINK, r, l) \<in> set cs" "(MIX, q, m) \<in> set cs"
    using set_phase_claims [OF ph(1), of "(LINK, r, l)"] set_phase_claims [OF ph(2), of "(MIX, q, m)"]
      assms(2-7) unfolding ph(3) set_append by blast+
  then obtain lo mo where own: "owner cs (fst l) = Some lo" "owner cs (fst m) = Some mo"
    using owner_exists path by metis
  have "fst lo = LINK" "fst mo = MIX"
    using owner_phase(1) [OF cs own(1)] owner_phase(2) [OF cs own(2)] assms(2-7) by blast+
  then have phases: "en_phase (claim_entry lo) = LINK" "en_phase (claim_entry mo) = MIX"
    by (cases lo; cases mo; simp add: Entry_def split: prod.splits)+
  have "claim_entry lo \<in> set es" "claim_entry mo \<in> set es"
    using owner_entry_desired [OF assms(1) cs] own by blast+
  then obtain i j where "i < j" "j < length es" "es ! i = claim_entry lo" "es ! j = claim_entry mo"
    using in_set_desired_phases [OF desired_sorted [OF assms(1)]] phases
    by (metis less_phase_def phase_value.simps(3,4) zero_less_one)
  then show ?thesis
    using phases owner_path [OF own(1)] owner_path [OF own(2)] by (metis claim_entry_sel(1))
qed

lemma links_precede_mix_witness:
  "\<exists>es i j. desired demo_config = Ok es \<and> i < j \<and> j < length es
    \<and> en_path (es ! i) = chan_path ''output'' 1 ''stereo'' \<and> en_phase (es ! i) = LINK
    \<and> en_path (es ! j) = mix_path 1 ''playback'' 1 \<and> en_phase (es ! j) = MIX"
  using links_precede_mix [OF demo_desired _ _ main_messages(1) _ main_messages(2),
      of "(chan_path ''output'' 1 ''stereo'', ''i'', [VInt 1])"
         "(mix_path 1 ''playback'' 1, ''fi'', [VFloat (Fin 0), VInt 0])"] demo_desired
  by auto

text \<open>
  C5. Each register once, and who it belongs to: in the desired state of a desk without channel
  and global settings no register occurs twice, and every register a route claims carries the
  last claim of the desk's own routes on it, or the last claim of the base's routes when the
  desk's own routes make none.
\<close>

theorem desired_registers_once:
  assumes "desired c = Ok es" and "cfg_channels c = []" and "cfg_globals c = []"
    and "route_claims (cfg_routes c) = Ok cs"
  shows "distinct (map en_path es)
    \<and> (\<forall>cl\<in>set cs. \<exists>o'. owner cs (claim_path cl) = Some o' \<and> claim_entry o' \<in> set es
         \<and> (\<forall>e\<in>set es. en_path e = claim_path cl \<longrightarrow> e = claim_entry o'))"
proof -
  from assms(1) obtain cs' base channels globals where d: "route_claims (cfg_routes c) = Ok cs'"
    "base_part c (dkeys (foldl store_claim [] cs')) (device_for_name (cfg_device_name c)) = Ok base"
    "channel_entries c = Ok channels" "global_entries c = Ok globals"
    "es = sort_key en_phase (map snd (foldl store_claim [] cs') @ base @ channels @ globals)"
    by (rule desiredE)
  have cs: "cs' = cs" using d(1) assms(4) by simp
  let ?es = "foldl store_claim [] cs"
  have empty: "channels = []" "globals = []"
    using d(3,4) assms(2,3) by (auto simp: channel_entries_def global_entries_def split: option.splits)
  have keys: "distinct (dkeys ?es)" and paths: "map en_path (map snd ?es) = dkeys ?es"
    using store_claims_keys [of "[]" cs] entries_of_paths [of "[]" cs] by auto
  have "distinct (map en_path base) \<and> set (map en_path base) \<inter> set (dkeys ?es) = {}"
  proof (cases "device_for_name (cfg_device_name c)")
    case None
    with d(2) show ?thesis by (simp add: base_part_def)
  next
    case (Some dev)
    with d(2) obtain bs where bs: "base_entries (cfg_base c) (cfg_routes c) (dkeys ?es) dev = Ok bs"
      "map en_path base = map fst bs"
      by (auto simp: base_part_def res_simps cs Entry_def case_prod_unfold)
    obtain links where "declared_links (cfg_routes c) = Ok links"
      using bs(1) by (auto simp: base_entries_def res_simps)
    then have "fst b \<notin> set (dkeys ?es)" if b: "b \<in> set bs" for b
    proof -
      obtain out kind src where "b \<in> set (block_entries links (dkeys ?es) out kind src)"
        using set_base_entries [OF bs(1) \<open>declared_links (cfg_routes c) = Ok links\<close>, of b] b by blast
      then show ?thesis unfolding set_block_entries by (elim bexE conjE) (simp only: fst_conv not_False_eq_True)
    qed
    moreover have "distinct (map fst bs)"
      using base_entries_distinct [OF bs(1)] device_channels_distinct [OF Some] by blast
    ultimately show ?thesis unfolding bs(2) set_map [of fst bs] by (auto simp del: set_map)
  qed
  then have once: "distinct (map en_path (map snd ?es @ base))"
    using keys paths by (auto simp: map_append simp del: map_map)
  then have "distinct (map en_path es)"
    unfolding d(5) cs empty append_Nil2 distinct_map_sort .
  moreover have "\<exists>o'. owner cs (claim_path cl) = Some o' \<and> claim_entry o' \<in> set es
         \<and> (\<forall>e\<in>set es. en_path e = claim_path cl \<longrightarrow> e = claim_entry o')" if cl: "cl \<in> set cs" for cl
  proof -
    obtain o' where o': "owner cs (claim_path cl) = Some o'" using owner_exists [OF cl] by blast
    have "claim_entry o' \<in> set es" by (rule owner_entry_desired [OF assms(1,4) o'])
    moreover have "en_path (claim_entry o') = claim_path cl" using owner_path [OF o'] by simp
    ultimately show ?thesis
      using o' \<open>distinct (map en_path es)\<close> by (metis distinct_map inj_onD)
  qed
  ultimately show ?thesis by blast
qed

lemma demo_claims: "is_ok (route_claims (cfg_routes demo_config))"
  by (simp add: route_claims_def phase_claims_def main_messages)

lemma desired_registers_once_witness:
  "\<exists>es. desired demo_config = Ok es \<and> length es = 5 \<and> distinct (map en_path es)"
proof -
  obtain cs where cs: "route_claims (cfg_routes demo_config) = Ok cs"
    using demo_claims by (auto simp: is_ok_iff)
  show ?thesis using desired_registers_once [OF demo_desired _ _ cs] demo_desired by simp
qed



text \<open>
  C13. The header of \<^verbatim>\<open>reconcile.py\<close> says each plan contains a register once. A desk whose route
  declares \<open>volume\<close> and whose \<open>[output:1]\<close> section declares another \<open>volume\<close> passes every
  validation, and its desired state holds that fader twice, with both values.
\<close>

definition two_volumes_config :: config where
  "two_volumes_config = demo_config \<lparr>cfg_channels :=
     [\<lparr>cs_family = ''output'', cs_channel = 1, cs_option = ''volume'', cs_value = VFloat (Fin 0)\<rparr>]\<rparr>"

lemma two_volumes_sel [simp]:
  "cfg_routes two_volumes_config = [main_route]" "cfg_globals two_volumes_config = []"
  "cfg_base two_volumes_config = ''keep''" "cfg_policies two_volumes_config = []"
  "device_for_name (cfg_device_name two_volumes_config) = Some UCX2"
  "cfg_channels two_volumes_config =
     [\<lparr>cs_family = ''output'', cs_channel = 1, cs_option = ''volume'', cs_value = VFloat (Fin 0)\<rparr>]"
  by (simp_all add: two_volumes_config_def demo_config_def default_config_def)


end
