(* ===== verification/Planning.thy ===== *)
theory Planning
  imports Reconcile
begin

text \<open>
  The second half of \<^verbatim>\<open>reconcile.py\<close>: what to write to get from an observation to the desired
  state, what later operations must leave alone, and why an operation is refused. Sets of paths
  (the source's \<open>set\<close> arguments) are lists here, read through \<^term>\<open>set\<close>.
\<close>

section \<open>Writes and plans\<close>

datatype intent = INITIAL | EXPLICIT | REPAIR | RECONCILE

definition preserves_remember :: "intent \<Rightarrow> bool" where
  "preserves_remember i = (i = REPAIR \<or> i = RECONCILE)"

datatype write_reason = MISSING | MISMATCHED | REWRITE | UNCONDITIONAL | PREREQUISITE

record reg_write =
  wr_path :: string
  wr_tags :: string
  wr_args :: args
  wr_phase :: phase
  wr_reason :: write_reason

definition write_message :: "reg_write \<Rightarrow> message" where
  "write_message w = (wr_path w, wr_tags w, wr_args w)"

record plan =
  pl_writes :: "reg_write list"
  pl_confirmed :: "string list"
  pl_unverifiable :: "string list"
  pl_retained :: "string list"

definition plan_links :: "plan \<Rightarrow> reg_write list" where
  "plan_links p = filter (\<lambda>w. wr_phase w = LINK) (pl_writes p)"

definition plan_mix :: "plan \<Rightarrow> reg_write list" where
  "plan_mix p = filter (\<lambda>w. wr_phase w = MIX) (pl_writes p)"

definition plan_channel :: "plan \<Rightarrow> reg_write list" where
  "plan_channel p = filter (\<lambda>w. wr_phase w \<noteq> LINK \<and> wr_phase w \<noteq> MIX) (pl_writes p)"

definition plan_messages :: "plan \<Rightarrow> message list" where
  "plan_messages p = map write_message (pl_writes p)"

section \<open>Comparing a report with a wish\<close>

definition is_int :: "pyval \<Rightarrow> bool" where
  "is_int v = (case v of VInt _ \<Rightarrow> True | _ \<Rightarrow> False)"

text \<open>The checks an integer argument passes before it is compared.\<close>

definition int_domain_ok :: "register option \<Rightarrow> pyval \<Rightarrow> pyval \<Rightarrow> unit res" where
  "int_domain_ok register wanted answer = (case register of
       None \<Rightarrow> Ok ()
     | Some r \<Rightarrow>
         rbind (if reg_domain r = Some NUMBER then rbind (number_value wanted r False) (\<lambda>_. Ok ()) else Ok ()) (\<lambda>_.
         if reg_domain r \<noteq> None then rbind (report_value answer r) (\<lambda>_. Ok ()) else Ok ()))"

definition between :: "int \<Rightarrow> pyval \<Rightarrow> int \<Rightarrow> bool" where
  "between lo v hi = (case num_of v of None \<Rightarrow> False
     | Some x \<Rightarrow> fl_le (Fin (of_int lo)) x \<and> fl_le x (Fin (of_int hi)))"

text \<open>The balance argument of a matrix register; Ok None means it is compared like any other.\<close>

definition pan_argument :: "register option \<Rightarrow> pyval list \<Rightarrow> pyval list \<Rightarrow> pyval \<Rightarrow> pyval \<Rightarrow> bool option res" where
  "pan_argument register want got wanted answer = (case register of
       None \<Rightarrow> Ok None
     | Some r \<Rightarrow>
         if \<not> reg_mix_level r then Ok None
         else if \<not> is_int wanted \<or> \<not> is_int answer \<or> \<not> between (- 100) answer 100 then Ok (Some False)
         else rbind (py_finite (hd want)) (\<lambda>level.
           if level \<le> LEVEL_MIN \<and> py_eq (hd got) (VFloat NInf)
           then rbind (py_integer wanted) (\<lambda>pan.
             Ok (if - 100 \<le> pan \<and> pan \<le> 100 then Some True else None))
           else Ok None))"

definition match_argument ::
    "rat option \<Rightarrow> register option \<Rightarrow> pyval list \<Rightarrow> pyval list \<Rightarrow> char \<Rightarrow> pyval \<Rightarrow> pyval \<Rightarrow> bool res" where
  "match_argument tolerance register want got tag wanted answer =
     (if tag = CHR ''f'' then equal_float wanted answer register tolerance
      else if tag = CHR ''i'' then
        rbind (int_domain_ok register wanted answer) (\<lambda>_.
        rbind (pan_argument register want got wanted answer) (\<lambda>decided.
          case decided of Some b \<Rightarrow> Ok b
          | None \<Rightarrow> rbind (py_integer wanted) (\<lambda>a. rbind (py_integer answer) (\<lambda>b. Ok (a = b)))))
      else Ok False)"

text \<open>A value that cannot be compared does not match.\<close>

definition not_comparable :: "bool res \<Rightarrow> bool res" where
  "not_comparable m = (case m of
       Inl e \<Rightarrow> if e \<in> {TypeError, ValueError, OverflowError} then Ok False else Inl e
     | Inr b \<Rightarrow> Inr b)"

fun match_arguments ::
    "(char \<Rightarrow> pyval \<Rightarrow> pyval \<Rightarrow> bool res) \<Rightarrow> string \<Rightarrow> pyval list \<Rightarrow> pyval list \<Rightarrow> bool res" where
  "match_arguments f (t # ts) (w # ws) (g # gs) =
     rbind (not_comparable (f t w g)) (\<lambda>b. if b then match_arguments f ts ws gs else Ok False)"
| "match_arguments f _ _ _ = Ok True"

definition matches :: "string \<Rightarrow> args \<Rightarrow> args \<Rightarrow> rat option \<Rightarrow> register option \<Rightarrow> bool res" where
  "matches tags want got tolerance register =
     (if length got < length want \<or> length tags \<noteq> length want \<or> tags = [] then Ok False
      else match_arguments (match_argument tolerance register want got) tags want got)"

section \<open>Planning\<close>

type_synonym observation = "(string, args) dict"

datatype verdict = Confirmed | Rewrite write_reason

text \<open>What becomes of one entry; \<open>None\<close> for the observation is a blind apply.\<close>

definition judge :: "observation option \<Rightarrow> device option \<Rightarrow> rat option \<Rightarrow> entry \<Rightarrow> verdict res" where
  "judge seen dev tolerance e = (case seen of
       None \<Rightarrow> Ok (Rewrite UNCONDITIONAL)
     | Some observations \<Rightarrow>
         let klass = (case dev of None \<Rightarrow> Some VERIFIABLE | Some _ \<Rightarrow> verify_class_of dev (en_path e)) in
         if klass = Some REESTABLISHED \<or> klass = Some WRITE_ONLY
            \<or> (\<not> en_compared e \<and> dget observations (en_path e) = None)
         then Ok (Rewrite REWRITE)
         else case dget observations (en_path e) of
           None \<Rightarrow> Ok (Rewrite MISSING)
         | Some got \<Rightarrow> rbind (matches (en_tags e) (en_args e) got tolerance (register_at dev (en_path e)))
             (\<lambda>b. Ok (if b then Confirmed else Rewrite MISMATCHED)))"

definition entry_write :: "entry \<Rightarrow> write_reason \<Rightarrow> reg_write" where
  "entry_write e reason = \<lparr>wr_path = en_path e, wr_tags = en_tags e, wr_args = en_args e,
     wr_phase = en_phase e, wr_reason = reason\<rparr>"

definition plan_of :: "(entry \<times> verdict) list \<Rightarrow> plan" where
  "plan_of judged = \<lparr>
     pl_writes = sort_key wr_phase (List.map_filter
       (\<lambda>(e, v). case v of Confirmed \<Rightarrow> None | Rewrite reason \<Rightarrow> Some (entry_write e reason)) judged),
     pl_confirmed = List.map_filter
       (\<lambda>(e, v). case v of Confirmed \<Rightarrow> Some (en_path e) | Rewrite _ \<Rightarrow> None) judged,
     pl_unverifiable = List.map_filter
       (\<lambda>(e, v). if v = Rewrite REWRITE then Some (en_path e) else None) judged,
     pl_retained = []\<rparr>"

definition make_plan :: "entry list \<Rightarrow> observation option \<Rightarrow> device option \<Rightarrow> rat option \<Rightarrow> plan res" where
  "make_plan entries seen dev tolerance =
     rbind (map_res (judge seen dev tolerance) entries) (\<lambda>vs. Ok (plan_of (zip entries vs)))"

section \<open>What later operations leave alone\<close>

definition remembered_paths :: "config \<Rightarrow> reports \<Rightarrow> string list \<Rightarrow> string list res" where
  "remembered_paths c observed linked = rbind (desired c) (\<lambda>es.
     let dev = device_for_name (cfg_device_name c) in
     Ok (sorted_set (map en_path (filter (\<lambda>e. en_base e
            \<or> policy_for (en_path e) dev (cfg_policies c) \<noteq> PIN) es)
          @ retained_gains c observed linked True)))"

definition playback_stereo_path :: "int \<Rightarrow> string" where
  "playback_stereo_path ch = chan_path ''playback'' ch ''stereo''"

text \<open>\<open>channel in (left, left + 1) for left in pairs\<close>.\<close>

definition in_pairs :: "int list \<Rightarrow> int \<Rightarrow> bool" where
  "in_pairs pairs ch = list_ex (\<lambda>left. ch = left \<or> ch = left + 1) pairs"

definition protect_links :: "string list \<Rightarrow> route \<Rightarrow> string list \<Rightarrow> string list res" where
  "protect_links confirmed r protected = rbind (link_messages r) (\<lambda>ms. Ok (protected
     @ filter (\<lambda>p. startswith p ''/output/'' \<and> p \<notin> set confirmed) (map fst ms)))"

definition protect_mix :: "int list \<Rightarrow> route \<Rightarrow> string list \<Rightarrow> string list res" where
  "protect_mix pairs r protected = rbind (link_messages r) (\<lambda>ls.
     if list_ex (in_pairs pairs) (route_playback r) \<or> list_ex (\<lambda>l. fst l \<in> set protected) ls
     then rbind (mix_messages r) (\<lambda>ms. Ok (protected @ map fst ms))
     else Ok protected)"

definition protected_entries :: "config \<Rightarrow> string list \<Rightarrow> string list \<Rightarrow> string list res" where
  "protected_entries c retained confirmed =
     (let pairs = retained_pairs retained in
      if pairs = [] then Ok []
      else rbind (fold_res (protect_links confirmed) (cfg_routes c)
             (concat (map (\<lambda>left. [mute_path left, mute_path (left + 1)]) pairs)
              @ concat (map (\<lambda>left. [playback_stereo_path left, playback_stereo_path (left + 1)]) pairs)))
           (\<lambda>protected. rbind (fold_res (protect_mix pairs) (cfg_routes c) protected)
             (\<lambda>all. Ok (sorted_set all))))"

section \<open>Releasing a mute\<close>

text \<open>The writes and links a release of the pair depends on.\<close>

definition column_part :: "int \<Rightarrow> route \<Rightarrow> string list \<times> string list \<Rightarrow> (string list \<times> string list) res" where
  "column_part left r st = (case st of (required, links) \<Rightarrow>
     if list_ex (\<lambda>ch. ch = left \<or> ch = left + 1) (route_playback r)
     then rbind (mix_messages r) (\<lambda>ms. rbind (link_messages r) (\<lambda>ls.
       Ok (required @ filter (\<lambda>p. startswith p ''/mix/'') (map fst ms), links @ map fst ls)))
     else Ok st)"

text \<open>\<open>int(path.split("/")[2])\<close>.\<close>

definition path_channel :: "string \<Rightarrow> int res" where
  "path_channel path = (let parts = segments path in
     if length parts \<le> 2 then Raise IndexError
     else case py_int (parts ! 2) of None \<Rightarrow> Raise ValueError | Some n \<Rightarrow> Ok n)"

definition prerequisite :: "config \<Rightarrow> mutes \<Rightarrow> string list \<Rightarrow> string list \<Rightarrow> reg_write \<Rightarrow> reg_write res" where
  "prerequisite c mutes paths confirmed w =
     rbind (path_channel (wr_path w)) (\<lambda>channel. let left = pair_left channel in
     rbind (fold_res (column_part left) (cfg_routes c) ([mute_path left, mute_path (left + 1)], [])) (\<lambda>(required, links).
       if dget mutes left \<noteq> Some 0 \<or> dget mutes (left + 1) \<noteq> Some 0
          \<or> \<not> set required \<subseteq> set paths \<or> \<not> set links \<subseteq> set paths \<union> set confirmed
       then Raise ValueError
       else Ok \<lparr>wr_path = wr_path w, wr_tags = ''i'', wr_args = [VInt 1],
                wr_phase = PLAYBACK_MUTE_ON, wr_reason = PREREQUISITE\<rparr>))"

definition playback_prerequisites :: "config \<Rightarrow> plan \<Rightarrow> string list \<Rightarrow> string list \<Rightarrow> plan res" where
  "playback_prerequisites c selected retained confirmed =
     (let off = filter (\<lambda>w. wr_phase w = PLAYBACK_MUTE_OFF) (pl_writes selected);
          paths = map wr_path (pl_writes selected) in
      rbind (declared_mutes c) (\<lambda>mutes.
      rbind (map_res (prerequisite c mutes paths confirmed) off) (\<lambda>pre.
        Ok \<lparr>pl_writes = sort_key wr_phase (pre @ pl_writes selected),
            pl_confirmed = pl_confirmed selected, pl_unverifiable = pl_unverifiable selected,
            pl_retained = sorted_set retained\<rparr>)))"

section \<open>The plan of an application\<close>

definition reuse_links :: "entry list \<Rightarrow> string list \<Rightarrow> string list" where
  "reuse_links es confirmed = map en_path (filter (\<lambda>e. en_phase e = LINK \<and> en_path e \<in> set confirmed) es)"

definition planned_links :: "entry list \<Rightarrow> string list \<Rightarrow> string list" where
  "planned_links es skip = map en_path (filter (\<lambda>e. en_phase e = LINK \<and> en_path e \<notin> set skip
     \<and> args_eq (en_args e) [VInt 1]) es)"

text \<open>The paths an application with this intent does not write.\<close>

definition skipped_paths :: "config \<Rightarrow> intent \<Rightarrow> string list \<Rightarrow> string list \<Rightarrow> reports \<Rightarrow> entry list \<Rightarrow> string list res" where
  "skipped_paths c intent leave_alone confirmed observed es =
     rbind (if preserves_remember intent
            then (let skip = leave_alone @ reuse_links es confirmed in
              rbind (remembered_paths c observed (planned_links es skip)) (\<lambda>kept. Ok (skip @ kept)))
            else Ok leave_alone) (\<lambda>skip.
     rbind (protected_entries c skip confirmed) (\<lambda>protected. Ok (skip @ protected)))"

definition application_plan :: "config \<Rightarrow> intent \<Rightarrow> string list \<Rightarrow> string list \<Rightarrow> reports \<Rightarrow> plan res" where
  "application_plan c intent leave_alone confirmed observed =
     rbind (desired c) (\<lambda>es.
     rbind (skipped_paths c intent leave_alone confirmed observed es) (\<lambda>skip.
     rbind (make_plan (filter (\<lambda>e. en_path e \<notin> set skip) es) None None None) (\<lambda>selected.
       playback_prerequisites c selected skip confirmed)))"

definition matrix_repair_plan :: "config \<Rightarrow> string list \<Rightarrow> reports \<Rightarrow> plan res" where
  "matrix_repair_plan c confirmed observed =
     rbind (application_plan c REPAIR [] confirmed observed) (\<lambda>wanted.
     let mutes = list_ex (\<lambda>w. wr_phase w = PLAYBACK_MUTE_ON \<or> wr_phase w = PLAYBACK_MUTE_OFF) (pl_writes wanted);
         phases = (if mutes then {MIX, PLAYBACK_MUTE_ON, PLAYBACK_MUTE_OFF, LINK} else {MIX})
     in Ok (wanted \<lparr>pl_writes := filter (\<lambda>w. wr_phase w \<in> phases) (pl_writes wanted)\<rparr>))"

section \<open>Why an operation is refused\<close>

datatype problem =
    ProtectedWrites "string list"
  | LinksUnconfirmed "string list"
  | LinkChanges string "string list"
  | PartnerChanges string string

definition unconfirmed_links :: "string list \<Rightarrow> string list \<Rightarrow> string list \<Rightarrow> route \<Rightarrow> problem option res" where
  "unconfirmed_links writes keep known r = rbind (mix_messages r) (\<lambda>ms.
     if \<not> list_ex (\<lambda>m. startswith (fst m) ''/mix/'' \<and> fst m \<in> set writes) ms then Ok None
     else rbind (link_messages r) (\<lambda>ls.
       let missing = filter (\<lambda>p. p \<in> set keep \<and> p \<notin> set known) (map fst ls) in
       Ok (if missing \<noteq> [] then Some (LinksUnconfirmed (sorted_set missing)) else None)))"

text \<open>\<open>path.strip("/").split("/", 2)\<close> when that has three parts.\<close>

definition three_parts :: "string \<Rightarrow> (string \<times> string \<times> string) option" where
  "three_parts path = (case segments (strip_slash path) of
       a # b # c # cs \<Rightarrow> Some (a, b, join_on CHR ''/'' (c # cs))
     | _ \<Rightarrow> None)"

definition entry_args :: "entry list \<Rightarrow> (string, args) dict" where
  "entry_args es = dupdate [] (map (\<lambda>e. (en_path e, en_args e)) es)"

definition proven_mono :: "string list \<Rightarrow> string list \<Rightarrow> (string, args) dict \<Rightarrow> reports \<Rightarrow> string \<Rightarrow> bool" where
  "proven_mono refreshed known declarations reports link =
     (if link \<in> set refreshed \<or> dget reports link \<noteq> None
      then flag_value (dget reports link) = Some 0
      else link \<in> set known \<and> (case dget declarations link of None \<Rightarrow> False | Some args \<Rightarrow> args_eq args [VInt 0]))"

definition write_problem ::
    "reg_write list \<Rightarrow> string list \<Rightarrow> string list \<Rightarrow> string list \<Rightarrow> (string, args) dict \<Rightarrow> reports
       \<Rightarrow> reg_write \<Rightarrow> problem option res" where
  "write_problem selected keep known refreshed declarations reports w =
     (case three_parts (wr_path w) of
        None \<Rightarrow> Ok None
      | Some (family, channel, option) \<Rightarrow>
          if family \<noteq> ''input'' \<and> family \<noteq> ''output'' then Ok None
          else case py_int channel of None \<Rightarrow> Raise ValueError
          | Some number \<Rightarrow>
              let left = pair_left number in
              if option = ''stereo'' then
                (let affected = filter (\<lambda>p. startswith p (chan_path family left []) \<or> startswith p (chan_path family (left + 1) [])) keep
                 in Ok (if affected \<noteq> [] then Some (LinkChanges (wr_path w) (sorted_set affected)) else None))
              else
                (let partner = chan_path family (if number = left then left + 1 else left) option;
                     link = chan_path family left ''stereo'';
                     joining = list_ex (\<lambda>v. wr_path v = link \<and> args_eq (wr_args v) [VInt 1]) selected
                 in Ok (if partner \<in> set keep
                           \<and> \<not> (proven_mono refreshed known declarations reports link \<and> \<not> joining)
                        then Some (PartnerChanges (wr_path w) partner) else None)))"

text \<open>The first problem of a list of checks.\<close>

fun first_problem :: "('a \<Rightarrow> problem option res) \<Rightarrow> 'a list \<Rightarrow> problem option res" where
  "first_problem f [] = Ok None"
| "first_problem f (x # xs) = rbind (f x) (\<lambda>p. case p of Some q \<Rightarrow> Ok (Some q) | None \<Rightarrow> first_problem f xs)"

text \<open>\<open>observed\<close> is None when the caller made no observation.\<close>

definition retention_problem ::
    "config \<Rightarrow> reg_write list \<Rightarrow> string list \<Rightarrow> string list \<Rightarrow> reports option \<Rightarrow> problem option res" where
  "retention_problem c selected retained confirmed observed =
     (let writes = map wr_path selected in
      rbind (protected_entries c retained confirmed) (\<lambda>protected.
        let blocked = filter (\<lambda>p. p \<in> set protected) writes in
        if blocked \<noteq> [] then Ok (Some (ProtectedWrites (sorted_set blocked)))
        else rbind (first_problem (unconfirmed_links writes retained confirmed) (cfg_routes c)) (\<lambda>p.
          case p of Some q \<Rightarrow> Ok (Some q)
          | None \<Rightarrow> rbind (desired c) (\<lambda>es.
              first_problem (write_problem selected retained confirmed
                  (case observed of None \<Rightarrow> [] | Some _ \<Rightarrow> dependency_paths c)
                  (entry_args es) (case observed of None \<Rightarrow> [] | Some reports \<Rightarrow> reports)) selected))))"

section \<open>Facts on plans\<close>

lemma set_map_filter: "y \<in> set (List.map_filter f xs) \<longleftrightarrow> (\<exists>x\<in>set xs. f x = Some y)"
  by (force simp: List.map_filter_def)

lemma entry_write_sel [simp]:
  "wr_path (entry_write e reason) = en_path e" "wr_tags (entry_write e reason) = en_tags e"
  "wr_args (entry_write e reason) = en_args e" "wr_phase (entry_write e reason) = en_phase e"
  "wr_reason (entry_write e reason) = reason"
  by (simp_all add: entry_write_def)

lemma make_planE:
  assumes "make_plan es seen dev tolerance = Ok p"
  obtains vs where "list_all2 (\<lambda>e v. judge seen dev tolerance e = Ok v) es vs" "p = plan_of (zip es vs)"
  using assms by (auto simp: make_plan_def rbind_Ok_iff map_res_Ok_iff)

lemma blind_judged:
  "make_plan es None dev tolerance = Ok (plan_of (map (\<lambda>e. (e, Rewrite UNCONDITIONAL)) es))"
proof -
  have "map_res (judge None dev tolerance) es = Ok (map (\<lambda>_. Rewrite UNCONDITIONAL) es)"
    by (rule map_res_okI) (simp add: judge_def)
  then show ?thesis by (simp add: make_plan_def zip_map2 zip_same_conv_map o_def)
qed

lemma blind_plan:
  "make_plan es None dev tolerance = Ok
     \<lparr>pl_writes = sort_key wr_phase (map (\<lambda>e. entry_write e UNCONDITIONAL) es),
      pl_confirmed = [], pl_unverifiable = [], pl_retained = []\<rparr>"
  unfolding blind_judged by (simp add: plan_of_def List.map_filter_def o_def)

lemma playback_prerequisitesE:
  assumes "playback_prerequisites c selected retained confirmed = Ok p"
  obtains mutes pre where "declared_mutes c = Ok mutes"
    "map_res (prerequisite c mutes (map wr_path (pl_writes selected)) confirmed)
       (filter (\<lambda>w. wr_phase w = PLAYBACK_MUTE_OFF) (pl_writes selected)) = Ok pre"
    "pl_writes p = sort_key wr_phase (pre @ pl_writes selected)"
    "pl_retained p = sorted_set retained"
  using assms by (auto simp: playback_prerequisites_def Let_def rbind_Ok_iff)

text \<open>An application plan: what it leaves out and what it writes.\<close>

lemma application_planE:
  assumes "application_plan c intent leave confirmed observed = Ok p"
  obtains es skip mutes pre where "desired c = Ok es"
    "skipped_paths c intent leave confirmed observed es = Ok skip" "declared_mutes c = Ok mutes"
    "map_res (prerequisite c mutes (map en_path (filter (\<lambda>e. en_path e \<notin> set skip) es)) confirmed)
       (map (\<lambda>e. entry_write e UNCONDITIONAL)
         (filter (\<lambda>e. en_path e \<notin> set skip \<and> en_phase e = PLAYBACK_MUTE_OFF) es)) = Ok pre"
    "pl_writes p = sort_key wr_phase
       (pre @ map (\<lambda>e. entry_write e UNCONDITIONAL) (filter (\<lambda>e. en_path e \<notin> set skip) es))"
    "pl_retained p = sorted_set skip"
proof -
  from assms obtain es skip where d: "desired c = Ok es"
    and skip: "skipped_paths c intent leave confirmed observed es = Ok skip"
    and p: "playback_prerequisites c \<lparr>pl_writes = sort_key wr_phase
         (map (\<lambda>e. entry_write e UNCONDITIONAL) (filter (\<lambda>e. en_path e \<notin> set skip) es)),
      pl_confirmed = [], pl_unverifiable = [], pl_retained = []\<rparr> skip confirmed = Ok p"
    unfolding application_plan_def rbind_Ok_iff blind_plan sum.inject by blast
  let ?es = "filter (\<lambda>e. en_path e \<notin> set skip) es"
  have sorted: "sorted (map wr_phase (map (\<lambda>e. entry_write e UNCONDITIONAL) ?es))"
    using desired_sorted [OF d] by (simp add: o_def sorted_filter)
  then have same: "sort_key wr_phase (map (\<lambda>e. entry_write e UNCONDITIONAL) ?es)
      = map (\<lambda>e. entry_write e UNCONDITIONAL) ?es"
    by (rule sort_key_id_if_sorted)
  from p obtain mutes pre where "declared_mutes c = Ok mutes"
    "map_res (prerequisite c mutes (map en_path ?es) confirmed)
       (map (\<lambda>e. entry_write e UNCONDITIONAL) (filter (\<lambda>e. en_phase e = PLAYBACK_MUTE_OFF) ?es)) = Ok pre"
    "pl_writes p = sort_key wr_phase (pre @ map (\<lambda>e. entry_write e UNCONDITIONAL) ?es)"
    "pl_retained p = sorted_set skip"
    unfolding same by (auto simp: filter_map o_def elim!: playback_prerequisitesE)
  then show ?thesis by (intro that [OF d skip]) (simp_all add: conj_commute)
qed

lemma prerequisite_write:
  assumes "prerequisite c mutes paths confirmed w = Ok v"
  shows "v = \<lparr>wr_path = wr_path w, wr_tags = ''i'', wr_args = [VInt 1],
                wr_phase = PLAYBACK_MUTE_ON, wr_reason = PREREQUISITE\<rparr>"
  using assms by (auto simp: prerequisite_def Let_def rbind_Ok_iff split: if_splits)

text \<open>Every write of the plan is one of a desired entry outside the skipped paths, or its prerequisite.\<close>

lemma application_plan_writes:
  assumes "application_plan c intent leave confirmed observed = Ok p" and "w \<in> set (pl_writes p)"
  obtains es skip e where "desired c = Ok es"
    "skipped_paths c intent leave confirmed observed es = Ok skip" "e \<in> set es"
    "en_path e \<notin> set skip" "wr_path w = en_path e"
    "w = entry_write e UNCONDITIONAL \<or> (en_phase e = PLAYBACK_MUTE_OFF \<and> wr_reason w = PREREQUISITE)"
proof -
  obtain es skip mutes pre where d: "desired c = Ok es"
    "skipped_paths c intent leave confirmed observed es = Ok skip"
    "map_res (prerequisite c mutes (map en_path (filter (\<lambda>e. en_path e \<notin> set skip) es)) confirmed)
       (map (\<lambda>e. entry_write e UNCONDITIONAL)
         (filter (\<lambda>e. en_path e \<notin> set skip \<and> en_phase e = PLAYBACK_MUTE_OFF) es)) = Ok pre"
    "pl_writes p = sort_key wr_phase
       (pre @ map (\<lambda>e. entry_write e UNCONDITIONAL) (filter (\<lambda>e. en_path e \<notin> set skip) es))"
    using assms(1) by (rule application_planE)
  have "w \<in> set pre \<or> (\<exists>e\<in>set es. en_path e \<notin> set skip \<and> w = entry_write e UNCONDITIONAL)"
    using assms(2) d(4) by auto
  then show ?thesis
  proof
    assume "w \<in> set pre"
    with map_res_from [OF d(3)] obtain e where "e \<in> set es" "en_path e \<notin> set skip"
      "en_phase e = PLAYBACK_MUTE_OFF"
      "prerequisite c mutes (map en_path (filter (\<lambda>e. en_path e \<notin> set skip) es)) confirmed
         (entry_write e UNCONDITIONAL) = Ok w"
      by auto
    then show ?thesis by (intro that [OF d(1,2)]) (auto dest: prerequisite_write)
  next
    assume "\<exists>e\<in>set es. en_path e \<notin> set skip \<and> w = entry_write e UNCONDITIONAL"
    then show ?thesis by (elim bexE conjE, intro that [OF d(1,2)]) auto
  qed
qed

section \<open>Facts on retention\<close>

lemma protected_inputs_mono:
  "ch \<in> set (protected_inputs on reports [] left) \<Longrightarrow> ch \<in> set (protected_inputs on reports linked left)"
  by (auto simp: protected_inputs_def Let_def split: if_splits)

lemma retained_gains_mono:
  assumes "p \<in> set (retained_gains c reports [] use)"
  shows "p \<in> set (retained_gains c reports linked use)"
proof -
  obtain left ch where left: "left \<in> set (autogain_pairs c)" "p = gain_path ch"
    "ch \<in> set (protected_inputs (declared_on c use) reports [] left)"
    using assms by (auto simp: retained_gains_def)
  then have "p \<in> set (map gain_path (protected_inputs (declared_on c use) reports linked left))"
    using protected_inputs_mono by simp
  with left(1) show ?thesis
    unfolding retained_gains_def set_concat set_map [of _ "autogain_pairs c"] by blast
qed

text \<open>What a repair or a reconcile skips, in terms of the desk.\<close>

lemma skipped_repair:
  assumes "skipped_paths c intent leave confirmed observed es = Ok skip"
    and "preserves_remember intent" and "desired c = Ok es"
  shows "set leave \<subseteq> set skip" and "set (reuse_links es confirmed) \<subseteq> set skip"
    and "\<And>e. e \<in> set es \<Longrightarrow> en_base e \<or> policy_for (en_path e) (device_for_name (cfg_device_name c))
           (cfg_policies c) \<noteq> PIN \<Longrightarrow> en_path e \<in> set skip"
    and "set (retained_gains c observed [] True) \<subseteq> set skip"
proof -
  let ?linked = "planned_links es (leave @ reuse_links es confirmed)"
  obtain kept protected where k: "remembered_paths c observed ?linked = Ok kept"
    and skip: "skip = (leave @ reuse_links es confirmed @ kept) @ protected"
    using assms(1,2) by (auto simp: skipped_paths_def Let_def rbind_Ok_iff)
  then show "set leave \<subseteq> set skip" "set (reuse_links es confirmed) \<subseteq> set skip" by auto
  have kept: "set kept = en_path ` {e \<in> set es. en_base e \<or> policy_for (en_path e)
       (device_for_name (cfg_device_name c)) (cfg_policies c) \<noteq> PIN} \<union> set (retained_gains c observed ?linked True)"
    using k assms(3) by (auto simp: remembered_paths_def Let_def)
  show "en_path e \<in> set skip" if "e \<in> set es" "en_base e \<or> policy_for (en_path e)
      (device_for_name (cfg_device_name c)) (cfg_policies c) \<noteq> PIN" for e
    using that kept skip by auto
  show "set (retained_gains c observed [] True) \<subseteq> set skip"
    using kept skip retained_gains_mono by auto
qed

lemma skipped_leave:
  assumes "skipped_paths c intent leave confirmed observed es = Ok skip"
  shows "set leave \<subseteq> set skip"
  using assms by (auto simp: skipped_paths_def Let_def rbind_Ok_iff split: if_splits)

text \<open>Only entries of a playback mute are in the two mute phases.\<close>

definition mute_phase :: "phase \<Rightarrow> bool" where
  "mute_phase ph = (ph = PLAYBACK_MUTE_ON \<or> ph = PLAYBACK_MUTE_OFF)"

lemma encode_mute_phase:
  assumes "encode path r v = Ok e" and "mute_phase (en_phase e)"
  shows "startswith (en_path e) ''/playback/'' \<and> endswith (en_path e) ''/mute''"
proof -
  have "en_path e = path \<and> (\<exists>n. en_phase e = int_phase path n) \<or> en_phase e = CHANNEL"
    using assms(1) by (auto simp: encode_def rbind_Ok_iff Entry_def split: if_splits)
  then show ?thesis
    using assms(2) by (auto simp: mute_phase_def int_phase_def split: if_splits)
qed

lemma channel_entry_encoded:
  "channel_entry d s = Ok es \<Longrightarrow> e \<in> set es \<Longrightarrow> \<exists>path r v. encode path r v = Ok e"
  by (auto simp: channel_entry_def rbind_Ok_iff split: option.splits if_splits) blast

lemma global_entry_encoded:
  "global_entry d g = Ok es \<Longrightarrow> e \<in> set es \<Longrightarrow> \<exists>path r v. encode path r v = Ok e"
  by (auto simp: global_entry_def rbind_Ok_iff split: option.splits) blast

lemma concat_entries_encoded:
  assumes "map_res f xs = Ok ess" and "e \<in> set (concat ess)"
    and "\<And>x es. f x = Ok es \<Longrightarrow> e \<in> set es \<Longrightarrow> \<exists>path r v. encode path r v = Ok e"
  shows "\<exists>path r v. encode path r v = Ok e"
proof -
  obtain es where "es \<in> set ess" "e \<in> set es" using assms(2) by auto
  with map_res_from [OF assms(1)] assms(3) show ?thesis by blast
qed

lemma channel_entries_encoded:
  assumes "channel_entries c = Ok es" and "e \<in> set es"
  shows "\<exists>path r v. encode path r v = Ok e"
proof (cases "device_for_name (cfg_device_name c)")
  case None
  then show ?thesis using assms by (simp add: channel_entries_def)
next
  case (Some d)
  then obtain ess where "map_res (channel_entry d) (cfg_channels c) = Ok ess" "es = concat ess"
    using assms(1) by (auto simp: channel_entries_def rbind_Ok_iff)
  then have "map_res (channel_entry d) (cfg_channels c) = Ok ess" "e \<in> set (concat ess)" using assms(2) by simp_all
  then show ?thesis by (rule concat_entries_encoded) (rule channel_entry_encoded)
qed

lemma global_entries_encoded:
  assumes "global_entries c = Ok es" and "e \<in> set es"
  shows "\<exists>path r v. encode path r v = Ok e"
proof (cases "device_for_name (cfg_device_name c)")
  case None
  then show ?thesis using assms by (simp add: global_entries_def)
next
  case (Some d)
  then obtain ess where "map_res (global_entry d) (cfg_globals c) = Ok ess" "es = concat ess"
    using assms(1) by (auto simp: global_entries_def rbind_Ok_iff)
  then have "map_res (global_entry d) (cfg_globals c) = Ok ess" "e \<in> set (concat ess)" using assms(2) by simp_all
  then show ?thesis by (rule concat_entries_encoded) (rule global_entry_encoded)
qed

lemma desired_mute_settings:
  assumes "desired c = Ok es" and "e \<in> set es" and "mute_phase (en_phase e)"
  obtains channels globals where "channel_entries c = Ok channels" "global_entries c = Ok globals"
    "e \<in> set channels \<or> e \<in> set globals"
proof -
  from assms(1) obtain cs base channels globals where d: "route_claims (cfg_routes c) = Ok cs"
    "base_part c (dkeys (foldl store_claim [] cs)) (device_for_name (cfg_device_name c)) = Ok base"
    "channel_entries c = Ok channels" "global_entries c = Ok globals"
    "es = sort_key en_phase (map snd (foldl store_claim [] cs) @ base @ channels @ globals)"
    by (rule desiredE)
  consider (routes) "e \<in> set (map snd (foldl store_claim [] cs))" | (base) "e \<in> set base"
    | (channel) "e \<in> set channels" | (global) "e \<in> set globals"
    using assms(2) unfolding d(5) set_sort set_append by blast
  then have "e \<in> set channels \<or> e \<in> set globals"
  proof cases
    case routes
    then obtain p where p: "(p, e) \<in> set (foldl store_claim [] cs)" by auto
    have "distinct (dkeys (foldl store_claim [] cs))" using store_claims_keys [of "[]" cs] by simp
    with p have "dget (foldl store_claim [] cs) p = Some e" by (rule map_of_is_SomeI [rotated])
    then obtain cl where cl: "owner cs p = Some cl" "e = claim_entry cl"
      unfolding store_claims_owner by blast
    then obtain ls ms where "phase_claims LINK link_messages (cfg_routes c) = Ok ls"
      "phase_claims MIX mix_messages (cfg_routes c) = Ok ms" "cl \<in> set ls \<or> cl \<in> set ms"
      using owner_path [OF cl(1)] d(1) by (auto elim!: route_claimsE)
    then have "fst cl = LINK \<or> fst cl = MIX" using set_phase_claims by (metis fst_conv)
    then have "\<not> mute_phase (en_phase e)"
      unfolding cl(2) by (cases cl) (auto simp: mute_phase_def Entry_def)
    with assms(3) show ?thesis by blast
  next
    case base
    then have "en_phase e = MIX"
      using d(2) by (auto simp: base_part_def rbind_Ok_iff Entry_def split: option.splits)
    with assms(3) show ?thesis by (simp add: mute_phase_def)
  qed auto
  with d(3,4) that show ?thesis by blast
qed

lemma desired_mute_phase:
  assumes "desired c = Ok es" and "e \<in> set es" and "mute_phase (en_phase e)"
  shows "startswith (en_path e) ''/playback/'' \<and> endswith (en_path e) ''/mute''"
proof (rule desired_mute_settings [OF assms])
  fix channels globals
  assume "channel_entries c = Ok channels" "global_entries c = Ok globals" "e \<in> set channels \<or> e \<in> set globals"
  then show ?thesis
    using channel_entries_encoded global_entries_encoded encode_mute_phase assms(3) by metis
qed

lemma sorted_plan:
  assumes "application_plan c intent leave confirmed observed = Ok p"
  shows "sorted (map wr_phase (pl_writes p))"
  using assms by (rule application_planE) simp

lemma phase_order_index:
  assumes "sorted (map wr_phase ws)" and "v \<in> set ws" and "j < length ws" and "wr_phase v < wr_phase (ws ! j)"
  shows "\<exists>i<j. ws ! i = v"
proof -
  obtain i where i: "i < length ws" "ws ! i = v" using assms(2) by (auto simp: in_set_conv_nth)
  have "i < j"
  proof (rule ccontr)
    assume "\<not> i < j"
    then have "wr_phase (ws ! j) \<le> wr_phase (ws ! i)"
      using sorted_nth_mono [OF assms(1), of j i] i assms(3) by simp
    with i assms(4) show False by simp
  qed
  with i show ?thesis by blast
qed

lemma phase_order_index_after:
  assumes "sorted (map wr_phase ws)" and "v \<in> set ws" and "i < length ws" and "wr_phase (ws ! i) < wr_phase v"
  shows "\<exists>k. i < k \<and> k < length ws \<and> ws ! k = v"
proof -
  obtain k where k: "k < length ws" "ws ! k = v" using assms(2) by (auto simp: in_set_conv_nth)
  have "i < k"
  proof (rule ccontr)
    assume "\<not> i < k"
    then have "wr_phase (ws ! k) \<le> wr_phase (ws ! i)"
      using sorted_nth_mono [OF assms(1), of k i] k assms(3) by simp
    with k assms(4) show False by simp
  qed
  with k show ?thesis by blast
qed

text \<open>The columns a released pair depends on are all collected.\<close>

lemma column_part_collects:
  "fold_res (column_part left) rs st = Ok (required, links) \<Longrightarrow>
     set (fst st) \<subseteq> set required \<and> set (snd st) \<subseteq> set links
     \<and> (\<forall>r\<in>set rs. list_ex (\<lambda>ch. ch = left \<or> ch = left + 1) (route_playback r) \<longrightarrow>
          (\<exists>ms ls. mix_messages r = Ok ms \<and> link_messages r = Ok ls
             \<and> (\<forall>m\<in>set ms. startswith (fst m) ''/mix/'' \<longrightarrow> fst m \<in> set required)
             \<and> fst ` set ls \<subseteq> set links))"
proof (induction rs arbitrary: st)
  case Nil
  then show ?case by simp
next
  case (Cons r rs)
  then obtain m where m: "column_part left r st = Ok m" "fold_res (column_part left) rs m = Ok (required, links)"
    by (auto simp: rbind_Ok_iff)
  note IH = Cons.IH [OF m(2)]
  obtain req lks where st: "st = (req, lks)" by (cases st)
  show ?case
  proof (cases "list_ex (\<lambda>ch. ch = left \<or> ch = left + 1) (route_playback r)")
    case False
    then have "m = st" using m(1) by (simp add: column_part_def st)
    with IH False show ?thesis by simp
  next
    case True
    then obtain ms ls where "mix_messages r = Ok ms" "link_messages r = Ok ls"
      "m = (req @ filter (\<lambda>p. startswith p ''/mix/'') (map fst ms), lks @ map fst ls)"
      using m(1) by (auto simp: column_part_def st rbind_Ok_iff)
    with IH st show ?thesis by (auto simp: image_subset_iff)
  qed
qed

end
