(* ===== verification/Observation.thy ===== *)
theory Observation
  imports Planning
begin

text \<open>
  \<^verbatim>\<open>observation.py\<close>: the latest decoded values within one observation window, classified against
  an expectation set. A report may confirm a register and a later one revoke it; the lemmas show
  that the classification is always that of the last report, that the classes are disjoint, and
  that a register without a report is in none of them.
\<close>

definition boolean_dependency :: "report option \<Rightarrow> int option" where
  "boolean_dependency rep = flag_value rep"

record window =
  ob_expected :: "(string, report) dict"
  ob_device :: "device option"
  ob_dependencies :: "string list"
  ob_noted :: "string list"
  ob_latest :: "(string, report) dict"
  ob_confirmed :: "string set"
  ob_mismatched :: "string set"
  ob_invalid :: "string set"

definition Observation :: "(string, report) dict \<Rightarrow> device option \<Rightarrow> string list \<Rightarrow> string list \<Rightarrow> window" where
  "Observation expected dev dependencies noted = \<lparr>ob_expected = expected, ob_device = dev,
     ob_dependencies = dependencies, ob_noted = noted, ob_latest = [], ob_confirmed = {},
     ob_mismatched = {}, ob_invalid = {}\<rparr>"

section \<open>Valid feedback\<close>

text \<open>One argument; Ok None continues with the next one.\<close>

definition valid_argument :: "register option \<Rightarrow> string \<Rightarrow> nat \<Rightarrow> char \<Rightarrow> pyval \<Rightarrow> bool res" where
  "valid_argument row path index tag value =
     (let mix = (case row of Some r \<Rightarrow> reg_mix_level r | None \<Rightarrow> False) in
      if mix \<and> index = 0 \<and> py_eq value (VFloat NInf) then Ok True
      else if mix \<and> index = 1 \<and> (\<not> is_int value \<or> \<not> between (- 100) value 100) then Ok False
      else rbind (case row of
             Some r \<Rightarrow> if \<not> reg_mix_level r \<and> reg_domain r \<noteq> None
                       then rbind (report_value value r) (\<lambda>_. Ok ()) else Ok ()
           | None \<Rightarrow> Ok ()) (\<lambda>_.
        if tag = CHR ''i'' then rbind (py_integer value) (\<lambda>n.
          Ok (\<not> (endswith path ''/stereo'' \<and> n \<notin> {0, 1})))
        else if tag = CHR ''f'' then rbind (float32 value) (\<lambda>_. Ok True)
        else Ok False))"

fun valid_arguments :: "register option \<Rightarrow> string \<Rightarrow> nat \<Rightarrow> string \<Rightarrow> args \<Rightarrow> bool res" where
  "valid_arguments row path index (t # ts) (v # vs) =
     rbind (valid_argument row path index t v) (\<lambda>ok.
       if ok then valid_arguments row path (index + 1) ts vs else Ok False)"
| "valid_arguments row path index _ _ = Ok True"

text \<open>\<open>_valid\<close>: invalid feedback is not an observed user adjustment.\<close>

definition valid_feedback :: "window \<Rightarrow> string \<Rightarrow> string \<Rightarrow> args \<Rightarrow> bool res" where
  "valid_feedback w path tags args =
     (if tags = [] \<or> length args < length tags then Ok False
      else not_comparable (valid_arguments (register_at (ob_device w) path) path 0 tags args))"

section \<open>Absorbing a report\<close>

text \<open>How one report of an expected register is to be classed: \<open>(valid, matching)\<close>.\<close>

definition judge_report :: "window \<Rightarrow> string \<Rightarrow> report \<Rightarrow> report \<Rightarrow> (bool \<times> bool) res" where
  "judge_report w path expected rep = (case (expected, rep) of ((etags, eargs), (tags, args)) \<Rightarrow>
     rbind (if startswith tags etags then valid_feedback w path etags args else Ok False) (\<lambda>valid.
     let sound = (valid \<and> (endswith path ''/autoset'' \<longrightarrow> flag_value (Some (tags, args)) \<noteq> None)) in
     rbind (if sound then matches etags eargs args None (register_at (ob_device w) path) else Ok False)
       (\<lambda>match. Ok (sound, match))))"

text \<open>A register the backend declares unobservable is never classed by an echo.\<close>

definition unobservable :: "window \<Rightarrow> string \<Rightarrow> bool" where
  "unobservable w path = (case register_at (ob_device w) path of
     None \<Rightarrow> False | Some r \<Rightarrow> reg_verify r \<noteq> VERIFIABLE \<and> reg_domain r \<noteq> None)"

definition note_report :: "window \<Rightarrow> string \<Rightarrow> report \<Rightarrow> window" where
  "note_report w path rep =
     (if path \<in> set (dkeys (ob_expected w)) \<or> path \<in> set (ob_dependencies w) \<or> path \<in> set (ob_noted w)
      then w\<lparr>ob_latest := dset path rep (ob_latest w)\<rparr> else w)"

definition class_report :: "window \<Rightarrow> string \<Rightarrow> bool \<Rightarrow> bool \<Rightarrow> window" where
  "class_report w path valid match =
     (let w = (if match then w\<lparr>ob_confirmed := insert path (ob_confirmed w), ob_mismatched := ob_mismatched w - {path}\<rparr>
               else w\<lparr>ob_confirmed := ob_confirmed w - {path}, ob_mismatched := insert path (ob_mismatched w)\<rparr>)
      in w\<lparr>ob_invalid := (if valid then ob_invalid w - {path} else insert path (ob_invalid w))\<rparr>)"

definition absorb :: "message \<Rightarrow> window \<Rightarrow> window res" where
  "absorb report w = (case report of (path, tags, args) \<Rightarrow>
     let noted = note_report w path (tags, args) in
     case dget (ob_expected w) path of
       None \<Rightarrow> Ok noted
     | Some expected \<Rightarrow>
         if unobservable w path then Ok noted
         else rbind (judge_report w path expected (tags, args)) (\<lambda>(valid, match).
           Ok (class_report noted path valid match)))"

definition absorb_all :: "message list \<Rightarrow> window \<Rightarrow> window res" where
  "absorb_all reports w = fold_res absorb reports w"

definition unobserved :: "window \<Rightarrow> string set" where
  "unobserved w = set (dkeys (ob_expected w)) - ob_confirmed w - ob_mismatched w"

definition complete :: "window \<Rightarrow> bool" where
  "complete w = (card (ob_confirmed w) = length (ob_expected w))"

definition dependencies_complete :: "window \<Rightarrow> bool" where
  "dependencies_complete w =
     list_all (\<lambda>p. boolean_dependency (dget (ob_latest w) p) \<noteq> None) (ob_dependencies w)"

section \<open>The last report decides\<close>

definition last_report :: "message list \<Rightarrow> string \<Rightarrow> report option" where
  "last_report reports path = map_option snd (List.find (\<lambda>m. fst m = path) (rev reports))"


lemma last_report_snoc: "last_report (rs @ [(p, rep)]) path = (if p = path then Some rep else last_report rs path)"
  by (simp add: last_report_def)

lemma window_frame:
  assumes "absorb m w = Ok w'"
  shows "ob_expected w' = ob_expected w" "ob_device w' = ob_device w" "ob_dependencies w' = ob_dependencies w"
    "ob_noted w' = ob_noted w"
  using assms by (auto simp: absorb_def note_report_def class_report_def Let_def rbind_Ok_iff
      split: prod.splits option.splits if_splits)

lemma judge_report_cong: "ob_device w = ob_device w' \<Longrightarrow> judge_report w = judge_report w'"
proof (intro ext)
  fix path expected rep
  assume dev: "ob_device w = ob_device w'"
  show "judge_report w path expected rep = judge_report w' path expected rep"
    unfolding judge_report_def valid_feedback_def dev ..
qed

lemma unobservable_cong: "ob_device w = ob_device w' \<Longrightarrow> unobservable w = unobservable w'"
  by (intro ext) (simp add: unobservable_def)

text \<open>The class a window gives a path, as a value.\<close>

definition class_of :: "window \<Rightarrow> string \<Rightarrow> bool \<times> bool \<times> bool" where
  "class_of w path = (path \<in> ob_confirmed w, path \<in> ob_mismatched w, path \<in> ob_invalid w)"

lemma note_report_class: "class_of (note_report w p rep) path = class_of w path"
  by (simp add: note_report_def class_of_def)

lemma class_report_class:
  "class_of (class_report w p valid match) path = (if p = path then (match, \<not> match, \<not> valid) else class_of w path)"
  by (simp add: class_report_def class_of_def Let_def)

lemma absorb_cases:
  assumes "absorb (p, rep) w = Ok w'"
  shows "w' = note_report w p rep \<and> (dget (ob_expected w) p = None \<or> unobservable w p)
      \<or> (\<exists>e valid match. dget (ob_expected w) p = Some e \<and> \<not> unobservable w p
           \<and> judge_report w p e rep = Ok (valid, match) \<and> w' = class_report (note_report w p rep) p valid match)"
  using assms by (cases rep) (auto simp: absorb_def Let_def rbind_Ok_iff split: option.splits if_splits)

lemma absorb_class:
  assumes "absorb (p, rep) w = Ok w'"
  shows "p \<noteq> path \<Longrightarrow> class_of w' path = class_of w path"
    and "dget (ob_expected w) p = None \<or> unobservable w p \<Longrightarrow> class_of w' p = class_of w p"
    and "dget (ob_expected w) p = Some e \<Longrightarrow> \<not> unobservable w p \<Longrightarrow>
      \<exists>valid match. judge_report w p e rep = Ok (valid, match) \<and> class_of w' p = (match, \<not> match, \<not> valid)"
proof -
  note cases = absorb_cases [OF assms]
  show "p \<noteq> path \<Longrightarrow> class_of w' path = class_of w path"
    "dget (ob_expected w) p = None \<or> unobservable w p \<Longrightarrow> class_of w' p = class_of w p"
    "dget (ob_expected w) p = Some e \<Longrightarrow> \<not> unobservable w p \<Longrightarrow>
      \<exists>valid match. judge_report w p e rep = Ok (valid, match) \<and> class_of w' p = (match, \<not> match, \<not> valid)"
    using cases by (auto simp: note_report_class class_report_class)
qed

lemma absorb_latest:
  assumes "absorb (p, rep) w = Ok w'"
  shows "dget (ob_latest w') path = (if p = path \<and> (path \<in> set (dkeys (ob_expected w))
      \<or> path \<in> set (ob_dependencies w) \<or> path \<in> set (ob_noted w)) then Some rep else dget (ob_latest w) path)"
proof -
  have "ob_latest w' = ob_latest (note_report w p rep)"
    using absorb_cases [OF assms] by (auto simp: class_report_def Let_def)
  then show ?thesis by (auto simp: note_report_def dict_simps)
qed

lemma absorb_all_snoc: "absorb_all (rs @ [m]) w = rbind (absorb_all rs w) (absorb m)"
  by (cases "absorb_all rs w"; cases "absorb m (projr (absorb_all rs w))") (simp_all add: absorb_all_def fold_res_append)

lemma absorb_all_frame:
  "absorb_all rs w = Ok w' \<Longrightarrow> ob_expected w' = ob_expected w \<and> ob_device w' = ob_device w
     \<and> ob_dependencies w' = ob_dependencies w \<and> ob_noted w' = ob_noted w"
proof (induction rs arbitrary: w' rule: rev_induct)
  case Nil
  then show ?case by (simp add: absorb_all_def)
next
  case (snoc m rs)
  then obtain v where "absorb_all rs w = Ok v" "absorb m v = Ok w'" by (auto simp: absorb_all_snoc rbind_Ok_iff)
  with snoc.IH window_frame show ?case by metis
qed

text \<open>The class a register has when \<open>last\<close> was the last report of it.\<close>

definition classed :: "window \<Rightarrow> string \<Rightarrow> report option \<Rightarrow> bool \<times> bool \<times> bool \<Rightarrow> bool" where
  "classed w path rep c = (case (dget (ob_expected w) path, rep) of
     (Some e, Some got) \<Rightarrow> if unobservable w path then c = (False, False, False)
       else \<exists>valid match. judge_report w path e got = Ok (valid, match) \<and> c = (match, \<not> match, \<not> valid)
   | _ \<Rightarrow> c = (False, False, False))"

lemma class_last:
  assumes "absorb_all rs w = Ok w'" and "\<forall>p. class_of w p = (False, False, False)"
  shows "classed w path (last_report rs path) (class_of w' path)"
  using assms(1)
proof (induction rs arbitrary: w' rule: rev_induct)
  case Nil
  then show ?case using assms(2)
    by (simp add: absorb_all_def last_report_def classed_def split: option.splits)
next
  case (snoc m rs)
  obtain p rep where m: "m = (p, rep)" by (cases m)
  obtain v where v: "absorb_all rs w = Ok v" "absorb (p, rep) v = Ok w'"
    using snoc.prems by (auto simp: absorb_all_snoc rbind_Ok_iff m)
  have frame: "ob_expected v = ob_expected w" "ob_device v = ob_device w" using absorb_all_frame [OF v(1)] by simp_all
  note cong = judge_report_cong [OF frame(2)] unobservable_cong [OF frame(2)]
  show ?case
  proof (cases "p = path")
    case False
    then have "class_of w' path = class_of v path" by (rule absorb_class(1) [OF v(2)])
    with snoc.IH [OF v(1)] False show ?thesis by (simp add: m last_report_snoc)
  next
    case path: True
    show ?thesis
    proof (cases "dget (ob_expected w) path")
      case None
      with absorb_class(2) [OF v(2)] snoc.IH [OF v(1)] path show ?thesis by (simp add: frame classed_def)
    next
      case (Some e)
      show ?thesis
      proof (cases "unobservable w path")
        case True
        with absorb_class(2) [OF v(2)] snoc.IH [OF v(1)] path Some show ?thesis
          by (simp add: frame cong classed_def m last_report_snoc split: option.splits)
      next
        case False
        with absorb_class(3) [OF v(2), of e] path Some show ?thesis
          by (simp add: frame cong m last_report_snoc classed_def)
      qed
    qed
  qed
qed

lemma fresh_window [simp]:
  "class_of (Observation expected dev deps noted) p = (False, False, False)"
  "ob_expected (Observation expected dev deps noted) = expected"
  "ob_device (Observation expected dev deps noted) = dev"
  "ob_latest (Observation expected dev deps noted) = []"
  "ob_dependencies (Observation expected dev deps noted) = deps"
  "ob_noted (Observation expected dev deps noted) = noted"
  by (simp_all add: Observation_def class_of_def)

lemma latest_last:
  assumes "absorb_all reports (Observation expected dev deps noted) = Ok w" and "path \<in> set deps"
  shows "dget (ob_latest w) path = last_report reports path"
  using assms(1)
proof (induction reports arbitrary: w rule: rev_induct)
  case Nil
  then show ?case by (auto simp: absorb_all_def last_report_def)
next
  case (snoc m rs)
  obtain p rep where m: "m = (p, rep)" by (cases m)
  obtain v where v: "absorb_all rs (Observation expected dev deps noted) = Ok v" "absorb (p, rep) v = Ok w"
    using snoc.prems by (auto simp: absorb_all_snoc rbind_Ok_iff m)
  show ?case
    using absorb_latest [OF v(2), of path] snoc.IH [OF v(1)] absorb_all_frame [OF v(1)] assms(2)
    by (simp add: m last_report_snoc)
qed

text \<open>
  C20. The last report decides: after any sequence of reports, an expected register the backend can
  report is confirmed, mismatched or invalid exactly as its last report alone would be judged, a
  register without a report, an unobservable one and an unexpected one are in no class, and the
  value kept for a dependency is its last report, malformed or not.
\<close>

theorem last_report_decides:
  assumes "absorb_all reports (Observation expected dev deps noted) = Ok w"
  shows "classed (Observation expected dev deps noted) path (last_report reports path) (class_of w path)
    \<and> (path \<in> set deps \<longrightarrow> dget (ob_latest w) path = last_report reports path)"
  using class_last [OF assms, of path] latest_last [OF assms, of path] by simp

lemma judged_false: "judge_report w path e rep = Ok (valid, match) \<Longrightarrow> match \<Longrightarrow> valid"
  by (auto simp: judge_report_def rbind_Ok_iff Let_def split: prod.splits if_splits)

text \<open>What the classes of a window can be, path by path.\<close>

lemma class_cases:
  assumes "absorb_all reports (Observation expected dev deps noted) = Ok w"
  shows "path \<in> set (dkeys expected) \<and> (path \<notin> ob_confirmed w \<or> path \<notin> ob_mismatched w)
      \<and> (path \<in> ob_invalid w \<longrightarrow> path \<in> ob_mismatched w)
    \<or> path \<notin> ob_confirmed w \<and> path \<notin> ob_mismatched w \<and> path \<notin> ob_invalid w"
proof -
  have "classed (Observation expected dev deps noted) path (last_report reports path) (class_of w path)"
    by (rule class_last [OF assms]) simp
  then show ?thesis
    using judged_false [of _ path] dget_None [of expected path]
    by (auto simp: classed_def class_of_def split: option.splits if_splits)
qed

lemma complete_iff:
  assumes "absorb_all reports (Observation expected dev deps noted) = Ok w" and "distinct (dkeys expected)"
  shows "complete w \<longleftrightarrow> ob_confirmed w = set (dkeys expected)"
proof -
  have exp: "ob_expected w = expected" using absorb_all_frame [OF assms(1)] by simp
  have sub: "ob_confirmed w \<subseteq> set (dkeys expected)" using class_cases [OF assms(1)] by blast
  have "complete w \<longleftrightarrow> card (ob_confirmed w) = card (set (dkeys expected))"
    using distinct_card [OF assms(2)] by (simp add: complete_def exp)
  also have "\<dots> \<longleftrightarrow> ob_confirmed w = set (dkeys expected)"
    using sub card_subset_eq by (metis List.finite_set)
  finally show ?thesis .
qed

text \<open>
  C21. The classes of a window: whatever was reported, confirmed, mismatched and unobserved registers
  partition the expected ones, invalid ones are mismatched, and the window is complete exactly
  when every expected register is confirmed.
\<close>

theorem window_partition:
  assumes "absorb_all reports (Observation expected dev deps noted) = Ok w" and "distinct (dkeys expected)"
  shows "ob_confirmed w \<inter> ob_mismatched w = {} \<and> ob_invalid w \<subseteq> ob_mismatched w
    \<and> ob_confirmed w \<union> ob_mismatched w \<union> unobserved w = set (dkeys expected)
    \<and> unobserved w \<inter> (ob_confirmed w \<union> ob_mismatched w) = {}
    \<and> (complete w \<longleftrightarrow> ob_confirmed w = set (dkeys expected))"
proof -
  have exp: "ob_expected w = expected" using absorb_all_frame [OF assms(1)] by simp
  note cls = class_cases [OF assms(1)]
  have sub: "ob_confirmed w \<subseteq> set (dkeys expected)" "ob_mismatched w \<subseteq> set (dkeys expected)" using cls by blast+
  show ?thesis
  proof (intro conjI)
    show "ob_confirmed w \<inter> ob_mismatched w = {}" "ob_invalid w \<subseteq> ob_mismatched w" using cls by blast+
    show "ob_confirmed w \<union> ob_mismatched w \<union> unobserved w = set (dkeys expected)"
      using sub by (auto simp: unobserved_def exp)
    show "unobserved w \<inter> (ob_confirmed w \<union> ob_mismatched w) = {}" by (auto simp: unobserved_def)
  qed (rule complete_iff [OF assms])
qed

text \<open>A link that is contradicted first and confirmed by a later report.\<close>

definition revoked_reports :: "message list" where
  "revoked_reports = [(''/output/1/stereo'', ''i'', [VInt 0]), (''/output/1/stereo'', ''i'', [VInt 1])]"

lemma revoked_absorbed:
  "absorb_all revoked_reports (Observation [(''/output/1/stereo'', (''i'', [VInt 1]))] None [''/output/1/stereo''] []) =
     Ok \<lparr>ob_expected = [(''/output/1/stereo'', (''i'', [VInt 1]))], ob_device = None,
       ob_dependencies = [''/output/1/stereo''], ob_noted = [],
       ob_latest = [(''/output/1/stereo'', (''i'', [VInt 1]))], ob_confirmed = {''/output/1/stereo''},
       ob_mismatched = {}, ob_invalid = {}\<rparr>"
  by (simp add: absorb_all_def revoked_reports_def absorb_def Observation_def note_report_def unobservable_def
      register_at_def judge_report_def valid_feedback_def valid_argument_def not_comparable_def matches_def
      match_argument_def int_domain_ok_def pan_argument_def class_report_def suffix_to_prefix Let_def)

lemma last_report_decides_witness:
  "dget (ob_latest \<lparr>ob_expected = [(''/output/1/stereo'', (''i'', [VInt 1]))], ob_device = None,
       ob_dependencies = [''/output/1/stereo''], ob_noted = [],
       ob_latest = [(''/output/1/stereo'', (''i'', [VInt 1]))], ob_confirmed = {''/output/1/stereo''},
       ob_mismatched = {}, ob_invalid = {}\<rparr>) ''/output/1/stereo''
     = last_report revoked_reports ''/output/1/stereo''"
  using last_report_decides [OF revoked_absorbed, of "''/output/1/stereo''"] by simp

lemma window_partition_witness:
  "complete \<lparr>ob_expected = [(''/output/1/stereo'', (''i'', [VInt 1]))], ob_device = None,
       ob_dependencies = [''/output/1/stereo''], ob_noted = [],
       ob_latest = [(''/output/1/stereo'', (''i'', [VInt 1]))], ob_confirmed = {''/output/1/stereo''},
       ob_mismatched = {}, ob_invalid = {}\<rparr>"
  using window_partition [OF revoked_absorbed] by simp

end
