(* ===== verification/DspLimits.thy ===== *)
theory DspLimits
  imports Playback Base Autogain
begin

text \<open>
  \<^verbatim>\<open>limits.py\<close>: the limits of the UCX II that hold across channels. An apply is counted as the
  state it leaves behind: its own writes over what was observed of every output it does not
  write. The lemmas show that a plan passes exactly when that state keeps both limits.
\<close>

record dsp_limits =
  roomeq_channels :: nat
  crossfeed_pairs :: nat

definition LIMITS :: "(string, dsp_limits) dict" where
  "LIMITS = [(''Fireface UCX II'', \<lparr>roomeq_channels = 16, crossfeed_pairs = 4\<rparr>)]"

definition ROOMEQ :: "int \<Rightarrow> string" where "ROOMEQ channel = chan_path ''output'' channel ''roomeq''"
definition CROSSFEED :: "int \<Rightarrow> string" where "CROSSFEED channel = chan_path ''output'' channel ''crossfeed''"
definition LINK_FLAG :: "int \<Rightarrow> string" where "LINK_FLAG channel = chan_path ''output'' channel ''stereo''"
definition DSPLOAD :: string where "DSPLOAD = ''/hardware/dspload''"
definition LOAD_PATHS :: "string list" where "LOAD_PATHS = [DSPLOAD]"

definition limits_of :: "config \<Rightarrow> (dsp_limits \<times> int list) option" where
  "limits_of c = (case (device_for_name (cfg_device_name c), dget LIMITS (cfg_device_name c)) of
     (Some d, Some l) \<Rightarrow> Some (l, channels_for d ''output'')
   | _ \<Rightarrow> None)"

type_synonym dsp_writes = "(string \<times> args) list"
type_synonym states = "(int, int) dict"

text \<open>\<open>d.get(k)\<close> read as a truth value.\<close>

definition truthy :: "states \<Rightarrow> int \<Rightarrow> bool" where
  "truthy d k = (case dget d k of Some v \<Rightarrow> v \<noteq> 0 | None \<Rightarrow> False)"

datatype exceeded = TooManyRoomEQ "int list" | TooManyCrossfeed "int list"

definition running_rooms :: "states \<Rightarrow> int list \<Rightarrow> int list" where
  "running_rooms roomeq linked = sorted_set (map fst (filter (\<lambda>(ch, v). v \<noteq> 0) roomeq)
     @ concat (map (\<lambda>left. if truthy roomeq left \<or> truthy roomeq (left + 1) then [left, left + 1] else []) linked))"

definition running_pairs :: "states \<Rightarrow> int list" where
  "running_pairs crossfeed = sorted_set (map (\<lambda>(ch, v). pair_left ch) (filter (\<lambda>(ch, v). v \<noteq> 0) crossfeed))"

definition limit_problem :: "dsp_limits \<Rightarrow> states \<Rightarrow> states \<Rightarrow> int list \<Rightarrow> exceeded option" where
  "limit_problem l roomeq crossfeed linked =
     (let rooms = running_rooms roomeq linked; pairs = running_pairs crossfeed in
      if roomeq_channels l < length rooms then Some (TooManyRoomEQ rooms)
      else if crossfeed_pairs l < length pairs then Some (TooManyCrossfeed pairs)
      else None)"

section \<open>What a config declares\<close>

definition declare_setting :: "channel_setting \<Rightarrow> states \<times> states \<Rightarrow> (states \<times> states) res" where
  "declare_setting s st = (case st of (roomeq, crossfeed) \<Rightarrow>
     if cs_family s = ''output'' \<and> cs_option s = ''roomeq''
     then rbind (py_integer (cs_value s)) (\<lambda>v. Ok (dset (cs_channel s) v roomeq, crossfeed))
     else if cs_family s = ''output'' \<and> cs_option s = ''crossfeed''
     then rbind (py_integer (cs_value s)) (\<lambda>v. Ok (roomeq, dset (cs_channel s) v crossfeed))
     else Ok st)"

definition declared_dsp :: "config \<Rightarrow> (states \<times> states) res" where
  "declared_dsp c = fold_res declare_setting (cfg_channels c) ([], [])"

definition declared_output_links :: "config \<Rightarrow> int list res" where
  "declared_output_links c = rbind (map_res link_requirements (cfg_routes c)) (\<lambda>lss. Ok
     (map (\<lambda>(kind, channel, linked). channel)
        (filter (\<lambda>(kind, channel, linked). kind = ''output'' \<and> linked) (concat lss))))"

definition validate_dsp_limits :: "config \<Rightarrow> unit res" where
  "validate_dsp_limits c = (case limits_of c of
     None \<Rightarrow> Ok ()
   | Some (l, _) \<Rightarrow> rbind (declared_dsp c) (\<lambda>(roomeq, crossfeed).
       rbind (declared_output_links c) (\<lambda>linked.
         check (limit_problem l roomeq crossfeed linked = None) ConfigError)))"

section \<open>What an apply leaves behind\<close>

text \<open>The first argument of a report or a write as an integer.\<close>

definition first_integer :: "args \<Rightarrow> int res" where
  "first_integer args = (case args of [] \<Rightarrow> Raise IndexError | v # _ \<Rightarrow> py_integer v)"

text \<open>A warning about the device's load; a missing or malformed report is no warning.\<close>

definition overload :: "reports \<Rightarrow> int option res" where
  "overload latest = (case dget latest DSPLOAD of
     None \<Rightarrow> Ok None
   | Some (tags, args) \<Rightarrow> (case first_integer args of
       Inl e \<Rightarrow> if e \<in> {KeyError, IndexError, TypeError, ValueError} then Ok None else Inl e
     | Inr load \<Rightarrow> Ok (if load < 100 then None else Some load)))"

definition channel_of :: "(int \<Rightarrow> string) \<Rightarrow> int list \<Rightarrow> string \<Rightarrow> int option" where
  "channel_of template channels path = List.find (\<lambda>ch. template ch = path) channels"

definition written_values :: "dsp_writes \<Rightarrow> (int \<Rightarrow> string) \<Rightarrow> int list \<Rightarrow> (int \<times> int) list res" where
  "written_values writes template channels = rbind (map_res (\<lambda>(path, args).
       case channel_of template channels path of
         None \<Rightarrow> Ok []
       | Some ch \<Rightarrow> rbind (first_integer args) (\<lambda>v. Ok [(ch, v)])) writes) (\<lambda>xss. Ok (concat xss))"

definition written_dsp :: "dsp_writes \<Rightarrow> (int \<Rightarrow> string) \<Rightarrow> int list \<Rightarrow> states res" where
  "written_dsp writes template channels =
     rbind (written_values writes template channels) (\<lambda>vs. Ok (dupdate [] vs))"

definition switching_on :: "config \<Rightarrow> dsp_writes \<Rightarrow> string list res" where
  "switching_on c writes = (case limits_of c of
     None \<Rightarrow> Ok []
   | Some (_, channels) \<Rightarrow> rbind (written_dsp writes ROOMEQ channels) (\<lambda>rooms.
       rbind (written_dsp writes CROSSFEED channels) (\<lambda>feeds. Ok
         (map (\<lambda>(ch, v). ROOMEQ ch) (filter (\<lambda>(ch, v). v \<noteq> 0) rooms)
          @ map (\<lambda>(ch, v). CROSSFEED ch) (filter (\<lambda>(ch, v). v \<noteq> 0) feeds)))))"

definition switches_on :: "config \<Rightarrow> dsp_writes \<Rightarrow> bool res" where
  "switches_on c writes = rbind (switching_on c writes) (\<lambda>ps. Ok (ps \<noteq> []))"

definition dsp_observation_paths :: "config \<Rightarrow> string list" where
  "dsp_observation_paths c = (case limits_of c of
     None \<Rightarrow> []
   | Some (_, channels) \<Rightarrow> concat (map (\<lambda>ch. [ROOMEQ ch, CROSSFEED ch]) channels)
       @ map LINK_FLAG (filter (\<lambda>ch. ch mod 2 \<noteq> 0) channels))"

text \<open>An output that did not report, or not a number, counts as off.\<close>

definition observed_value :: "reports \<Rightarrow> string \<Rightarrow> int res" where
  "observed_value observed path = (case dget observed path of
     None \<Rightarrow> Ok 0
   | Some (tags, args) \<Rightarrow> (case first_integer args of
       Inl e \<Rightarrow> if e \<in> {IndexError, TypeError, ValueError} then Ok 0 else Inl e
     | Inr v \<Rightarrow> Ok v))"

definition state_left :: "dsp_writes \<Rightarrow> reports \<Rightarrow> int list \<Rightarrow> (int \<Rightarrow> string) \<Rightarrow> states res" where
  "state_left writes observed channels template =
     rbind (map_res (\<lambda>ch. rbind (observed_value observed (template ch)) (\<lambda>v. Ok (ch, v))) channels) (\<lambda>values.
     rbind (written_dsp writes template channels) (\<lambda>written. Ok (dupdate (dupdate [] values) written)))"

definition dsp_problem :: "config \<Rightarrow> dsp_writes \<Rightarrow> reports \<Rightarrow> exceeded option res" where
  "dsp_problem c writes observed = (case limits_of c of
     None \<Rightarrow> Ok None
   | Some (l, channels) \<Rightarrow> rbind (switches_on c writes) (\<lambda>on.
       if \<not> on then Ok None
       else rbind (state_left writes observed channels ROOMEQ) (\<lambda>roomeq.
         rbind (state_left writes observed channels CROSSFEED) (\<lambda>crossfeed.
         rbind (state_left writes observed channels LINK_FLAG) (\<lambda>links.
           Ok (limit_problem l roomeq crossfeed
                 (map fst (filter (\<lambda>(ch, v). ch mod 2 \<noteq> 0 \<and> v = 1) links))))))))"

section \<open>The state after an apply\<close>

text \<open>
  The reference: the value a register has after the writes, which is its last write's, else its
  report's, else off.
\<close>

definition last_write :: "dsp_writes \<Rightarrow> string \<Rightarrow> args option" where
  "last_write writes path = map_option snd (List.find (\<lambda>m. fst m = path) (rev writes))"

definition value_after :: "dsp_writes \<Rightarrow> reports \<Rightarrow> string \<Rightarrow> int res" where
  "value_after writes observed path = (case last_write writes path of
     Some args \<Rightarrow> first_integer args | None \<Rightarrow> observed_value observed path)"


definition is_on :: "dsp_writes \<Rightarrow> reports \<Rightarrow> string \<Rightarrow> bool" where
  "is_on writes observed path = (\<exists>v. value_after writes observed path = Ok v \<and> v \<noteq> 0)"

definition pair_linked :: "dsp_writes \<Rightarrow> reports \<Rightarrow> int \<Rightarrow> bool" where
  "pair_linked writes observed left = (value_after writes observed (LINK_FLAG left) = Ok 1)"

definition runs_roomeq :: "dsp_writes \<Rightarrow> reports \<Rightarrow> int \<Rightarrow> bool" where
  "runs_roomeq writes observed ch = (is_on writes observed (ROOMEQ ch)
     \<or> (let left = pair_left ch in pair_linked writes observed left
          \<and> (is_on writes observed (ROOMEQ left) \<or> is_on writes observed (ROOMEQ (left + 1)))))"

lemma last_write_Nil [simp]: "last_write [] p = None"
  by (simp add: last_write_def)

lemma last_write_Cons:
  "last_write ((q, a) # ws) p = (case last_write ws p of Some b \<Rightarrow> Some b | None \<Rightarrow> if q = p then Some a else None)"
  by (simp add: last_write_def find_append split: option.splits)

lemma channel_of_Some: "channel_of t chs p = Some ch \<Longrightarrow> ch \<in> set chs \<and> t ch = p"
  by (auto simp: channel_of_def dest!: find_SomeD)

lemma channel_of_hit: "inj_on t (set chs) \<Longrightarrow> ch \<in> set chs \<Longrightarrow> channel_of t chs (t ch) = Some ch"
  using find_NoneD [of "\<lambda>c. t c = t ch" chs ch]
  by (cases "channel_of t chs (t ch)") (auto simp: channel_of_def inj_on_def dest!: find_SomeD)

lemma written_values_keys:
  assumes "written_values ws t chs = Ok vs"
  shows "fst ` set vs \<subseteq> set chs"
proof -
  let ?f = "\<lambda>(path, args). case channel_of t chs path of None \<Rightarrow> Ok []
       | Some ch \<Rightarrow> rbind (first_integer args) (\<lambda>v. Ok [(ch, v)])"
  obtain xss where x: "map_res ?f ws = Ok xss" "vs = concat xss"
    using assms by (auto simp: written_values_def rbind_Ok_iff)
  have "fst y \<in> set chs" if "?f w = Ok xs" "y \<in> set xs" for w xs y
    using that channel_of_Some by (auto simp: rbind_Ok_iff split: option.splits prod.splits)
  then show ?thesis using map_res_from [OF x(1)] by (auto simp: x(2)) fastforce
qed

lemma written_values_last:
  assumes "written_values ws t chs = Ok vs" and "inj_on t (set chs)" and "ch \<in> set chs"
  shows "case last_write ws (t ch) of
       None \<Rightarrow> map_of (rev vs) ch = None
     | Some args \<Rightarrow> \<exists>v. first_integer args = Ok v \<and> map_of (rev vs) ch = Some v"
  using assms(1)
proof (induction ws arbitrary: vs)
    case Nil
    then show ?case by (simp add: written_values_def)
  next
    case (Cons w ws)
    obtain p a where w: "w = (p, a)" by (cases w)
    obtain x us where x: "(case channel_of t chs p of None \<Rightarrow> Ok []
         | Some c \<Rightarrow> rbind (first_integer a) (\<lambda>v. Ok [(c, v)])) = Ok x"
      "written_values ws t chs = Ok us" "vs = x @ us"
      using Cons.prems by (auto simp: written_values_def w rbind_Ok_iff)
    note IH = Cons.IH [OF x(2)]
    show ?case
    proof (cases "channel_of t chs p")
      case None
      then have "p \<noteq> t ch" using channel_of_hit [OF assms(2,3)] by auto
      with IH x(1,3) None show ?thesis by (auto simp: w last_write_Cons split: option.splits)
    next
      case (Some c)
      then obtain v where v: "first_integer a = Ok v" "x = [(c, v)]" using x(1) by (auto simp: rbind_Ok_iff)
      have c: "c \<in> set chs" "t c = p" using channel_of_Some [OF Some] by simp_all
      then have "p = t ch \<longleftrightarrow> c = ch" using assms(2,3) by (auto simp: inj_on_def)
      with IH x(3) v c show ?thesis
        by (auto simp: w last_write_Cons map_add_def split: option.splits)
    qed
  qed

lemma map_of_rev_distinct: "distinct (map fst d) \<Longrightarrow> map_of (rev d) = map_of d"
  by (subst map_of_inject_set) (simp_all add: rev_map [symmetric])

lemma dget_dupdate: "dget (dupdate d kvs) k = (case map_of (rev kvs) k of Some v \<Rightarrow> Some v | None \<Rightarrow> dget d k)"
  unfolding dupdate_def by (rule pd.lookup_fill)

lemma set_dkeys_dupdate: "set (dkeys (dupdate d kvs)) = set (dkeys d) \<union> fst ` set kvs"
  unfolding dupdate_def by (rule pd.set_keys_fill)

lemma distinct_dkeys_dupdate: "distinct (dkeys d) \<Longrightarrow> distinct (dkeys (dupdate d kvs))"
  unfolding dupdate_def by (rule pd.distinct_fill)

lemma written_dsp_last:
  assumes "written_dsp ws t chs = Ok d" and "inj_on t (set chs)"
  shows "ch \<in> set chs \<Longrightarrow> (case last_write ws (t ch) of
       None \<Rightarrow> dget d ch = None | Some args \<Rightarrow> \<exists>v. first_integer args = Ok v \<and> dget d ch = Some v)"
    and "distinct (dkeys d)" and "set (dkeys d) \<subseteq> set chs"
proof -
  obtain vs where vs: "written_values ws t chs = Ok vs" "d = dupdate [] vs"
    using assms(1) by (auto simp: written_dsp_def rbind_Ok_iff)
  note last = written_values_last [OF vs(1) assms(2)]
  show "ch \<in> set chs \<Longrightarrow> case last_write ws (t ch) of
       None \<Rightarrow> dget d ch = None | Some args \<Rightarrow> \<exists>v. first_integer args = Ok v \<and> dget d ch = Some v"
    using last [of ch] by (auto simp: vs(2) dget_dupdate split: option.splits)
  have sub: "fst ` set vs \<subseteq> set chs" using written_values_keys [OF vs(1)] .
  show "distinct (dkeys d)" "set (dkeys d) \<subseteq> set chs"
    using sub by (auto simp: vs(2) distinct_dkeys_dupdate set_dkeys_dupdate simp del: set_map)
qed

text \<open>The computed state is the state after the writes.\<close>

lemma state_left_value:
  assumes "state_left ws obs chs t = Ok st" and "inj_on t (set chs)"
  shows "ch \<in> set chs \<Longrightarrow> \<exists>v. value_after ws obs (t ch) = Ok v \<and> dget st ch = Some v"
    and "distinct (dkeys st)" and "set (dkeys st) = set chs"
proof -
  obtain vals written where v: "map_res (\<lambda>ch. rbind (observed_value obs (t ch)) (\<lambda>v. Ok (ch, v))) chs = Ok vals"
    and w: "written_dsp ws t chs = Ok written" and st: "st = dupdate (dupdate [] vals) written"
    using assms(1) by (auto simp: state_left_def rbind_Ok_iff)
  have vals: "fst x \<in> set chs \<and> observed_value obs (t (fst x)) = Ok (snd x)" if "x \<in> set vals" for x
    using map_res_from [OF v that] by (auto simp: rbind_Ok_iff)
  have "fst ` set vals = set chs"
  proof (intro subset_antisym subsetI)
    fix c assume "c \<in> set chs"
    then obtain x where "x \<in> set vals" "rbind (observed_value obs (t c)) (\<lambda>v. Ok (c, v)) = Ok x"
      using map_res_to [OF v] by blast
    then show "c \<in> fst ` set vals" by (auto simp: rbind_Ok_iff image_iff intro: bexI [of _ x])
  qed (use vals in auto)
  note keys = this
  note last = written_dsp_last [OF w assms(2)]
  have dist: "distinct (dkeys (dupdate [] vals))" by (rule distinct_dkeys_dupdate) simp
  show "distinct (dkeys st)" unfolding st by (rule distinct_dkeys_dupdate [OF dist])
  show "set (dkeys st) = set chs"
    unfolding st set_dkeys_dupdate keys using last(3) by auto
  show "\<exists>v. value_after ws obs (t ch) = Ok v \<and> dget st ch = Some v" if ch: "ch \<in> set chs"
  proof -
    have "ch \<in> fst ` set (rev vals)" using keys ch by simp
    then obtain v where "map_of (rev vals) ch = Some v" by (metis map_of_eq_None_iff not_None_eq)
    moreover from this vals [of "(ch, v)"] have "observed_value obs (t ch) = Ok v" by (auto dest: map_of_SomeD)
    ultimately have obs: "observed_value obs (t ch) = Ok v" "dget (dupdate [] vals) ch = Some v"
      by (auto simp: dget_dupdate)
    have "dget st ch = (case dget written ch of Some v \<Rightarrow> Some v | None \<Rightarrow> dget (dupdate [] vals) ch)"
      unfolding st dget_dupdate [of _ written] map_of_rev_distinct [OF last(2)] ..
    then show ?thesis using last(1) [OF ch] obs by (auto simp: value_after_def split: option.splits)
  qed
qed

section \<open>Counting\<close>

lemma truthy_on:
  assumes "state_left ws obs chs t = Ok st" and "inj_on t (set chs)"
  shows "truthy st ch \<longleftrightarrow> ch \<in> set chs \<and> is_on ws obs (t ch)"
proof (cases "ch \<in> set chs")
  case True
  with state_left_value(1) [OF assms True] show ?thesis by (auto simp: truthy_def is_on_def)
next
  case False
  then have "dget st ch = None" unfolding dget_None state_left_value(3) [OF assms] .
  with False show ?thesis by (simp add: truthy_def)
qed

lemma nonzero_on:
  assumes "state_left ws obs chs t = Ok st" and "inj_on t (set chs)"
  shows "fst ` set (filter (\<lambda>(ch, v). v \<noteq> 0) st) = {ch \<in> set chs. is_on ws obs (t ch)}"
proof -
  have "(ch, v) \<in> set st \<longleftrightarrow> dget st ch = Some v" for ch v
    using state_left_value(2) [OF assms] by simp
  then have "fst ` set (filter (\<lambda>(ch, v). v \<noteq> 0) st) = {ch. truthy st ch}"
    by (auto simp: truthy_def image_iff split: option.splits)
  then show ?thesis unfolding truthy_on [OF assms] .
qed

lemma links_on:
  assumes "state_left ws obs chs t = Ok st" and "inj_on t (set chs)"
  shows "set (map fst (filter (\<lambda>(ch, v). ch mod 2 \<noteq> 0 \<and> v = 1) st))
    = {ch \<in> set chs. ch mod 2 \<noteq> 0 \<and> value_after ws obs (t ch) = Ok 1}"
proof -
  have "(ch, v) \<in> set st \<longleftrightarrow> ch \<in> set chs \<and> value_after ws obs (t ch) = Ok v" for ch v
  proof -
    have "(ch, v) \<in> set st \<longleftrightarrow> dget st ch = Some v" using state_left_value(2) [OF assms] by simp
    also have "\<dots> \<longleftrightarrow> ch \<in> set chs \<and> value_after ws obs (t ch) = Ok v"
    proof (cases "ch \<in> set chs")
      case True
      with state_left_value(1) [OF assms True] show ?thesis by auto
    next
      case False
      then have "dget st ch = None" unfolding dget_None state_left_value(3) [OF assms] .
      with False show ?thesis by simp
    qed
    finally show ?thesis .
  qed
  then show ?thesis by (auto simp: image_iff)
qed

lemma templates_inj: "inj_on ROOMEQ A" "inj_on CROSSFEED A" "inj_on LINK_FLAG A"
  by (auto simp: inj_on_def ROOMEQ_def CROSSFEED_def LINK_FLAG_def chan_path_inject)

lemma ucx2_limits:
  assumes "cfg_device_name c = ''Fireface UCX II''"
  shows "limits_of c = Some (\<lparr>roomeq_channels = 16, crossfeed_pairs = 4\<rparr>, upto 1 20)"
  by (simp add: limits_of_def assms LIMITS_def)

lemma set_running_rooms:
  "set (running_rooms roomeq linked) = fst ` set (filter (\<lambda>(ch, v). v \<noteq> 0) roomeq)
     \<union> {ch. \<exists>left\<in>set linked. (truthy roomeq left \<or> truthy roomeq (left + 1)) \<and> (ch = left \<or> ch = left + 1)}"
  unfolding running_rooms_def set_sorted_set set_append set_map by auto

lemma pair_left_eq: "left mod 2 \<noteq> 0 \<Longrightarrow> (ch = left \<or> ch = left + 1) \<longleftrightarrow> pair_left ch = left"
  unfolding pair_left_def by presburger

lemma pair_left_odd: "pair_left ch mod 2 \<noteq> 0"
  unfolding pair_left_def by presburger

lemma pair_left_range: "pair_left ch \<in> {1..20} \<longleftrightarrow> ch \<in> {1..20}"
  unfolding pair_left_def atLeastAtMost_iff by presburger

text \<open>
  C23. The limits of the device hold after an apply: for a plan that switches Room EQ or Crossfeed on,
  the check passes exactly when in the state the plan leaves behind -- its writes over what was
  observed, a linked pair counting on both channels -- at most 16 outputs run Room EQ and at most
  4 output pairs run Crossfeed.
\<close>

theorem dsp_limits_kept:
  assumes "cfg_device_name c = ''Fireface UCX II''" and "switches_on c writes = Ok True"
    and "dsp_problem c writes observed = Ok p"
  shows "p = None \<longleftrightarrow>
    card {ch \<in> {1..20}. runs_roomeq writes observed ch} \<le> 16
    \<and> card (pair_left ` {ch \<in> {1..20}. is_on writes observed (CROSSFEED ch)}) \<le> 4"
proof -
  let ?chs = "upto 1 20 :: int list"
  obtain roomeq crossfeed links where st: "state_left writes observed ?chs ROOMEQ = Ok roomeq"
    "state_left writes observed ?chs CROSSFEED = Ok crossfeed" "state_left writes observed ?chs LINK_FLAG = Ok links"
    and p: "p = limit_problem \<lparr>roomeq_channels = 16, crossfeed_pairs = 4\<rparr> roomeq crossfeed
       (map fst (filter (\<lambda>(ch, v). ch mod 2 \<noteq> 0 \<and> v = 1) links))"
    using assms(2,3) unfolding dsp_problem_def ucx2_limits [OF assms(1)] by (auto simp: rbind_Ok_iff)
  let ?linked = "map fst (filter (\<lambda>(ch, v). ch mod 2 \<noteq> 0 \<and> v = 1) links)"
  have linked: "set ?linked = {ch \<in> {1..20}. ch mod 2 \<noteq> 0 \<and> pair_linked writes observed ch}"
    using links_on [OF st(3) templates_inj(3)] by (simp add: pair_linked_def)
  have rooms: "set (running_rooms roomeq ?linked) = {ch \<in> {1..20}. runs_roomeq writes observed ch}"
  proof (intro set_eqI)
    fix ch
    have pair: "(\<exists>left. left mod 2 \<noteq> 0 \<and> left \<in> {1..20} \<and> P left \<and> (ch = left \<or> ch = left + 1))
        \<longleftrightarrow> ch \<in> {1..20} \<and> P (pair_left ch)" for P
      using pair_left_odd [of ch] pair_left_range [of ch] by (metis pair_left_eq)
    have "ch \<in> set (running_rooms roomeq ?linked) \<longleftrightarrow> ch \<in> fst ` set (filter (\<lambda>(ch, v). v \<noteq> 0) roomeq)
        \<or> (\<exists>left\<in>set ?linked. (truthy roomeq left \<or> truthy roomeq (left + 1)) \<and> (ch = left \<or> ch = left + 1))"
      unfolding set_running_rooms by blast
    also have "\<dots> \<longleftrightarrow> (ch \<in> {1..20} \<and> is_on writes observed (ROOMEQ ch))
        \<or> (\<exists>left. left mod 2 \<noteq> 0 \<and> left \<in> {1..20} \<and> (pair_linked writes observed left
             \<and> (is_on writes observed (ROOMEQ left) \<or> is_on writes observed (ROOMEQ (left + 1)))) \<and> (ch = left \<or> ch = left + 1))"
    proof -
      have "left + 1 \<le> 20" if "left mod 2 \<noteq> 0" "left \<in> {1..20}" for left :: int
        using that by (simp add: pair_left_range) presburger
      then show ?thesis
        unfolding nonzero_on [OF st(1) templates_inj(1)] linked truthy_on [OF st(1) templates_inj(1)] by auto
    qed
    also have "\<dots> \<longleftrightarrow> ch \<in> {ch \<in> {1..20}. runs_roomeq writes observed ch}"
      unfolding pair by (auto simp: runs_roomeq_def Let_def)
    finally show "ch \<in> set (running_rooms roomeq ?linked) \<longleftrightarrow> ch \<in> {ch \<in> {1..20}. runs_roomeq writes observed ch}" .
  qed
  have pairs: "set (running_pairs crossfeed) = pair_left ` {ch \<in> {1..20}. is_on writes observed (CROSSFEED ch)}"
  proof -
    have "set (running_pairs crossfeed) = pair_left ` fst ` set (filter (\<lambda>(ch, v). v \<noteq> 0) crossfeed)"
      by (simp add: running_pairs_def image_image case_prod_unfold)
    then show ?thesis using nonzero_on [OF st(2) templates_inj(2)] by simp
  qed
  have d: "distinct (running_rooms roomeq ?linked)" "distinct (running_pairs crossfeed)"
    by (simp_all add: running_rooms_def running_pairs_def)
  then have "length (running_rooms roomeq ?linked) = card {ch \<in> {1..20}. runs_roomeq writes observed ch}"
    "length (running_pairs crossfeed) = card (pair_left ` {ch \<in> {1..20}. is_on writes observed (CROSSFEED ch)})"
    using distinct_card [OF d(1)] distinct_card [OF d(2)] unfolding rooms pairs by (simp_all only:)
  then show ?thesis unfolding p limit_problem_def Let_def by (auto simp: not_less)
qed


text \<open>One Room EQ switched on on an otherwise quiet device.\<close>

definition one_room :: dsp_writes where
  "one_room = [(ROOMEQ 3, [VInt 1])]"

lemma one_room_values:
  "written_dsp one_room ROOMEQ (upto 1 20) = Ok [(3, 1)]" "written_dsp one_room CROSSFEED (upto 1 20) = Ok []"
  "written_dsp one_room LINK_FLAG (upto 1 20) = Ok []"
proof -
  have "channel_of CROSSFEED (upto 1 20) (ROOMEQ 3) = None" "channel_of LINK_FLAG (upto 1 20) (ROOMEQ 3) = None"
    by (simp_all add: channel_of_def find_None_iff ROOMEQ_def CROSSFEED_def LINK_FLAG_def chan_path_inject)
  moreover have "channel_of ROOMEQ (upto 1 20) (ROOMEQ 3) = Some 3"
    by (rule channel_of_hit [OF templates_inj(1)]) simp
  ultimately show "written_dsp one_room ROOMEQ (upto 1 20) = Ok [(3, 1)]" "written_dsp one_room CROSSFEED (upto 1 20) = Ok []"
    "written_dsp one_room LINK_FLAG (upto 1 20) = Ok []"
    by (simp_all add: written_dsp_def written_values_def one_room_def first_integer_def dupdate_def)
qed

lemma one_room_checks:
  assumes "cfg_device_name c = ''Fireface UCX II''"
  shows "switches_on c one_room = Ok True" and "\<exists>p. dsp_problem c one_room [] = Ok p"
proof -
  show on: "switches_on c one_room = Ok True"
    by (simp add: switches_on_def switching_on_def ucx2_limits [OF assms] one_room_values)
  have "map_res (\<lambda>ch. rbind (observed_value [] (t ch)) (\<lambda>v. Ok (ch, v))) chs = Ok (map (\<lambda>ch. (ch, 0)) chs)" for t :: "int \<Rightarrow> string" and chs
    by (rule map_res_okI) (simp add: observed_value_def)
  then have st: "\<exists>st. state_left one_room [] (upto 1 20) ROOMEQ = Ok st"
    "\<exists>st. state_left one_room [] (upto 1 20) CROSSFEED = Ok st"
    "\<exists>st. state_left one_room [] (upto 1 20) LINK_FLAG = Ok st"
    using one_room_values by (simp_all add: state_left_def del: upto.simps upto_rec_numeral)
  then obtain a b d where "state_left one_room [] (upto 1 20) ROOMEQ = Ok a"
    "state_left one_room [] (upto 1 20) CROSSFEED = Ok b" "state_left one_room [] (upto 1 20) LINK_FLAG = Ok d"
    by (elim exE)
  then show "\<exists>p. dsp_problem c one_room [] = Ok p"
    unfolding dsp_problem_def ucx2_limits [OF assms] by (simp add: on del: upto.simps upto_rec_numeral)
qed

lemma dsp_limits_kept_witness:
  "\<exists>p. dsp_problem default_config one_room [] = Ok p
     \<and> (p = None \<longleftrightarrow> card {ch \<in> {1..20}. runs_roomeq one_room [] ch} \<le> 16
          \<and> card (pair_left ` {ch \<in> {1..20}. is_on one_room [] (CROSSFEED ch)}) \<le> 4)"
proof -
  have name: "cfg_device_name default_config = ''Fireface UCX II''"
    by (simp add: default_config_def DEFAULT_DEVICE_NAME_def)
  obtain p where p: "dsp_problem default_config one_room [] = Ok p" using one_room_checks(2) [OF name] by blast
  from dsp_limits_kept [OF name one_room_checks(1) [OF name] p] p show ?thesis by blast
qed

end
