(* ===== verification/Prechecks.thy ===== *)
theory Prechecks
  imports Streams Observation DspLimits
begin

text \<open>
  \<^verbatim>\<open>prechecks.py\<close> and \<^verbatim>\<open>peaksafe.py\<close>: what an apply reads and refuses before it writes, and the
  outputs a peak-safe switch pulls down and gives back. Reads run on the connection of \<^verbatim>\<open>Backend\<close>;
  the writing itself is a parameter of the peak-safe wrapper, as in the source. Messages of
  refusals are values, log lines are not modelled.
\<close>

definition VERIFY_TIMEOUT :: rat where "VERIFY_TIMEOUT = 10"

definition stop_check :: "('x world, unit) action" where
  "stop_check = bind should_stop (\<lambda>s. if s then fail (OSErr None) else give ())"

section \<open>Reading dependencies\<close>

lemma stop_check_same:
  "stop_check w = (r, v) \<Longrightarrow> inbox v = inbox w \<and> control v = control w \<and> now v = now w \<and> acked v = acked w \<and> outbox v = outbox w"
  by (auto simp: stop_check_def should_stop_def bind_def fail_def give_def split: list.splits if_splits)

lemma lift_same: "lift x w = (r, v) \<Longrightarrow> v = w"
  by (simp add: lift_def)

text \<open>A round of a reading loop that began before its deadline.\<close>

lemma reading_round:
  assumes "stop_check w = (Ok x, u)" and "messages (1 / 4) u = (Ok ms, v)" and "lift y v = (Ok z, t)"
    and "now w < d"
  shows "(t, w) \<in> reading d"
proof -
  have "0 < d - now u" using stop_check_same [OF assms(1)] assms(4) by simp
  then have "(v, u) \<in> reading d" by (intro messages_reading [OF assms(2)]) simp_all
  then show ?thesis using stop_check_same [OF assms(1)] lift_same [OF assms(3)] by (simp add: reading_def ticks_def)
qed

text \<open>The loop of \<open>read_dependencies\<close>: reports are absorbed delivery by delivery.\<close>

function dependency_loop :: "(window \<Rightarrow> bool) \<Rightarrow> rat \<Rightarrow> window \<Rightarrow> 'x world \<Rightarrow> window res \<times> 'x world" where
  "dependency_loop settled deadline seen w =
     (if settled seen \<or> deadline \<le> now w then give seen w
      else bind stop_check (\<lambda>_. bind (messages (1 / 4)) (\<lambda>reports. bind (lift (absorb_all reports seen))
        (\<lambda>more v. dependency_loop settled deadline more v))) w)"
  by pat_completeness auto
termination
proof (relation "inv_image (measures [\<lambda>(d, w). length (inbox w), \<lambda>(d, w). length (ct_queue (control w)),
    \<lambda>(d, w). ticks d w]) (\<lambda>(s, d, o', w). (d, w))")
  fix settled :: "window \<Rightarrow> bool" and deadline seen x ms z and w u v t :: "'x world"
  assume "\<not> (settled seen \<or> deadline \<le> now w)" and "stop_check w = (Ok x, u)" and "messages (1 / 4) u = (Ok ms, v)"
    and "lift (absorb_all ms seen) v = (Ok z, t)"
  then have "(t, w) \<in> reading deadline" by (intro reading_round) auto
  then show "((settled, deadline, z, t), settled, deadline, seen, w) \<in> inv_image
      (measures [\<lambda>(d, w). length (inbox w), \<lambda>(d, w). length (ct_queue (control w)), \<lambda>(d, w). ticks d w]) (\<lambda>(s, d, o', w). (d, w))"
    by (simp add: reading_def)
qed auto

declare dependency_loop.simps [simp del]

definition link_reports :: "(string \<times> int) list \<Rightarrow> (string, report) dict" where
  "link_reports links = dupdate [] (map (\<lambda>(path, value). (path, (''i'', [VInt value]))) links)"

text \<open>\<open>done\<close> by default: every Boolean dependency and expected link reported validly.\<close>

definition all_reported :: "window \<Rightarrow> bool" where
  "all_reported seen = (dependencies_complete seen \<and> complete seen)"

definition read_dependencies ::
    "string list \<Rightarrow> (string \<times> int) list \<Rightarrow> (window \<Rightarrow> bool) \<Rightarrow> ('x world, reports) action" where
  "read_dependencies paths links settled =
     (if paths = [] then give []
      else bind stop_check (\<lambda>_. bind request_dump (\<lambda>_.
        bind (\<lambda>w. dependency_loop settled (now w + VERIFY_TIMEOUT) (Observation (link_reports links) None paths []) w) (\<lambda>seen.
        bind stop_check (\<lambda>_. give (ob_latest seen))))))"

text \<open>\<open>all(path in seen.latest for path in paths)\<close>.\<close>

definition has_reported :: "string list \<Rightarrow> window \<Rightarrow> bool" where
  "has_reported paths seen = list_all (\<lambda>p. dget (ob_latest seen) p \<noteq> None) paths"

definition volume_reader :: "string list \<Rightarrow> ('x world, reports) action" where
  "volume_reader paths = read_dependencies paths [] (has_reported paths)"

section \<open>DSP limits\<close>

definition plan_writes :: "reg_write list \<Rightarrow> dsp_writes" where
  "plan_writes ws = map (\<lambda>w. (wr_path w, wr_args w)) ws"

definition dsp_limit_problem :: "config \<Rightarrow> reg_write list \<Rightarrow> reports \<Rightarrow> ('x world, exceeded option) action" where
  "dsp_limit_problem c selected latest = bind (lift (switches_on c (plan_writes selected))) (\<lambda>on.
     if \<not> on then give None
     else let missing = filter (\<lambda>p. dget latest p = None) (dsp_observation_paths c) in
       bind (read_dependencies missing [] (has_reported missing)) (\<lambda>seen.
         lift (dsp_problem c (plan_writes selected) (dupdate latest seen))))"

definition within_dsp_limits :: "config \<Rightarrow> plan \<Rightarrow> reports \<Rightarrow> intent \<Rightarrow> ('x world, plan) action" where
  "within_dsp_limits c wanted latest intent = bind (dsp_limit_problem c (pl_writes wanted) latest) (\<lambda>problem.
     if problem = None then give wanted
     else if intent = EXPLICIT then fail (WriteFailed None [] (map wr_path (pl_writes wanted)))
     else bind (lift (switching_on c (plan_writes (pl_writes wanted)))) (\<lambda>held.
       give (wanted\<lparr>pl_writes := filter (\<lambda>w. wr_path w \<notin> set held) (pl_writes wanted)\<rparr>)))"

section \<open>Gain ownership\<close>

datatype gain_refusal =
    GainsOwned "string list"
  | InputLinks "string list"
  | Retained problem

definition input_link_expectations :: "config \<Rightarrow> reg_write list \<Rightarrow> (string \<times> int) list res" where
  "input_link_expectations c selected =
     (let writes = map wr_path selected; dependencies = dependency_paths c in
      fold_res (\<lambda>r links.
        if fst (source r) \<noteq> ''input'' then Ok links
        else rbind (mix_messages r) (\<lambda>ms.
          if \<not> list_ex (\<lambda>m. startswith (fst m) ''/mix/'' \<and> fst m \<in> set writes) ms then Ok links
          else rbind (link_messages r) (\<lambda>ls.
            fold_res (\<lambda>(path, _, args) links.
              if path \<in> set dependencies \<and> endswith path ''/stereo''
              then rbind (to_int (hd args)) (\<lambda>v. Ok (dset path v links)) else Ok links) ls links)))
        (cfg_routes c) [])"

definition gain_problem ::
    "config \<Rightarrow> reg_write list \<Rightarrow> reports \<Rightarrow> intent \<Rightarrow> string list \<Rightarrow> string list \<Rightarrow> gain_refusal option res" where
  "gain_problem c selected latest intent retained confirmed =
     (let stereo = filter (\<lambda>w. endswith (wr_path w) ''/stereo'') selected;
          linked = map wr_path (filter (\<lambda>w. args_eq (wr_args w) [VInt 1]) stereo);
          gains = retained_gains c latest linked (preserves_remember intent);
          blocked = filter (\<lambda>p. p \<in> set gains) (map wr_path selected) in
      if blocked \<noteq> [] then Ok (Some (GainsOwned (sort blocked)))
      else rbind (input_link_expectations c selected) (\<lambda>links.
        let pending = map wr_path stereo;
            wrong = map fst (filter (\<lambda>(path, value). path \<notin> set pending \<and> flag_value (dget latest path) \<noteq> Some value) links) in
        if wrong \<noteq> [] then Ok (Some (InputLinks (sort wrong)))
        else rbind (retention_problem c selected (sorted_set (retained @ gains)) confirmed (Some latest)) (\<lambda>p.
          Ok (map_option Retained p))))"

definition require_gain_ownership ::
    "config \<Rightarrow> reg_write list \<Rightarrow> reports \<Rightarrow> intent \<Rightarrow> string list \<Rightarrow> string list \<Rightarrow> ('x world, unit) action" where
  "require_gain_ownership c selected latest intent retained confirmed =
     bind (lift (gain_problem c selected latest intent retained confirmed)) (\<lambda>p.
       if p = None then give () else fail (OSErr None))"

section \<open>Peak-safe switches\<close>

definition VOLUME :: "int \<Rightarrow> string" where
  "VOLUME output = chan_path ''output'' output ''volume''"

text \<open>The outputs a path changes; None for all of them.\<close>

definition outputs_of_path :: "string \<Rightarrow> int list option" where
  "outputs_of_path path = (let parts = segments (strip_slash path) in
     if hd parts \<in> {''input'', ''playback''} \<and> 3 \<le> length parts \<and> last parts \<noteq> ''stereo'' then None
     else if hd parts \<in> {''mix'', ''output''} \<and> 2 \<le> length parts \<and> is_digits (parts ! 1)
     then (let left = pair_left (int (nat_of_digits (parts ! 1))) in Some [left, left + 1])
     else Some [])"

definition changed_outputs :: "string list \<Rightarrow> device \<Rightarrow> int list" where
  "changed_outputs paths dev =
     (let outputs = channels_for dev ''output''; changed = map outputs_of_path paths in
      if None \<in> set changed then outputs
      else sorted_set (filter (\<lambda>ch. ch \<in> set outputs) (concat (map the changed))))"

definition reported_volume :: "reports \<Rightarrow> int \<Rightarrow> rat option res" where
  "reported_volume observed output = (case dget observed (VOLUME output) of
     None \<Rightarrow> Ok None
   | Some (tags, args) \<Rightarrow> (case args of
       [] \<Rightarrow> Ok None
     | v # _ \<Rightarrow> if py_eq v (VFloat NInf) then Ok (Some LEVEL_MIN)
         else (case float32 v of Inl e \<Rightarrow> if e \<in> {IndexError, TypeError, ValueError} then Ok None else Raise e
               | Inr q \<Rightarrow> Ok (Some q))))"

definition reported_volumes :: "int list \<Rightarrow> reports \<Rightarrow> (int, rat) dict res" where
  "reported_volumes outputs observed = fold_res (\<lambda>output volumes.
     rbind (reported_volume observed output) (\<lambda>v. Ok (case v of None \<Rightarrow> volumes | Some q \<Rightarrow> dset output q volumes))) outputs []"

definition quieting :: "(int, rat) dict \<Rightarrow> message list" where
  "quieting volumes = map (\<lambda>output. (VOLUME output, ''f'', [VFloat (Fin LEVEL_MIN)])) (sort (dkeys volumes))"

definition giving_back :: "(int, rat) dict \<Rightarrow> (string, args) dict \<Rightarrow> message list" where
  "giving_back volumes declared = map (\<lambda>output. (VOLUME output, ''f'',
       case dget declared (VOLUME output) of Some args \<Rightarrow> args
       | None \<Rightarrow> [VFloat (Fin (the (dget volumes output)))])) (sort (dkeys volumes))"

text \<open>
  A failed switch gives the volumes back before it is reported; only an OSError of that is dropped.
\<close>

definition give_back_anyway :: "message list \<Rightarrow> ('x world, unit) action" where
  "give_back_anyway back = attempt is_os_error (send_messages back) (\<lambda>_. give ())"

definition send_quietly ::
    "config \<Rightarrow> plan \<Rightarrow> intent \<Rightarrow> reports \<Rightarrow> (string list \<Rightarrow> ('x world, reports) action)
       \<Rightarrow> (plan \<Rightarrow> ('x world, unit) action) \<Rightarrow> ('x world, unit) action" where
  "send_quietly c wanted intent latest read send = (case device_for_name (cfg_device_name c) of
     None \<Rightarrow> send wanted
   | Some dev \<Rightarrow>
       if \<not> cfg_peak_safe c \<or> intent \<noteq> EXPLICIT \<or> pl_writes wanted = [] then send wanted
       else let outputs = changed_outputs (map wr_path (pl_writes wanted)) dev;
                missing = filter (\<lambda>p. dget latest p = None) (map VOLUME outputs) in
         bind (if missing = [] then give latest else bind (read missing) (\<lambda>more. give (dupdate latest more))) (\<lambda>seen.
         bind (lift (reported_volumes outputs seen)) (\<lambda>volumes.
         if volumes = [] then send wanted
         else let quieted = map VOLUME (dkeys volumes);
                  declared = dupdate [] (map (\<lambda>w. (wr_path w, wr_args w))
                    (filter (\<lambda>w. wr_path w \<in> set quieted) (pl_writes wanted)));
                  rest = wanted\<lparr>pl_writes := filter (\<lambda>w. wr_path w \<notin> set quieted) (pl_writes wanted)\<rparr> in
           bind (send_messages (quieting volumes)) (\<lambda>_.
           bind (on_error (send rest) (give_back_anyway (giving_back volumes declared))) (\<lambda>_.
             send_messages (giving_back volumes declared))))))"

end
