(* ===== verification/Connection.thy ===== *)
theory Connection
  imports Backend
begin

text \<open>
  What holds of a connection whatever its environment does: the state invariant over every
  sequence of operations, the deadlines of its loops, and the accounting of a burst of writes --
  what was acknowledged, what went onto the socket and under which lease, and what a failure
  reports as written and unwritten.
\<close>

section \<open>The state invariant\<close>

definition delivery_size :: "delivery \<Rightarrow> nat" where
  "delivery_size d = HEADER_SIZE + length (dl_payload d)"

definition request_number :: "outgoing \<Rightarrow> int" where
  "request_number r = fst (snd r)"

text \<open>The queue is bounded, accounted, ordered and subscribed; request numbers are never reused.\<close>

definition queue_sound :: "control \<Rightarrow> bool" where
  "queue_sound c \<longleftrightarrow> ct_queue_bytes c = sum_list (map delivery_size (ct_queue c))
     \<and> length (ct_queue c) \<le> CONTROL_QUEUE_PACKETS \<and> ct_queue_bytes c \<le> CONTROL_QUEUE_BYTES
     \<and> sorted_wrt (<) (map dl_sequence (ct_queue c))
     \<and> (\<forall>d \<in> set (ct_queue c). dl_sequence d \<le> ct_last_sequence c \<and> dl_origin d AND ct_sources c \<noteq> 0
          \<and> dl_payload d \<noteq> [] \<and> length (dl_payload d) mod 4 = 0)"

definition requests_sound :: "'x world \<Rightarrow> bool" where
  "requests_sound w \<longleftrightarrow> sorted_wrt (<) (map request_number (outbox w))
     \<and> (\<forall>r \<in> set (outbox w). request_number r \<le> ct_request_id (control w))"

definition connection_sound :: "'x world \<Rightarrow> bool" where
  "connection_sound w \<longleftrightarrow> queue_sound (control w) \<and> requests_sound w"

definition soundly :: "'x world \<Rightarrow> 'x world \<Rightarrow> bool" where
  "soundly w v \<longleftrightarrow> (connection_sound w \<longrightarrow> connection_sound v)"

interpretation so: action_frame soundly
  by unfold_locales (auto simp: soundly_def)

lemma soundly_upd:
  assumes "\<And>c. queue_sound c \<Longrightarrow> queue_sound (f c)" and "\<And>c. ct_request_id (f c) = ct_request_id c"
  shows "keeps soundly (upd f)"
  unfolding upd_def by (rule keeps_change) (simp add: soundly_def connection_sound_def requests_sound_def assms)

lemma soundly_environment:
  assumes "\<And>w. outbox (f w) = outbox w" and "\<And>w. control (f w) = control w"
  shows "keeps soundly (change f)"
  by (rule keeps_change) (simp add: soundly_def connection_sound_def requests_sound_def assms)

lemma soundly_stop: "keeps soundly should_stop"
  by (rule keepsI) (auto simp: should_stop_def soundly_def connection_sound_def requests_sound_def split: list.splits)

lemma soundly_socket: "keeps soundly (socket_wait t)"
  by (rule keepsI)
    (auto simp: socket_wait_def soundly_def connection_sound_def requests_sound_def split: list.splits if_splits)

lemma soundly_close: "keeps soundly close_control"
  unfolding close_control_def by (rule soundly_upd) (simp_all add: queue_sound_def)

lemma soundly_closing: "keeps soundly (closing e)"
  unfolding closing_def by (intro so.keeps_bind soundly_close so.keeps_pure)

lemma soundly_field: "keeps soundly (field f)"
  by (simp add: field_def)

text \<open>A new request takes a number above all earlier ones.\<close>

definition numbered :: "int \<Rightarrow> 'x world \<Rightarrow> bool" where
  "numbered n w \<longleftrightarrow> queue_sound (control w) \<and> ct_request_id (control w) = n
     \<and> sorted_wrt (<) (map request_number (outbox w)) \<and> (\<forall>r \<in> set (outbox w). request_number r < n)"

lemma transmit_sound:
  assumes "transmit (k, n, rest) w = (r, v)" and "numbered n w"
  shows "connection_sound v"
proof -
  have "control v = control w" "outbox v = outbox w \<or> outbox v = outbox w @ [(k, n, rest)]"
    using assms(1) by (auto simp: transmit_def split: list.splits submission.splits)
  with assms(2) show ?thesis
    by (auto simp: numbered_def connection_sound_def requests_sound_def sorted_wrt_append request_number_def
        dest: bspec less_imp_le)
qed

lemma dispatch_sound:
  assumes "numbered n w"
  shows "connection_sound (snd (dispatch (k, n, rest) w))"
proof -
  obtain m t where m: "transmit (k, n, rest) w = (m, t)" by fastforce
  have t: "connection_sound t" using transmit_sound [OF m assms] .
  have shut: "soundly t (snd (closing e t))" for e :: exc
    by (rule keeps_run [OF soundly_closing])
  have "soundly t (snd (dispatch (k, n, rest) w))"
    using m shut by (cases m) (simp_all add: dispatch_def bind_def attempt_def so.same run_simps)
  with t show ?thesis by (simp add: soundly_def)
qed

lemma soundly_check: "keeps soundly check_open"
  unfolding check_open_def
  by (intro so.keeps_bind so.keeps_if soundly_field soundly_stop soundly_closing so.keeps_pure)

lemma soundly_numbering:
  "connection_sound u \<Longrightarrow>
     numbered (ct_request_id (control u) + 1) (u\<lparr>control := control u\<lparr>ct_request_id := ct_request_id (control u) + 1\<rparr>\<rparr>)"
  by (auto simp: numbered_def connection_sound_def requests_sound_def queue_sound_def)

lemma soundly_send_request: "keeps soundly (send_request kind code payload token)"
  unfolding send_request_def
proof (rule so.keeps_bind [OF soundly_check], rule keepsI)
  fix w :: "'a world" and r v
  let ?c = "control w"
  let ?packet = "(kind, ct_request_id ?c + 1, code, token_of token ?c, payload)"
  assume run: "bind (field id) (\<lambda>c.
     if PAYLOAD < length payload \<or> ct_request_id c = 0xffffffff then closing (BackendControlError (Some EOVERFLOW))
     else bind (upd (\<lambda>c. c\<lparr>ct_request_id := ct_request_id c + 1\<rparr>)) (\<lambda>_.
       dispatch (kind, ct_request_id c + 1, code, token_of token c, payload))) w = (r, v)"
  show "soundly w v"
  proof (cases "PAYLOAD < length payload \<or> ct_request_id ?c = 0xffffffff")
    case True
    with run have "closing (BackendControlError (Some EOVERFLOW)) w = (r, v)" by (simp add: field_def run_simps)
    then show ?thesis by (rule keepsD [OF soundly_closing])
  next
    case False
    with run have "dispatch ?packet (w\<lparr>control := ?c\<lparr>ct_request_id := ct_request_id ?c + 1\<rparr>\<rparr>) = (r, v)"
      by (simp add: field_def run_simps upd_def)
    then show ?thesis using dispatch_sound [OF soundly_numbering] by (metis snd_conv soundly_def)
  qed
qed


lemma queue_sound_enqueue:
  assumes "queue_sound c" and "code AND ct_sources c \<noteq> 0" and "payload \<noteq> []" and "length payload mod 4 = 0"
    and "ct_last_sequence c < sequence" and "length (ct_queue c) < CONTROL_QUEUE_PACKETS"
    and "ct_queue_bytes c + (HEADER_SIZE + length payload) \<le> CONTROL_QUEUE_BYTES"
  shows "queue_sound (c\<lparr>ct_last_sequence := sequence, ct_queue := ct_queue c @ [\<lparr>dl_origin = code,
     dl_sequence = sequence, dl_epoch = epoch, dl_payload = payload\<rparr>],
     ct_queue_bytes := ct_queue_bytes c + (HEADER_SIZE + length payload)\<rparr>)"
proof -
  have "\<forall>d \<in> set (ct_queue c). dl_sequence d < sequence"
    using assms(1,5) by (auto simp: queue_sound_def intro: le_less_trans)
  then show ?thesis
    using assms by (auto simp: queue_sound_def sorted_wrt_append delivery_size_def less_imp_le)
qed

lemma queue_sound_last: "queue_sound c \<Longrightarrow> ct_last_sequence c < sequence \<Longrightarrow> queue_sound (c\<lparr>ct_last_sequence := sequence\<rparr>)"
  by (auto simp: queue_sound_def intro: le_less_trans less_imp_le)

lemma queue_sound_close:
  "queue_sound c \<Longrightarrow> queue_sound (c\<lparr>ct_closed := True, ct_lease := None, ct_queue := [], ct_queue_bytes := 0\<rparr>)"
  by (simp add: queue_sound_def)

lemma soundly_event: "keeps soundly (event fr)"
proof -
  have err: "keeps soundly (protocol_error :: ('a world, unit) action)"
    unfolding protocol_error_def by (rule soundly_closing)
  have lease: "keeps soundly (lease_event code sequence payload :: ('a world, unit) action)" for code sequence payload
    unfolding lease_event_def
    by (intro so.keeps_bind soundly_field so.keeps_if err soundly_upd) (simp_all add: queue_sound_def)
  have obs: "keeps soundly (observation_event code sequence payload :: ('a world, unit) action)" for code sequence payload
  proof (rule keepsI)
    fix w :: "'a world" and r v assume run: "observation_event code sequence payload w = (r, v)"
    show "soundly w v" unfolding soundly_def
    proof
      assume "connection_sound w"
      then have q: "queue_sound (control w)" and rq: "requests_sound w" by (simp_all add: connection_sound_def)
      have "queue_sound (control v) \<and> outbox v = outbox w \<and> ct_request_id (control v) = ct_request_id (control w)"
      proof (cases "code \<notin> {SRC_DEVICE, SRC_DERIVED, SRC_METERS} \<or> code AND ct_sources (control w) = 0 \<or> payload = []
          \<or> length payload mod 4 \<noteq> 0 \<or> sequence \<le> ct_last_sequence (control w) \<or> ct_epoch (control w) = []")
        case True
        with run have "protocol_error w = (r, v)"
          unfolding observation_event_def by (simp only: field_def bind_look id_apply if_True)
        then show ?thesis using queue_sound_close [OF q] by (auto simp: protocol_error_def run_simps)
      next
        case False
        then have ok: "code AND ct_sources (control w) \<noteq> 0" "payload \<noteq> []" "length payload mod 4 = 0"
          "ct_last_sequence (control w) < sequence" by simp_all
        let ?c = "control w\<lparr>ct_last_sequence := sequence\<rparr>"
        have q': "queue_sound ?c" using queue_sound_last [OF q ok(4)] .
        have go: "(let size = HEADER_SIZE + length payload in
           if CONTROL_QUEUE_PACKETS \<le> length (ct_queue (control w)) \<or> CONTROL_QUEUE_BYTES < ct_queue_bytes (control w) + size
           then closing (BackendControlError (Some ENOBUFS))
           else upd (\<lambda>c. c\<lparr>ct_queue := ct_queue c @ [\<lparr>dl_origin = code, dl_sequence = sequence,
               dl_epoch = ct_epoch c, dl_payload = payload\<rparr>], ct_queue_bytes := ct_queue_bytes c + size\<rparr>))
           (w\<lparr>control := ?c\<rparr>) = (r, v)"
          using run unfolding observation_event_def
          by (simp only: field_def bind_look id_apply False if_False upd_def bind_change)
        show ?thesis
        proof (cases "CONTROL_QUEUE_PACKETS \<le> length (ct_queue (control w))
            \<or> CONTROL_QUEUE_BYTES < ct_queue_bytes (control w) + (HEADER_SIZE + length payload)")
          case True
          with go show ?thesis using queue_sound_close [OF q'] by (auto simp: Let_def run_simps)
        next
          case full: False
          with go have "v = w\<lparr>control := ?c\<lparr>ct_queue := ct_queue (control w) @ [\<lparr>dl_origin = code, dl_sequence = sequence,
               dl_epoch = ct_epoch (control w), dl_payload = payload\<rparr>],
               ct_queue_bytes := ct_queue_bytes (control w) + (HEADER_SIZE + length payload)\<rparr>\<rparr>"
            by (auto simp: Let_def upd_def run_simps)
          with full show ?thesis using queue_sound_enqueue [OF q ok] by simp
        qed
      qed
      then show "connection_sound v" using rq by (simp add: connection_sound_def requests_sound_def)
    qed
  qed
  show ?thesis unfolding event_def
    by (auto split: prod.splits intro: err lease obs)
qed

lemma soundly_changes:
  "keeps soundly discard" "keeps soundly (take_lease g)" "keeps soundly drop_lease" "keeps soundly (set_generation g)"
  "keeps soundly note_beat"
  unfolding discard_def drop_lease_def set_generation_def
  by (auto intro!: soundly_upd simp: queue_sound_def)
    (auto simp: keeps_def take_lease_def note_beat_def upd_def run_simps soundly_def connection_sound_def
      requests_sound_def queue_sound_def)

lemma soundly_pop: "keeps soundly pop_delivery"
  by (rule keepsI)
    (auto simp: pop_delivery_def field_def upd_def run_simps soundly_def connection_sound_def requests_sound_def
      queue_sound_def delivery_size_def split: list.splits)

lemma soundly_handled: "receive t w = (Ok (Some fr), v) \<Longrightarrow> soundly w (snd (event fr v))"
proof -
  have "keeps soundly (arrived a :: ('a world, frame) action)" for a
    unfolding arrived_def protocol_error_def
    by (auto split: arrival.splits intro: soundly_closing)
  then have "keeps soundly (receive t :: ('a world, frame option) action)"
    unfolding receive_def by (intro so.keeps_bind so.keeps_option soundly_check soundly_socket so.keeps_pure)
  then have rc: "receive t w = (Ok (Some fr), v) \<Longrightarrow> soundly w v" by (rule keepsD)
  have "soundly v (snd (event fr v))" by (rule keeps_run [OF soundly_event])
  with rc show "receive t w = (Ok (Some fr), v) \<Longrightarrow> soundly w (snd (event fr v))" by (blast intro: so.step)
qed

interpretation sound: lease_frame soundly
  by unfold_locales
    (auto intro: soundly_stop soundly_socket soundly_close soundly_send_request soundly_handled soundly_changes soundly_pop)

lemma soundly_reported: "keeps soundly (note_reported ms)"
  unfolding note_reported_def by (rule soundly_environment) simp_all

lemma soundly_written: "keeps soundly (note_written m)"
  unfolding note_written_def
  by (rule keeps_change) (simp add: soundly_def connection_sound_def requests_sound_def queue_sound_def)

lemma soundly_submit: "keeps soundly (submit m)"
  unfolding submit_def paced_def
  by (auto split: prod.splits intro!: so.keeps_bind sound.keeps_wait sound.keeps_heartbeat soundly_field soundly_send_request)

lemma soundly_confirm: "keeps soundly (confirm_write n)"
  unfolding confirm_write_def
  by (auto intro!: so.keeps_bind sound.keeps_ack soundly_field sound.keeps_protocol_error)

lemma soundly_burst: "keeps soundly (send_burst written ms)"
proof (induction ms arbitrary: written)
  case (Cons m ms)
  show ?case unfolding send_burst.simps
    by (intro so.keeps_bind so.keeps_attempt so.keeps_if so.keeps_pure soundly_submit soundly_confirm soundly_written Cons)
qed simp

lemma soundly_send: "keeps soundly (send_messages ms)"
  unfolding send_messages_def by (intro so.keeps_bind so.keeps_if so.keeps_pure soundly_field soundly_burst)

text \<open>The public operations of a connection, and the worlds any sequence of them can reach.\<close>

datatype operation =
    Begin rat
  | Heartbeat
  | Finish
  | Wait rat
  | Messages rat
  | Dump
  | Send "osc_message list"
  | Close

fun perform :: "operation \<Rightarrow> 'x world \<Rightarrow> 'x world" where
  "perform (Begin t) w = snd (begin_operation t w)"
| "perform Heartbeat w = snd (heartbeat w)"
| "perform Finish w = snd (finish w)"
| "perform (Wait t) w = snd (wait_for t w)"
| "perform (Messages t) w = snd (messages t w)"
| "perform Dump w = snd (request_dump w)"
| "perform (Send ms) w = snd (send_messages ms w)"
| "perform Close w = snd (close_control w)"

lemma perform_sound: "soundly w (perform op w)"
  by (cases op)
    (auto intro: keeps_run [OF sound.keeps_begin] keeps_run [OF sound.keeps_heartbeat] keeps_run [OF sound.keeps_finish]
      keeps_run [OF sound.keeps_wait] keeps_run [OF sound.keeps_messages [OF soundly_reported]] keeps_run [OF sound.keeps_dump]
      keeps_run [OF soundly_send] keeps_run [OF soundly_close])

text \<open>A world with a connection whose handshake ended, before the first operation.\<close>

lemma new_control_sound: "new_control s = Ok c \<Longrightarrow> outbox w = [] \<Longrightarrow> connection_sound (w\<lparr>control := c\<rparr>)"
  by (auto simp: new_control_def connection_sound_def queue_sound_def requests_sound_def split: if_splits)

lemma soundly_handshake: "keeps soundly (handshake is_socket joined peer pid uid gid reader)"
proof -
  have pid: "keeps soundly (upd (\<lambda>c. c\<lparr>ct_pid := p\<rparr>) :: ('a world, unit) action)" for p
    by (rule soundly_upd) (simp_all add: queue_sound_def)
  have epoch: "keeps soundly (upd (\<lambda>c. c\<lparr>ct_epoch := e\<rparr>) :: ('a world, unit) action)" for e
    by (rule soundly_upd) (simp_all add: queue_sound_def)
  have name: "keeps soundly (upd (\<lambda>c. c\<lparr>ct_device_name := n, ct_generation := g\<rparr>) :: ('a world, unit) action)" for n g
    by (rule soundly_upd) (simp_all add: queue_sound_def)
  show ?thesis unfolding handshake_def Let_def
    by (auto split: prod.splits intro!: so.keeps_bind pid epoch name soundly_field sound.keeps_exchange
        simp: HELLO_def WRITE_def)
qed

lemma connect_sound:
  assumes "outbox w = []" and "connect sources is_socket joined peer pid uid gid reader w = (Ok (), v)"
  shows "connection_sound v"
proof -
  obtain c where c: "new_control sources = Ok c"
    using assms(2) by (cases "new_control sources") (auto simp: connect_def run_simps)
  let ?m = "attempt (\<lambda>e. is_os_error e \<or> e = ValueError \<or> e = StructError)
       (handshake is_socket joined peer pid uid gid reader)
       (\<lambda>e. closing (if is_os_error e then e else OSErr (Some EPROTO)))"
  have run: "?m (w\<lparr>control := c\<rparr>) = (Ok (), v)"
    using assms(2) c by (simp add: connect_def run_simps upd_def)
  have "keeps soundly ?m" by (intro so.keeps_attempt soundly_handshake soundly_closing)
  then have "soundly (w\<lparr>control := c\<rparr>) v" using run by (rule keepsD)
  then show ?thesis using new_control_sound [OF c assms(1)] by (simp add: soundly_def)
qed

text \<open>
  C27. The state of a connection is sound after any sequence of operations, whatever arrives: the
  queue holds at most 4096 deliveries and 256 KiB, its size is accounted exactly, its deliveries
  are of a subscribed source, aligned, and in strictly ascending order; and no request number is
  ever used twice on the socket.
\<close>

theorem connection_invariant:
  assumes "outbox w = []" and "connect sources is_socket joined peer pid uid gid reader w = (Ok (), v)"
  shows "connection_sound (fold perform ops v)"
proof (induction ops rule: rev_induct)
  case Nil
  show ?case using connect_sound [OF assms] by simp
next
  case (snoc op ops)
  then show ?case using perform_sound [of "fold perform ops v" op] by (simp add: soundly_def)
qed

section \<open>What a burst of writes comes to\<close>

definition writes_in :: "outgoing list \<Rightarrow> outgoing list" where
  "writes_in rs = filter (\<lambda>r. fst r = WRITE) rs"

text \<open>Nothing was written, and the lease is the same unless the connection was closed for good.\<close>

definition silent :: "'x world \<Rightarrow> 'x world \<Rightarrow> bool" where
  "silent w v \<longleftrightarrow> acked v = acked w \<and> writes_in (outbox v) = writes_in (outbox w)
     \<and> (ct_closed (control w) \<longrightarrow> ct_closed (control v))
     \<and> (ct_closed (control v) \<or> ct_lease (control v) = ct_lease (control w))"

interpretation si: action_frame silent
  by unfold_locales (auto simp: silent_def)

lemma silent_closing: "keeps silent (closing e)"
  by (rule keepsI) (auto simp: run_simps silent_def)

lemma silent_upd:
  "(\<And>c. ct_closed (f c) = ct_closed c) \<Longrightarrow> (\<And>c. ct_lease (f c) = ct_lease c) \<Longrightarrow> keeps silent (upd f)"
  by (rule keepsI) (auto simp: upd_def run_simps silent_def)

lemma silent_stop: "keeps silent should_stop"
  by (rule keepsI) (auto simp: should_stop_def silent_def split: list.splits)

lemma silent_check: "keeps silent check_open"
  unfolding check_open_def
  by (intro si.keeps_bind si.keeps_if silent_stop silent_closing si.keeps_pure) (simp add: field_def)

lemma silent_dispatch: "k \<noteq> WRITE \<Longrightarrow> keeps silent (dispatch (k, rest))"
proof -
  assume k: "k \<noteq> WRITE"
  have "keeps silent (transmit (k, rest))"
    using k by (intro keepsI) (auto simp: transmit_def silent_def writes_in_def split: list.splits submission.splits)
  then show ?thesis unfolding dispatch_def
    by (intro si.keeps_bind si.keeps_attempt si.keeps_if silent_closing si.keeps_pure)
qed

lemma silent_event: "keeps silent (event fr)"
  unfolding event_def lease_event_def observation_event_def protocol_error_def Let_def
  by (auto split: prod.splits intro!: si.keeps_bind silent_upd silent_closing simp: field_def)

lemma silent_socket: "keeps silent (socket_wait t)"
  by (rule keepsI) (auto simp: socket_wait_def silent_def split: list.splits if_splits)

lemma silent_receive: "keeps silent (receive t)"
proof -
  have "keeps silent (arrived a :: ('a world, frame) action)" for a
    unfolding arrived_def protocol_error_def by (auto split: arrival.splits intro: silent_closing)
  then show ?thesis
    unfolding receive_def by (intro si.keeps_bind si.keeps_option silent_check silent_socket si.keeps_pure)
qed

interpretation quiet: connection_frame silent
proof unfold_locales
  show "keeps silent (send_request kind code payload token)" if "kind \<noteq> WRITE" for kind code payload token
    unfolding send_request_def
    by (intro si.keeps_bind si.keeps_if silent_check silent_closing silent_upd silent_dispatch [OF that])
      (simp_all add: field_def)
  show "silent w (snd (event fr v))" if "receive t w = (Ok (Some fr), v)" for t w fr v
    by (rule si.step [OF keepsD [OF silent_receive that] keeps_run [OF silent_event]])
  show "keeps silent (socket_wait t)" for t by (rule silent_socket)
  show "keeps silent close_control"
    by (rule keepsI) (auto simp: close_control_def upd_def run_simps silent_def)
  show "keeps silent pop_delivery"
    by (rule keepsI) (auto simp: pop_delivery_def field_def upd_def run_simps silent_def split: list.splits)
  show "keeps silent discard" unfolding discard_def by (rule silent_upd) simp_all
  show "keeps silent note_beat" by (rule keepsI) (auto simp: note_beat_def upd_def run_simps silent_def)
qed (rule silent_stop)

lemma silent_messages: "keeps silent (messages t)"
  by (rule quiet.keeps_messages, rule keepsI) (auto simp: note_reported_def run_simps silent_def)


text \<open>A world whose lease is \<open>t\<close>, or whose connection is gone and will send nothing.\<close>

definition holds :: "int \<Rightarrow> 'x world \<Rightarrow> bool" where
  "holds t w \<longleftrightarrow> ct_closed (control w) \<or> ct_lease (control w) = Some t"

lemma silent_holds: "silent w v \<Longrightarrow> holds t w \<Longrightarrow> holds t v"
  by (auto simp: silent_def holds_def)

text \<open>A request that carries one message under the lease.\<close>

definition carries :: "int \<Rightarrow> osc_message \<Rightarrow> outgoing \<Rightarrow> bool" where
  "carries t m q \<longleftrightarrow> (case q of (kind, n, code, token, payload) \<Rightarrow>
     kind = WRITE \<and> code = 0 \<and> token = t \<and> encode_osc (fst m) (fst (snd m)) (snd (snd m)) = Ok payload)"

lemma check_open_returned: "check_open w = (Ok x, v) \<Longrightarrow> silent w v \<and> \<not> ct_closed (control v)"
  by (auto simp: check_open_def field_def run_simps should_stop_def bind_def fail_def give_def silent_def
      split: if_splits list.splits)

lemma dispatch_write:
  assumes "dispatch (WRITE, n, 0, t, payload) w = (r, v)" and "ct_lease (control w) = Some t"
  shows "acked v = acked w \<and> holds t v
    \<and> (writes_in (outbox v) = writes_in (outbox w) \<and> r \<noteq> Ok n
       \<or> writes_in (outbox v) = writes_in (outbox w) @ [(WRITE, n, 0, t, payload)])"
  using assms
  by (auto simp: dispatch_def bind_def attempt_def transmit_def run_simps holds_def writes_in_def is_os_error_def
      split: list.splits submission.splits if_splits)

lemma send_write:
  assumes "send_request WRITE 0 payload lease w = (r, v)" and "lease = ct_lease (control w)" and "holds t w"
  shows "acked v = acked w \<and> holds t v
    \<and> (writes_in (outbox v) = writes_in (outbox w) \<and> (\<forall>n. r \<noteq> Ok n)
       \<or> (\<exists>n. writes_in (outbox v) = writes_in (outbox w) @ [(WRITE, n, 0, t, payload)]))"
  using assms(1) unfolding send_request_def
proof (cases rule: bind_cases)
  case (raised e)
  then show ?thesis using keepsD [OF silent_check raised(1)] silent_holds [OF _ assms(3)]
    by (auto simp: silent_def)
next
  case (went_on x u)
  have u: "silent w u" "\<not> ct_closed (control u)" using check_open_returned [OF went_on(1)] by simp_all
  then have l: "lease = Some t" "ct_lease (control u) = Some t"
    using assms(2,3) silent_holds [OF u(1) assms(3)] by (auto simp: silent_def holds_def)
  let ?n = "ct_request_id (control u) + 1"
  show ?thesis
  proof (cases "PAYLOAD < length payload \<or> ct_request_id (control u) = 0xffffffff")
    case True
    with went_on(2) u show ?thesis by (auto simp: field_def run_simps holds_def silent_def)
  next
    case False
    with went_on(2) l have d: "dispatch (WRITE, ?n, 0, t, payload) (u\<lparr>control := (control u)\<lparr>ct_request_id := ?n\<rparr>\<rparr>) = (r, v)"
      by (auto simp: field_def run_simps upd_def token_of_def)
    have "r = Ok ?n \<or> (\<forall>n. r \<noteq> Ok n)"
      using d by (auto simp: dispatch_def bind_def attempt_def run_simps split: prod.splits sum.splits if_splits)
    then show ?thesis using dispatch_write [OF d] l(2) u(1) by (auto simp: silent_def)
  qed
qed

lemma silent_paced: "keeps silent paced"
  unfolding paced_def by (intro si.keeps_bind si.keeps_if si.keeps_pure quiet.keeps_wait)

lemma submit_writes:
  assumes "submit m w = (r, v)" and "holds t w"
  shows "acked v = acked w \<and> holds t v
    \<and> (writes_in (outbox v) = writes_in (outbox w) \<and> (\<forall>n. r \<noteq> Ok n)
       \<or> (\<exists>q. carries t m q \<and> writes_in (outbox v) = writes_in (outbox w) @ [q]))"
proof -
  obtain path tags args where m: "m = (path, tags, args)" by (cases m)
  let ?rest = "bind (lift (encode_osc path tags args)) (\<lambda>payload. bind (field ct_lease) (\<lambda>lease. send_request WRITE 0 payload lease))"
  have pre: "keeps silent (bind paced (\<lambda>_. heartbeat))"
    by (intro si.keeps_bind silent_paced quiet.keeps_heartbeat)
  have run: "bind (bind paced (\<lambda>_. heartbeat)) (\<lambda>_. ?rest) w = (r, v)"
    using assms(1) m by (simp add: submit_def bind_assoc)
  then show ?thesis
  proof (cases rule: bind_cases)
    case (raised e)
    then have "silent w v" using keepsD [OF pre] by blast
    then show ?thesis using raised silent_holds [OF _ assms(2)] by (auto simp: silent_def)
  next
    case (went_on x u)
    have su: "silent w u" using keepsD [OF pre went_on(1)] .
    have hu: "holds t u" using silent_holds [OF su assms(2)] .
    show ?thesis
    proof (cases "encode_osc path tags args")
      case (Inl e)
      with went_on(2) su hu show ?thesis by (auto simp: run_simps silent_def)
    next
      case (Inr payload)
      with went_on(2) have "send_request WRITE 0 payload (ct_lease (control u)) u = (r, v)"
        by (simp add: run_simps field_def)
      from send_write [OF this refl hu] show ?thesis
        using su Inr m by (fastforce simp: silent_def carries_def)
    qed
  qed
qed

lemma confirm_silent: "keeps silent (confirm_write n)"
  unfolding confirm_write_def
  by (auto intro!: si.keeps_bind quiet.keeps_ack quiet.keeps_field quiet.keeps_protocol_error)


text \<open>
  One burst: \<open>j\<close> messages acknowledged, \<open>k\<close> put on the socket, at most one of them in doubt.
\<close>

definition burst_result :: "string list \<Rightarrow> osc_message list \<Rightarrow> nat \<Rightarrow> nat \<Rightarrow> unit res \<Rightarrow> bool" where
  "burst_result written ms j k r \<longleftrightarrow> (case r of
       Ok _ \<Rightarrow> j = length ms
     | Raise e \<Rightarrow> j < length ms \<and> (is_os_error e \<longrightarrow> (\<exists>n i. e = WriteFailed n (written @ paths_of (take i ms)) (paths_of (drop i ms))
         \<and> (i = j \<or> i = k))))"

definition burst_effect :: "int \<Rightarrow> osc_message list \<Rightarrow> nat \<Rightarrow> nat \<Rightarrow> 'x world \<Rightarrow> 'x world \<Rightarrow> bool" where
  "burst_effect t ms j k w v \<longleftrightarrow> j \<le> k \<and> k \<le> Suc j \<and> k \<le> length ms \<and> holds t v
     \<and> acked v = acked w @ take j ms
     \<and> (\<exists>out. writes_in (outbox v) = writes_in (outbox w) @ out \<and> list_all2 (carries t) (take k ms) out)"

lemma burst_Cons:
  assumes "burst_effect t ms j k u v" and "acked u = acked w @ [m]"
    and "writes_in (outbox u) = writes_in (outbox w) @ [q]" and "carries t m q"
  shows "burst_effect t (m # ms) (Suc j) (Suc k) w v"
  using assms by (auto simp: burst_effect_def)

lemma burst_result_Cons:
  assumes "burst_result (written @ [fst m]) ms j k r"
  shows "burst_result written (m # ms) (Suc j) (Suc k) r"
proof (cases r)
  case (Inl e)
  show ?thesis
  proof (cases "is_os_error e")
    case True
    with assms Inl obtain n i where e: "e = WriteFailed n ((written @ [fst m]) @ paths_of (take i ms)) (paths_of (drop i ms))"
      and i: "i = j \<or> i = k" by (auto simp: burst_result_def)
    have "e = WriteFailed n (written @ paths_of (take (Suc i) (m # ms))) (paths_of (drop (Suc i) (m # ms)))"
      using e by (simp add: paths_of_def)
    with assms Inl i show ?thesis by (auto simp: burst_result_def simp del: take_Suc_Cons drop_Suc_Cons)
  qed (use assms Inl in \<open>simp add: burst_result_def\<close>)
qed (use assms in \<open>simp add: burst_result_def\<close>)

lemma send_burst_accounts:
  assumes "send_burst written ms w = (r, v)" and "holds t w"
  shows "\<exists>j k. burst_effect t ms j k w v \<and> burst_result written ms j k r"
  using assms
proof (induction ms arbitrary: written w)
  case Nil
  then show ?case by (auto simp: burst_effect_def burst_result_def run_simps)
next
  case (Cons m ms)
  let ?sub = "attempt is_os_error (submit m) (\<lambda>e. fail (WriteFailed (errno_of e) written (fst m # paths_of ms)))"
  let ?con = "\<lambda>n. attempt is_os_error (confirm_write n) (\<lambda>e. fail (WriteFailed (errno_of e) (written @ [fst m]) (paths_of ms)))"
  let ?finally = "\<lambda>code. if code \<noteq> 0 then fail (WriteFailed (Some (if code = ST_BUSY then EBUSY else EPROTO)) written (fst m # paths_of ms))
     else bind (note_written m) (\<lambda>_. send_burst (written @ [fst m]) ms)"
  obtain sr u where s: "submit m w = (sr, u)" by fastforce
  note sw = submit_writes [OF s Cons.prems(2)]
  show ?case
  proof (cases sr)
    case (Inl e)
    then have v: "v = u" "r = Raise (if is_os_error e then WriteFailed (errno_of e) written (fst m # paths_of ms) else e)"
      using Cons.prems(1) s by (cases "is_os_error e"; simp add: bind_def attempt_def run_simps)+
    have res: "burst_result written (m # ms) 0 k r" for k
      using v(2) by (auto simp: burst_result_def paths_of_def)
    have "burst_effect t (m # ms) 0 0 w v \<or> burst_effect t (m # ms) 0 1 w v"
      using sw v(1) by (auto simp: burst_effect_def)
    with res show ?thesis by blast
  next
    case (Inr n)
    then obtain q where q: "carries t m q" "writes_in (outbox u) = writes_in (outbox w) @ [q]" using sw by auto
    have a: "acked u = acked w" "holds t u" using sw by simp_all
    obtain cr x where c: "confirm_write n u = (cr, x)" by fastforce
    have six: "silent u x" using keepsD [OF confirm_silent c] .
    have hx: "holds t x" using silent_holds [OF six a(2)] .
    have wx: "acked x = acked w" "writes_in (outbox x) = writes_in (outbox w) @ [q]"
      using six a(1) q(2) by (simp_all add: silent_def)
    have sent: "burst_effect t (m # ms) 0 1 w x" using wx q(1) hx by (auto simp: burst_effect_def)
    show ?thesis
    proof (cases cr)
      case (Inl e)
      then have v: "v = x" "r = Raise (if is_os_error e then WriteFailed (errno_of e) (written @ [fst m]) (paths_of ms) else e)"
        using Cons.prems(1) s Inr c by (cases "is_os_error e"; simp add: bind_def attempt_def run_simps)+
      then have "burst_result written (m # ms) 0 1 r"
        by (auto simp: burst_result_def paths_of_def intro!: exI [of _ 1])
      with sent v show ?thesis by blast
    next
      case ok: (Inr code)
      show ?thesis
      proof (cases "code = 0")
        case False
        then have v: "v = x" "r = Raise (WriteFailed (Some (if code = ST_BUSY then EBUSY else EPROTO)) written (fst m # paths_of ms))"
          using Cons.prems(1) s Inr c ok by (auto simp: bind_def attempt_def run_simps)
        then have "burst_result written (m # ms) 0 1 r" by (auto simp: burst_result_def paths_of_def)
        with sent v show ?thesis by blast
      next
        case True
        define y where "y = x\<lparr>acked := acked x @ [m], control := (control x)\<lparr>ct_last_write := now x\<rparr>\<rparr>"
        have go: "send_burst (written @ [fst m]) ms y = (r, v)"
          using Cons.prems(1) s Inr c ok True
          by (simp add: bind_def attempt_def run_simps note_written_def y_def)
        have "holds t y" using hx by (simp add: holds_def y_def)
        then obtain j k where "burst_effect t ms j k y v" "burst_result (written @ [fst m]) ms j k r"
          using Cons.IH [OF go] by blast
        moreover have "acked y = acked w @ [m]" "writes_in (outbox y) = writes_in (outbox w) @ [q]"
          using wx by (simp_all add: y_def)
        ultimately show ?thesis using burst_Cons q(1) burst_result_Cons by blast
      qed
    qed
  qed
qed

lemma paths_of_split: "paths_of (take i ms) @ paths_of (drop i ms) = paths_of ms"
  by (simp add: paths_of_def flip: map_append)

text \<open>The same for \<open>send\<close>, as the operations above the connection use it.\<close>

definition accounted :: "osc_message list \<Rightarrow> nat \<Rightarrow> unit res \<Rightarrow> bool" where
  "accounted ms j r \<longleftrightarrow> j \<le> length ms \<and> (r = Ok () \<longrightarrow> j = length ms)
     \<and> (\<forall>n wr un. r = Raise (WriteFailed n wr un) \<longrightarrow>
          wr @ un = paths_of ms \<and> prefix (paths_of (take j ms)) wr \<and> length wr \<le> Suc j)"

lemma send_messages_accounts:
  assumes "send_messages ms w = (r, v)"
  shows "\<exists>j. acked v = acked w @ take j ms \<and> accounted ms j r"
proof (cases "ct_lease (control w)")
  case None
  with assms have "r = Raise (WriteFailed (Some EPERM) [] (paths_of ms))" "v = w"
    by (auto simp: send_messages_def field_def run_simps)
  then show ?thesis by (intro exI [of _ 0]) (simp add: accounted_def paths_of_def)
next
  case (Some t)
  with assms have "send_burst [] ms w = (r, v)" "holds t w"
    by (simp_all add: send_messages_def field_def run_simps holds_def)
  then obtain j k where eff: "burst_effect t ms j k w v" and res: "burst_result [] ms j k r"
    using send_burst_accounts by blast
  have jk: "j \<le> k" "k \<le> Suc j" "k \<le> length ms" "acked v = acked w @ take j ms"
    using eff by (simp_all add: burst_effect_def)
  have "wr @ un = paths_of ms \<and> prefix (paths_of (take j ms)) wr \<and> length wr \<le> Suc j"
    if r: "r = Raise (WriteFailed n wr un)" for n wr un
  proof -
    obtain i where i: "wr = paths_of (take i ms)" "un = paths_of (drop i ms)" "i = j \<or> i = k"
      using res r by (auto simp: burst_result_def)
    have "take i ms = take j ms @ take (i - j) (drop j ms)"
      using i(3) jk(1) by (metis le_add_diff_inverse order_refl take_add)
    then have "prefix (paths_of (take j ms)) wr" by (simp add: i(1) paths_of_def)
    moreover have "wr @ un = paths_of ms" by (simp add: i paths_of_split)
    moreover have "length wr \<le> Suc j" using i jk(1,2) by (auto simp: paths_of_def)
    ultimately show ?thesis by blast
  qed
  then show ?thesis using jk res
    by (auto simp: accounted_def burst_result_def split: sum.splits)
qed

lemma send_messages_errors:
  assumes "send_messages ms w = (Raise e, v)" and "is_os_error e"
  shows "\<exists>n wr un. e = WriteFailed n wr un"
proof (cases "ct_lease (control w)")
  case None
  with assms show ?thesis by (auto simp: send_messages_def field_def run_simps)
next
  case (Some t)
  with assms(1) have "send_burst [] ms w = (Raise e, v)" "holds t w"
    by (simp_all add: send_messages_def field_def run_simps holds_def)
  then obtain j k where "burst_result [] ms j k (Raise e)" using send_burst_accounts by blast
  with assms(2) show ?thesis by (auto simp: burst_result_def)
qed

text \<open>
  C26. A burst of writes is accounted exactly, whatever the backend and the socket do: the messages
  acknowledged are a prefix of the burst; what went onto the socket is a prefix at most one message
  longer, each message encoded once and under the lease held when the burst began; a return means
  the whole burst was acknowledged; and a \<open>WriteFailed\<close> splits the burst into written and unwritten
  paths in order, with nothing acknowledged among the unwritten.
\<close>

theorem write_accounting:
  assumes "send_messages ms w = (r, v)"
  shows "\<exists>j k out. j \<le> k \<and> k \<le> Suc j \<and> k \<le> length ms \<and> acked v = acked w @ take j ms
    \<and> writes_in (outbox v) = writes_in (outbox w) @ out
    \<and> (\<forall>q \<in> set out. ct_lease (control w) = Some (fst (snd (snd (snd q)))))
    \<and> map (\<lambda>q. Ok (snd (snd (snd (snd q))))) out = map (\<lambda>(p, t, a). encode_osc p t a) (take k ms)
    \<and> (r = Ok () \<longrightarrow> j = length ms)
    \<and> (\<forall>n wr un. r = Raise (WriteFailed n wr un) \<longrightarrow>
         wr @ un = paths_of ms \<and> prefix (paths_of (take j ms)) wr \<and> length wr \<le> k)"
proof (cases "ct_lease (control w)")
  case None
  with assms have "r = Raise (WriteFailed (Some EPERM) [] (paths_of ms))" "v = w"
    by (auto simp: send_messages_def field_def run_simps)
  with None \<open>r = _\<close> \<open>v = w\<close> assms show ?thesis
    by (intro exI [of _ 0] exI [of _ "[]"]) (auto simp: send_messages_def field_def run_simps paths_of_def)
next
  case (Some t)
  with assms have "send_burst [] ms w = (r, v)" "holds t w"
    by (simp_all add: send_messages_def field_def run_simps holds_def)
  then obtain j k where eff: "burst_effect t ms j k w v" and res: "burst_result [] ms j k r"
    using send_burst_accounts by blast
  then obtain out where out: "writes_in (outbox v) = writes_in (outbox w) @ out" "list_all2 (carries t) (take k ms) out"
    by (auto simp: burst_effect_def)
  have "\<forall>q \<in> set out. fst (snd (snd (snd q))) = t"
    using out(2) by (induction rule: list_all2_induct) (auto simp: carries_def)
  then have tok: "\<forall>q \<in> set out. ct_lease (control w) = Some (fst (snd (snd (snd q))))"
    using Some by simp
  have enc: "map (\<lambda>q. Ok (snd (snd (snd (snd q))))) out = map (\<lambda>(p, t, a). encode_osc p t a) (take k ms)"
    using out(2) by (induction rule: list_all2_induct) (auto simp: carries_def split: prod.splits)
  have ok: "r = Ok () \<longrightarrow> j = length ms" using res by (auto simp: burst_result_def split: sum.splits)
  have jk: "j \<le> k" "k \<le> Suc j" "k \<le> length ms" "acked v = acked w @ take j ms"
    using eff by (simp_all add: burst_effect_def)
  have wf: "wr @ un = paths_of ms \<and> prefix (paths_of (take j ms)) wr \<and> length wr \<le> k"
    if r: "r = Raise (WriteFailed n wr un)" for n wr un
  proof -
    obtain i where i: "wr = paths_of (take i ms)" "un = paths_of (drop i ms)" "i = j \<or> i = k"
      using res r by (auto simp: burst_result_def)
    have "take i ms = take j ms @ take (i - j) (drop j ms)"
      using i(3) jk(1) by (metis le_add_diff_inverse order_refl take_add)
    then have "prefix (paths_of (take j ms)) wr" by (simp add: i(1) paths_of_def)
    moreover have "wr @ un = paths_of ms" by (simp add: i paths_of_split)
    moreover have "length wr \<le> k" using i jk(1) by (auto simp: paths_of_def)
    ultimately show ?thesis by blast
  qed
  show ?thesis using jk out(1) tok enc ok wf by blast
qed


section \<open>Deadlines\<close>

lemma arrived_now: "arrived a w = (r, v) \<Longrightarrow> now v = now w"
  by (auto simp: arrived_def run_simps protocol_error_def split: arrival.splits if_splits)

lemma event_now: "event fr w = (r, v) \<Longrightarrow> now v = now w"
  by (auto simp: event_def lease_event_def observation_event_def protocol_error_def field_def upd_def run_simps Let_def
      split: prod.splits if_splits)

lemma check_now: "check_open w = (r, v) \<Longrightarrow> now v = now w"
  by (auto simp: check_open_def field_def run_simps should_stop_def bind_def fail_def give_def split: if_splits list.splits)

lemma receive_now:
  assumes "receive t w = (r, v)"
  shows "now v \<le> now w + max (1 / 1000) t"
proof -
  let ?t = "max (1 / 1000) t"
  have t: "0 \<le> ?t" by simp
  have "\<And>u a x. socket_wait ?t u = (a, x) \<Longrightarrow> now x \<le> now u + ?t"
    using t by (auto simp: socket_wait_def split: list.splits if_splits)
  then show ?thesis
    using assms t unfolding receive_def
    by (elim bind_cases; fastforce simp: run_simps dest!: check_now arrived_now split: option.splits elim!: bind_cases)
qed

lemma ack_loop_now: "now w \<le> d + 1 / 1000 \<Longrightarrow> now (snd (ack_loop k n d w)) \<le> d + 1 / 1000"
proof (induction k n d w rule: ack_loop.induct)
  case (1 k n d w)
  show ?case
  proof (cases "d - now w \<le> 0")
    case True
    with "1.prems" show ?thesis by (subst ack_loop.simps) (simp add: run_simps)
  next
    case False
    obtain rr u where r: "receive (min (d - now w) (1 / 4)) w = (rr, u)" by fastforce
    have u: "now u \<le> d + 1 / 1000"
      using receive_now [OF r] False by (auto simp: max_def min_def split: if_splits)
    show ?thesis
    proof (cases rr)
      case (Inl e)
      with False r u show ?thesis by (subst ack_loop.simps) (simp add: bind_def)
    next
      case f: (Inr f)
      show ?thesis
      proof (cases f)
        case None
        with False r f "1.IH"(1) [OF False r [unfolded f] None u] show ?thesis
          by (subst ack_loop.simps) (simp add: bind_def)
      next
        case (Some fr)
        obtain er t where e: "event fr u = (er, t)" by fastforce
        have t: "now t \<le> d + 1 / 1000" using event_now [OF e] u by simp
        have "now (snd (reply_of k n fr u)) = now u"
          by (auto simp: reply_of_def protocol_error_def run_simps split: prod.splits)
        moreover have "now (snd (ack_loop k n d t)) \<le> d + 1 / 1000" if "er = Ok y" "\<not> is_reply fr" for y
          using "1.IH"(2) [OF False r [unfolded f] Some that(2) e [unfolded that(1)] t] .
        ultimately show ?thesis
          using False r f Some e t u by (subst ack_loop.simps) (auto simp: bind_def split: sum.splits)
      qed
    qed
  qed
qed

text \<open>
  C28. A request is never waited for longer than its acknowledgement timeout: whatever arrives, the
  wait ends -- with the reply, an error or a timeout -- at most a millisecond past the deadline.
\<close>

theorem acknowledgement_in_time:
  "now (snd (acknowledgement kind n w)) \<le> now w + CONTROL_ACK_TIMEOUT + 1 / 1000"
  unfolding acknowledgement_def by (rule ack_loop_now) (simp add: CONTROL_ACK_TIMEOUT_def)


section \<open>A connection in use\<close>

text \<open>The packets of a backend that answers a hello, grants the lease and acknowledges one write.\<close>

definition hello_reply :: bytes where
  "hello_reply = replicate 16 1 @ be32 42 @ be32 VERSION @ map of_char ''UCX'' @ [0]"

definition quiet_world :: "(rat \<times> arrival) list \<Rightarrow> unit world" where
  "quiet_world packets = \<lparr>now = 0, inbox = packets, sends = [], stops = [], outbox = [], acked = [], reported = [],
     control = \<lparr>ct_sources = 1, ct_closed = True, ct_request_id = 0, ct_lease = None, ct_last_heartbeat = 0,
        ct_last_write = 0, ct_generation = 0, ct_last_sequence = 0, ct_queue = [], ct_queue_bytes = 0,
        ct_epoch = [], ct_device_name = [], ct_lease_held = False, ct_pid = - 1, ct_traits = OSCMIX\<rparr>, beside = ()\<rparr>"

definition packet_in :: "frame \<Rightarrow> rat \<times> arrival" where
  "packet_in f = (1 / 1000, Datagram (pack_packet f) False)"

definition greeting :: "(rat \<times> arrival) list" where
  "greeting = [packet_in (HELLO OR REPLY, 1, ST_OK, 7, hello_reply)]"

lemma greeted: "fst (connect 3 True (Ok ()) (42, 0, 0) 42 None None False (quiet_world greeting)) = Ok ()"
  by code_simp

lemma connection_invariant_witness:
  "connection_sound (fold perform [Begin 30, Messages 1, Send [(''/output/1/mute'', ''i'', [VInt 0])], Finish]
     (snd (connect 3 True (Ok ()) (42, 0, 0) 42 None None False (quiet_world greeting))))"
proof (rule connection_invariant)
  show "connect 3 True (Ok ()) (42, 0, 0) 42 None None False (quiet_world greeting)
      = (Ok (), snd (connect 3 True (Ok ()) (42, 0, 0) 42 None None False (quiet_world greeting)))"
    using greeted by (simp add: prod_eq_iff)
  show "outbox (quiet_world greeting) = []" by (simp add: quiet_world_def)
qed

text \<open>The first write is acknowledged under the lease, the second refused as busy.\<close>

definition leased_world :: "unit world" where
  "leased_world = (let w = quiet_world [packet_in (WRITE OR REPLY, 1, ST_OK, 7, []), (20 / 1000, snd (packet_in (WRITE OR REPLY, 2, ST_BUSY, 7, [])))]
     in w\<lparr>now := 5, control := (control w)\<lparr>ct_closed := False, ct_lease := Some 7, ct_generation := 7,
          ct_last_heartbeat := 5, ct_last_write := 0\<rparr>\<rparr>)"

definition two_writes :: "osc_message list" where
  "two_writes = [(''/output/1/mute'', ''i'', [VInt 0]), (''/output/1/volume'', ''f'', [VFloat (Fin (- 10))])]"

lemma refused_run: "fst (send_messages two_writes leased_world)
    = Raise (WriteFailed (Some EBUSY) [''/output/1/mute''] [''/output/1/volume''])"
  by code_simp

lemma write_accounting_witness:
  "fst (send_messages two_writes leased_world) = Raise (WriteFailed (Some EBUSY) [''/output/1/mute''] [''/output/1/volume''])
   \<and> (\<exists>j. acked (snd (send_messages two_writes leased_world)) = acked leased_world @ take j two_writes)
   \<and> [''/output/1/mute''] @ [''/output/1/volume''] = paths_of two_writes"
proof -
  have run: "send_messages two_writes leased_world = (Raise (WriteFailed (Some EBUSY) [''/output/1/mute''] [''/output/1/volume'']),
      snd (send_messages two_writes leased_world))"
    unfolding prod_eq_iff using refused_run by simp
  from write_accounting [OF run] refused_run show ?thesis by blast
qed

end
