(* ===== verification/Release.thy ===== *)
theory Release
  imports Planning
begin

text \<open>
  Releasing a playback mute: the desired state of a valid desk holds every matrix write and link
  a release depends on, so a start is never refused, and every plan releases a mute only after
  it muted the channel, linked the pair and replaced the pair's columns. The interface of the
  two halves of \<^verbatim>\<open>reconcile.py\<close> at this point is the prerequisite of one release.
\<close>

section \<open>What a release requires\<close>

lemma prerequisiteE:
  assumes "prerequisite c mutes paths confirmed w = Ok v"
  obtains ch required links where "path_channel (wr_path w) = Ok ch"
    "fold_res (column_part (pair_left ch)) (cfg_routes c)
       ([mute_path (pair_left ch), mute_path (pair_left ch + 1)], []) = Ok (required, links)"
    "dget mutes (pair_left ch) = Some 0" "dget mutes (pair_left ch + 1) = Some 0"
    "set required \<subseteq> set paths" "set links \<subseteq> set paths \<union> set confirmed"
  using assms by (auto simp: prerequisite_def Let_def rbind_Ok_iff split: if_splits)

lemma path_channel_mute [simp]: "path_channel (mute_path ch) = Ok ch"
  by (simp add: path_channel_def Let_def mute_path_def segments_chan_path)

text \<open>Every required path is a mute of the pair or a message of a route.\<close>

lemma column_part_total:
  "(\<forall>r\<in>set rs. is_ok (mix_messages r) \<and> is_ok (link_messages r)) \<Longrightarrow>
     \<exists>required links. fold_res (column_part left) rs st = Ok (required, links)
       \<and> set required \<subseteq> set (fst st) \<union> {fst m |m. \<exists>r\<in>set rs. \<exists>ms. mix_messages r = Ok ms \<and> m \<in> set ms}
       \<and> set links \<subseteq> set (snd st) \<union> {fst l |l. \<exists>r\<in>set rs. \<exists>ls. link_messages r = Ok ls \<and> l \<in> set ls}"
proof (induction rs arbitrary: st)
  case Nil
  then show ?case by (cases st) simp
next
  case (Cons r rs)
  obtain ms ls where r: "mix_messages r = Ok ms" "link_messages r = Ok ls"
    using Cons.prems by (auto simp: is_ok_iff)
  obtain req lks where st: "st = (req, lks)" by (cases st)
  let ?st = "if list_ex (\<lambda>ch. ch = left \<or> ch = left + 1) (route_playback r)
    then (req @ filter (\<lambda>p. startswith p ''/mix/'') (map fst ms), lks @ map fst ls) else st"
  have step: "column_part left r st = Ok ?st" by (simp add: column_part_def st r)
  obtain required links where f: "fold_res (column_part left) rs ?st = Ok (required, links)"
    "set required \<subseteq> set (fst ?st) \<union> {fst m |m. \<exists>r\<in>set rs. \<exists>ms. mix_messages r = Ok ms \<and> m \<in> set ms}"
    "set links \<subseteq> set (snd ?st) \<union> {fst l |l. \<exists>r\<in>set rs. \<exists>ls. link_messages r = Ok ls \<and> l \<in> set ls}"
    using Cons by (metis (no_types, lifting) list.set_intros(2))
  have sub: "set (fst ?st) \<subseteq> set (fst st) \<union> fst ` set ms" "set (snd ?st) \<subseteq> set (snd st) \<union> fst ` set ls"
    by (auto simp: st)
  have "fold_res (column_part left) (r # rs) st = Ok (required, links)" using step f(1) by simp
  moreover have "set required \<subseteq> set (fst st) \<union> {fst m |m. \<exists>r\<in>set (r # rs). \<exists>ms. mix_messages r = Ok ms \<and> m \<in> set ms}"
    using f(2) sub(1) r(1) by (fastforce simp del: split_paired_Ex)
  moreover have "set links \<subseteq> set (snd st) \<union> {fst l |l. \<exists>r\<in>set (r # rs). \<exists>ls. link_messages r = Ok ls \<and> l \<in> set ls}"
    using f(3) sub(2) r(2) by (fastforce simp del: split_paired_Ex)
  ultimately show ?case by blast
qed

section \<open>What the desired state holds\<close>

lemma desired_messages:
  assumes "desired c = Ok es" and "r \<in> set (cfg_routes c)"
  shows "is_ok (mix_messages r)" and "is_ok (link_messages r)"
    and "mix_messages r = Ok ms \<Longrightarrow> m \<in> set ms \<Longrightarrow> fst m \<in> en_path ` set es"
    and "link_messages r = Ok ls \<Longrightarrow> l \<in> set ls \<Longrightarrow> fst l \<in> en_path ` set es"
proof -
  obtain cs where cs: "route_claims (cfg_routes c) = Ok cs" using assms(1) by (rule desiredE)
  then obtain lc mc where ph: "phase_claims LINK link_messages (cfg_routes c) = Ok lc"
    "phase_claims MIX mix_messages (cfg_routes c) = Ok mc" "cs = lc @ mc" by (rule route_claimsE)
  have total: "is_ok (produce r)" if claims: "phase_claims phase produce (cfg_routes c) = Ok xs" for phase produce xs
  proof -
    obtain css where "map_res (\<lambda>r. rbind (produce r) (\<lambda>ms. Ok (map (\<lambda>m. (phase, r, m)) ms))) (cfg_routes c) = Ok css"
      using claims unfolding phase_claims_def rbind_Ok_iff by blast
    from map_res_all [OF this assms(2)] show ?thesis by (auto simp: is_ok_iff rbind_Ok_iff)
  qed
  show "is_ok (mix_messages r)" "is_ok (link_messages r)" using total ph(1,2) by blast+
  have claimed: "claim_path cl \<in> en_path ` set es" if cl: "cl \<in> set cs" for cl
  proof -
    obtain o' where "owner cs (claim_path cl) = Some o'" using owner_exists [OF cl] by blast
    from owner_entry_desired [OF assms(1) cs this] owner_path [OF this] show ?thesis
      by (metis claim_entry_sel(1) image_eqI)
  qed
  have path: "claim_path (ph, r, m) = fst m" for ph m by (cases m) simp
  show "fst m \<in> en_path ` set es" if m: "mix_messages r = Ok ms" "m \<in> set ms"
  proof -
    have "(MIX, r, m) \<in> set mc"
      unfolding set_phase_claims [OF ph(2)] using m assms(2) by blast
    then show ?thesis using claimed [of "(MIX, r, m)"] by (simp add: path ph(3))
  qed
  show "fst l \<in> en_path ` set es" if l: "link_messages r = Ok ls" "l \<in> set ls"
  proof -
    have "(LINK, r, l) \<in> set lc"
      unfolding set_phase_claims [OF ph(1)] using l assms(2) by blast
    then show ?thesis using claimed [of "(LINK, r, l)"] by (simp add: path ph(3))
  qed
qed

text \<open>A playback setting of a valid desk is a mute flag.\<close>

lemma validated_mute_setting:
  assumes "validated_mute c dev s mutes = Ok m"
  shows "cs_family s \<in> {''input'', ''output'', ''playback''}"
    and "cs_family s = ''playback'' \<Longrightarrow> is_mute_setting s"
    and "is_mute_setting s \<Longrightarrow> \<exists>v. py_integer (cs_value s) = Ok v \<and> m = dset (cs_channel s) v mutes"
    and "\<not> is_mute_setting s \<Longrightarrow> m = mutes"
  using assms
  by (auto simp: validated_mute_def is_mute_setting_def res_simps split: option.splits if_splits)

lemma validated_settings:
  assumes "fold_res (validated_mute c dev) ss mutes = Ok mutes'" and "s \<in> set ss"
  obtains m m' where "validated_mute c dev s m = Ok m'"
  using assms by (induction ss arbitrary: mutes) (auto simp: rbind_Ok_iff)

text \<open>The mutes the planner reads are the ones validation has seen.\<close>

lemma declared_mutes_validated:
  assumes "fold_res (validated_mute c dev) ss mutes = Ok mutes'"
  shows "fold_res (\<lambda>s mutes. if is_mute_setting s
       then rbind (py_integer (cs_value s)) (\<lambda>value. Ok (dset (cs_channel s) value mutes))
       else Ok mutes) ss mutes = Ok mutes'"
  using assms
proof (induction ss arbitrary: mutes)
  case Nil
  then show ?case by simp
next
  case (Cons s ss)
  then obtain m where m: "validated_mute c dev s mutes = Ok m" "fold_res (validated_mute c dev) ss m = Ok mutes'"
    by (auto simp: rbind_Ok_iff)
  have "(if is_mute_setting s
       then rbind (py_integer (cs_value s)) (\<lambda>value. Ok (dset (cs_channel s) value mutes))
       else Ok mutes) = Ok m"
    using validated_mute_setting(3,4) [OF m(1)] by auto
  then show ?case using Cons.IH [OF m(2)] by simp
qed


section \<open>The releases of the desired state\<close>

text \<open>No register without a channel is a playback mute.\<close>

lemma global_rows_elsewhere:
  assumes "device_for_name name = Some d" and "r \<in> set (dev_registers d)" and "reg_channels r = GLOBAL"
  shows "\<not> startswith (reg_template r) ''/playback/''"
proof -
  have "d = UCX2 \<or> d = FF802"
    using assms(1) by (auto simp: device_for_name_def DEVICES_def split: if_splits)
  moreover have "list_all (\<lambda>r. reg_channels r = GLOBAL \<longrightarrow> \<not> startswith (reg_template r) ''/playback/'') (dev_registers UCX2)"
    by code_simp
  moreover have "dev_registers FF802 = []" by (simp add: FF802_def)
  ultimately show ?thesis using assms(2,3) by (auto simp: list_all_iff)
qed

lemma settable_globals_rows:
  assumes "dget (settable_globals (Some d) (gs_family g)) (gs_option g) = Some r"
  shows "r \<in> set (dev_registers d) \<and> reg_channels r = GLOBAL \<and> (\<exists>s. reg_template r = gs_path g @ s)"
proof -
  let ?pre = "CHR ''/'' # gs_family g"
  let ?step = "\<lambda>found r.
           if reg_channels r \<noteq> GLOBAL \<or> reg_domain r = None then found
           else if reg_template r = ?pre then dset ENABLE_OPTION r found
           else if startswith (reg_template r) (?pre @ ''/'')
                then dset (drop (length ?pre + 1) (reg_template r)) r found
           else found"
  have path: "\<exists>s. reg_template r = gs_path g @ s"
    if "startswith (reg_template r) (?pre @ ''/'')" "drop (length ?pre + 1) (reg_template r) = gs_option g" for r :: register
    using that by (auto simp: gs_path_def prefix_def)
  have "r \<in> set rows \<and> reg_channels r = GLOBAL \<and> (\<exists>s. reg_template r = gs_path g @ s)"
    if "dget (foldl ?step [] rows) (gs_option g) = Some r" for rows
    using that
  proof (induction rows rule: rev_induct)
    case Nil
    then show ?case by simp
  next
    case (snoc q rows)
    show ?case
    proof (cases "dget (foldl ?step [] rows) (gs_option g) = Some r")
      case True
      then show ?thesis using snoc.IH by auto
    next
      case False
      then have "q = r" "reg_channels r = GLOBAL"
        "(reg_template r = ?pre \<and> gs_option g = ENABLE_OPTION)
          \<or> (startswith (reg_template r) (?pre @ ''/'') \<and> drop (length ?pre + 1) (reg_template r) = gs_option g)"
        using snoc.prems by (auto simp: dict_simps split: if_splits)
      then show ?thesis using path [of r] by (auto simp: gs_path_def)
    qed
  qed
  then show ?thesis using assms unfolding settable_globals_def Let_def option.case by blast
qed


lemma channel_entries_setting:
  assumes "channel_entries c = Ok es" and "e \<in> set es"
  obtains d s r where "device_for_name (cfg_device_name c) = Some d" "s \<in> set (cfg_channels c)"
    "option_register (Some d) (cs_family s) (cs_option s) (cs_channel s) = Some r"
    "encode (chan_path (cs_family s) (cs_channel s) (cs_option s)) r (cs_value s) = Ok e"
proof -
  obtain d ess where d: "device_for_name (cfg_device_name c) = Some d"
    "map_res (channel_entry d) (cfg_channels c) = Ok ess" "es = concat ess"
    using assms by (auto simp: channel_entries_def rbind_Ok_iff split: option.splits)
  obtain xs where xs: "xs \<in> set ess" "e \<in> set xs" using assms(2) d(3) by auto
  then obtain s where s: "s \<in> set (cfg_channels c)" "channel_entry d s = Ok xs"
    using map_res_from [OF d(2)] by blast
  then obtain r where "option_register (Some d) (cs_family s) (cs_option s) (cs_channel s) = Some r"
    "encode (chan_path (cs_family s) (cs_channel s) (cs_option s)) r (cs_value s) = Ok e"
    using xs(2) by (auto simp: channel_entry_def rbind_Ok_iff split: option.splits if_splits)
  with d(1) s(1) that show ?thesis by blast
qed

lemma global_entries_setting:
  assumes "global_entries c = Ok es" and "e \<in> set es"
  obtains d g r where "device_for_name (cfg_device_name c) = Some d"
    "dget (settable_globals (Some d) (gs_family g)) (gs_option g) = Some r"
    "encode (gs_path g) r (gs_value g) = Ok e"
proof -
  obtain d ess where d: "device_for_name (cfg_device_name c) = Some d"
    "map_res (global_entry d) (cfg_globals c) = Ok ess" "es = concat ess"
    using assms by (auto simp: global_entries_def rbind_Ok_iff split: option.splits)
  obtain xs where xs: "xs \<in> set ess" "e \<in> set xs" using assms(2) d(3) by auto
  then obtain g where "global_entry d g = Ok xs" using map_res_from [OF d(2)] by blast
  then obtain r where "dget (settable_globals (Some d) (gs_family g)) (gs_option g) = Some r"
    "encode (gs_path g) r (gs_value g) = Ok e"
    using xs(2) by (auto simp: global_entry_def rbind_Ok_iff split: option.splits)
  with d(1) that show ?thesis by blast
qed

lemma encode_mute_value:
  assumes "encode path r v = Ok e" and "mute_phase (en_phase e)"
  shows "en_path e = path \<and> (\<exists>n. py_integer v = Ok n \<and> (en_phase e = PLAYBACK_MUTE_OFF \<longleftrightarrow> n = 0))"
  using assms
  by (auto simp: encode_def rbind_Ok_iff Entry_def mute_phase_def int_phase_def split: if_splits)

text \<open>A write that releases a mute comes from a mute flag declared 0.\<close>

lemma mute_entry_setting:
  assumes "desired c = Ok es" and "e \<in> set es" and "mute_phase (en_phase e)"
  obtains s n where "s \<in> set (cfg_channels c)" "is_mute_setting s" "en_path e = mute_path (cs_channel s)"
    "py_integer (cs_value s) = Ok n" "en_phase e = PLAYBACK_MUTE_OFF \<longleftrightarrow> n = 0"
proof -
  obtain mutes where mutes: "fold_res (validated_mute c (device_for_name (cfg_device_name c))) (cfg_channels c) [] = Ok mutes"
    using assms(1) by (rule desiredE) (auto simp: validate_playback_mute_def validated_mutes_def rbind_Ok_iff Let_def)
  have path: "startswith (en_path e) ''/playback/''"
    using desired_mute_phase [OF assms] by blast
  obtain channels globals where parts: "channel_entries c = Ok channels" "global_entries c = Ok globals"
    and e: "e \<in> set channels \<or> e \<in> set globals"
    using desired_mute_settings [OF assms] by blast
  from e show ?thesis
  proof
    assume "e \<in> set channels"
    then obtain d s r where s: "s \<in> set (cfg_channels c)"
      "encode (chan_path (cs_family s) (cs_channel s) (cs_option s)) r (cs_value s) = Ok e"
      using channel_entries_setting [OF parts(1)] by metis
    note enc = encode_mute_value [OF s(2) assms(3)]
    obtain m m' where m: "validated_mute c (device_for_name (cfg_device_name c)) s m = Ok m'"
      using validated_settings [OF mutes s(1)] by blast
    have "cs_family s = ''playback''"
      using validated_mute_setting(1) [OF m] path enc by (auto simp: chan_path_def prefix_def)
    then have mute: "is_mute_setting s" using validated_mute_setting(2) [OF m] by blast
    then have "en_path e = mute_path (cs_channel s)" using enc by (simp add: is_mute_setting_def mute_path_def)
    with s(1) mute enc that show ?thesis by blast
  next
    assume "e \<in> set globals"
    then obtain d g r where g: "device_for_name (cfg_device_name c) = Some d"
      "dget (settable_globals (Some d) (gs_family g)) (gs_option g) = Some r"
      "encode (gs_path g) r (gs_value g) = Ok e"
      using global_entries_setting [OF parts(2)] by metis
    have "en_path e = gs_path g" using encode_mute_value [OF g(3) assms(3)] by blast
    then have False
      using settable_globals_rows [OF g(2)] global_rows_elsewhere [OF g(1)] path
      by (metis prefix_append)
    then show ?thesis by blast
  qed
qed


lemma declared_mutes_of:
  assumes "validate_playback_mute c = Ok ()"
  obtains mutes where "declared_mutes c = Ok mutes"
    "fold_res (validated_mute c (device_for_name (cfg_device_name c))) (cfg_channels c) [] = Ok mutes"
proof -
  obtain mutes where m: "fold_res (validated_mute c (device_for_name (cfg_device_name c))) (cfg_channels c) [] = Ok mutes"
    using assms by (auto simp: validate_playback_mute_def validated_mutes_def rbind_Ok_iff Let_def)
  with declared_mutes_validated [OF m] that show ?thesis by (simp add: declared_mutes_def)
qed

lemma mute_setting_entry:
  assumes "desired c = Ok es" and "s \<in> set (cfg_channels c)" and "is_mute_setting s"
  shows "mute_path (cs_channel s) \<in> en_path ` set es"
proof -
  obtain base channels globals cs where d: "channel_entries c = Ok channels" "validate_playback_mute c = Ok ()"
    "es = sort_key en_phase (map snd (foldl store_claim [] cs) @ base @ channels @ globals)"
    using assms(1) by (rule desiredE)
  obtain mutes where m: "fold_res (validated_mute c (device_for_name (cfg_device_name c))) (cfg_channels c) [] = Ok mutes"
    using declared_mutes_of [OF d(2)] by blast
  obtain m m' where v: "validated_mute c (device_for_name (cfg_device_name c)) s m = Ok m'"
    using validated_settings [OF m assms(2)] by blast
  obtain dev r where dev: "device_for_name (cfg_device_name c) = Some dev"
    "option_register (Some dev) ''playback'' ''mute'' (cs_channel s) = Some r"
    using v assms(3) by (auto simp: validated_mute_def is_mute_setting_def res_simps split: option.splits if_splits)
  obtain ess where ess: "map_res (channel_entry dev) (cfg_channels c) = Ok ess" "channels = concat ess"
    using d(1) dev(1) by (auto simp: channel_entries_def rbind_Ok_iff)
  obtain xs where xs: "xs \<in> set ess" "channel_entry dev s = Ok xs"
    using map_res_to [OF ess(1) assms(2)] by blast
  then obtain e where "e \<in> set xs" "encode (mute_path (cs_channel s)) r (cs_value s) = Ok e"
    using assms(3) dev(2) by (auto simp: channel_entry_def is_mute_setting_def mute_path_def rbind_Ok_iff)
  moreover have "set xs \<subseteq> set es" using xs(1) by (auto simp: d(3) ess(2))
  moreover have "en_path e = mute_path (cs_channel s)"
    using calculation(2) by (auto simp: encode_def rbind_Ok_iff Entry_def split: if_splits)
  ultimately show ?thesis by (metis image_eqI subsetD)
qed

text \<open>Both channels of a pair a valid desk releases are declared 0.\<close>

lemma released_pair:
  assumes "validate_playback_mute c = Ok ()" and "declared_mutes c = Ok mutes"
    and "s \<in> set (cfg_channels c)" and "is_mute_setting s" and "py_integer (cs_value s) = Ok 0"
  shows "\<forall>ch\<in>{pair_left (cs_channel s), pair_left (cs_channel s) + 1}. dget mutes ch = Some 0
    \<and> (\<exists>t\<in>set (cfg_channels c). is_mute_setting t \<and> cs_channel t = ch)"
proof -
  obtain d mutes' v where d: "device_for_name (cfg_device_name c) = Some d"
    and m: "validated_mutes c (Some d) = Ok mutes'"
    and v: "dget mutes' (pair_left (cs_channel s)) = Some v" "dget mutes' (pair_left (cs_channel s) + 1) = Some v"
    using assms(1,3,4) by (rule validate_playback_muteE) blast
  note fold = m [unfolded validated_mutes_def]
  have "mutes' = mutes" using declared_mutes_validated [OF fold] assms(2) by (simp add: declared_mutes_def)
  have "v = 0"
    using fold_agree(2) [OF fold] assms(3-5) v pair_left_pair [of "cs_channel s"] by fastforce
  then show ?thesis using v fold_from_settings [OF fold] by (auto simp: \<open>mutes' = mutes\<close>)
qed

text \<open>A release of the desired state has its prerequisite when nothing is skipped.\<close>

lemma prerequisite_accepted:
  assumes "desired c = Ok es" and "declared_mutes c = Ok mutes" and "e \<in> set es"
    and "en_phase e = PLAYBACK_MUTE_OFF"
  shows "is_ok (prerequisite c mutes (map en_path es) confirmed (entry_write e UNCONDITIONAL))"
proof -
  have valid: "validate_playback_mute c = Ok ()" using assms(1) by (rule desiredE)
  have "mute_phase (en_phase e)" by (simp add: mute_phase_def assms(4))
  then obtain s n where s: "s \<in> set (cfg_channels c)" "is_mute_setting s" "en_path e = mute_path (cs_channel s)"
    "py_integer (cs_value s) = Ok n" "en_phase e = PLAYBACK_MUTE_OFF \<longleftrightarrow> n = 0"
    by (rule mute_entry_setting [OF assms(1,3)])
  then have s0: "py_integer (cs_value s) = Ok 0" using assms(4) by simp
  let ?left = "pair_left (cs_channel s)"
  note pair = released_pair [OF valid assms(2) s(1,2) s0]
  have total: "\<forall>r\<in>set (cfg_routes c). is_ok (mix_messages r) \<and> is_ok (link_messages r)"
    using desired_messages(1,2) [OF assms(1)] by blast
  obtain required links where f: "fold_res (column_part ?left) (cfg_routes c)
       ([mute_path ?left, mute_path (?left + 1)], []) = Ok (required, links)"
    "set required \<subseteq> {mute_path ?left, mute_path (?left + 1)}
       \<union> {fst m |m. \<exists>r\<in>set (cfg_routes c). \<exists>ms. mix_messages r = Ok ms \<and> m \<in> set ms}"
    "set links \<subseteq> {fst l |l. \<exists>r\<in>set (cfg_routes c). \<exists>ls. link_messages r = Ok ls \<and> l \<in> set ls}"
    using column_part_total [OF total, of ?left "([mute_path ?left, mute_path (?left + 1)], [])"]
    unfolding fst_conv snd_conv list.set Un_empty_left by blast
  have "mute_path ch \<in> en_path ` set es" if ch: "ch \<in> {?left, ?left + 1}" for ch
  proof -
    obtain t where t: "t \<in> set (cfg_channels c)" "is_mute_setting t" "cs_channel t = ch"
      using pair ch by blast
    show ?thesis using mute_setting_entry [OF assms(1) t(1,2)] unfolding t(3) .
  qed
  then have "{mute_path ?left, mute_path (?left + 1)} \<subseteq> en_path ` set es" by simp
  moreover have "{fst m |m. \<exists>r\<in>set (cfg_routes c). \<exists>ms. mix_messages r = Ok ms \<and> m \<in> set ms} \<subseteq> en_path ` set es"
    using desired_messages(3) [OF assms(1)] by (intro subsetI) (elim CollectE exE conjE bexE, simp)
  ultimately have "set required \<subseteq> en_path ` set es"
    using f(2) by (meson Un_least subset_trans)
  moreover have "{fst l |l. \<exists>r\<in>set (cfg_routes c). \<exists>ls. link_messages r = Ok ls \<and> l \<in> set ls} \<subseteq> en_path ` set es"
    using desired_messages(4) [OF assms(1)] by (intro subsetI) (elim CollectE exE conjE bexE, simp)
  then have "set links \<subseteq> en_path ` set es" using f(3) by (rule subset_trans [rotated])
  moreover have "set links \<subseteq> set (map en_path es) \<union> set confirmed" using calculation(2) by auto
  moreover have "dget mutes ?left = Some 0" "dget mutes (?left + 1) = Some 0" using pair by simp_all
  ultimately show ?thesis
    using f(1) by (simp add: prerequisite_def s(3) Let_def)
qed

lemma nothing_skipped:
  assumes "\<not> preserves_remember intent"
  shows "skipped_paths c intent [] confirmed observed es = Ok []"
  using assms by (simp add: skipped_paths_def protected_entries_def retained_pairs_def List.map_filter_def)

lemma start_accepted_aux:
  assumes "desired c = Ok es" and "\<not> preserves_remember intent"
  shows "\<exists>p. application_plan c intent [] confirmed observed = Ok p"
proof -
  obtain mutes where m: "declared_mutes c = Ok mutes"
    using declared_mutes_of desiredE [OF assms(1)] by metis
  let ?ws = "map (\<lambda>e. entry_write e UNCONDITIONAL) es"
  have sorted: "sort_key wr_phase ?ws = ?ws"
    using desired_sorted [OF assms(1)] by (intro sort_key_id_if_sorted) (simp add: o_def)
  have "is_ok (map_res (prerequisite c mutes (map en_path es) confirmed)
      (map (\<lambda>e. entry_write e UNCONDITIONAL) (filter (\<lambda>e. en_phase e = PLAYBACK_MUTE_OFF) es)))"
    using prerequisite_accepted [OF assms(1) m] by (intro map_res_total) auto
  then obtain pre where "map_res (prerequisite c mutes (map en_path es) confirmed)
      (map (\<lambda>e. entry_write e UNCONDITIONAL) (filter (\<lambda>e. en_phase e = PLAYBACK_MUTE_OFF) es)) = Ok pre"
    by (auto simp: is_ok_iff)
  then show ?thesis
    by (simp add: application_plan_def assms nothing_skipped blind_plan sorted playback_prerequisites_def m
        filter_map o_def)
qed


section \<open>Properties\<close>

text \<open>
  C19. A later operation preserves what it must: a repair or a reconcile writes no register the
  caller left alone, no register whose policy is not PIN, none written by a base, no confirmed
  link, and no input gain AutoSet may own given the reports.
\<close>

theorem repair_preserves_remembered:
  assumes "application_plan c intent leave confirmed observed = Ok p" and "preserves_remember intent"
    and "desired c = Ok es" and "w \<in> set (pl_writes p)"
  shows "wr_path w \<notin> set leave
    \<and> (\<forall>e\<in>set es. en_path e = wr_path w \<longrightarrow> \<not> en_base e
         \<and> policy_for (wr_path w) (device_for_name (cfg_device_name c)) (cfg_policies c) = PIN
         \<and> \<not> (en_phase e = LINK \<and> wr_path w \<in> set confirmed))
    \<and> wr_path w \<notin> set (retained_gains c observed [] True)"
proof -
  obtain es' skip and e :: entry where w: "desired c = Ok es'"
    "skipped_paths c intent leave confirmed observed es' = Ok skip"
    "en_path e \<notin> set skip" "wr_path w = en_path e"
    using assms(1,4) by (rule application_plan_writes)
  then have "es' = es" using assms(3) by simp
  note skip = skipped_repair [OF w(2)[unfolded \<open>es' = es\<close>] assms(2,3)]
  have out: "wr_path w \<notin> set skip" using w(3,4) by simp
  have "\<not> en_base e' \<and> policy_for (wr_path w) (device_for_name (cfg_device_name c)) (cfg_policies c) = PIN
         \<and> \<not> (en_phase e' = LINK \<and> wr_path w \<in> set confirmed)"
    if "e' \<in> set es" "en_path e' = wr_path w" for e'
    using skip(3) [OF that(1)] skip(2) out that by (auto simp: reuse_links_def image_subset_iff)
  with skip(1,4) out show ?thesis by blast
qed


lemma demo_retained_gains: "retained_gains demo_config [] linked True = []"
  by (simp add: retained_gains_def autogain_pairs_def autogain_supported_def)

lemma demo_policies:
  "policy_for (chan_path ''playback'' 1 ''stereo'') (Some UCX2) [] = PIN"
  "policy_for (chan_path ''output'' 1 ''stereo'') (Some UCX2) [] = PIN"
  "policy_for (mix_path 1 ''playback'' 1) (Some UCX2) [] = PIN"
  "policy_for (chan_path ''output'' 1 ''volume'') (Some UCX2) [] = REMEMBER"
  "policy_for (chan_path ''output'' 2 ''volume'') (Some UCX2) [] = REMEMBER"
  using register_policy_rows [of 1 1] register_policy_rows [of 2 1] by (simp_all add: policy_for_def)

lemma demo_remembered:
  "remembered_paths demo_config [] linked = Ok (sorted_set
     [chan_path ''output'' 1 ''volume'', chan_path ''output'' 2 ''volume''])"
  by (simp add: remembered_paths_def demo_desired demo_retained_gains demo_policies Entry_def)

lemma retained_pair_output:
  "retained_pair (chan_path ''output'' ch ''volume'') = None" "retained_pair (chan_path ''output'' ch ''stereo'') = None"
proof -
  have "strip_slash (chan_path ''output'' ch ''volume'') = ''output'' @ CHR ''/'' # show_int ch @ ''/volume''"
    "strip_slash (chan_path ''output'' ch ''stereo'') = ''output'' @ CHR ''/'' # show_int ch @ ''/stereo''"
    by (simp_all add: strip_slash_def strip_with_def chan_path_def)
  then have "segments (strip_slash (chan_path ''output'' ch ''volume'')) = [''output'', show_int ch, ''volume'']"
    "segments (strip_slash (chan_path ''output'' ch ''stereo'')) = [''output'', show_int ch, ''stereo'']"
    using split_on_append [of "CHR ''/''" "''output''"] split_on_append [of "CHR ''/''" "show_int ch"]
    by (simp_all add: segments_def)
  then show "retained_pair (chan_path ''output'' ch ''volume'') = None"
    "retained_pair (chan_path ''output'' ch ''stereo'') = None"
    by (simp_all add: retained_pair_def)
qed

lemma demo_protected:
  "set skip \<subseteq> {chan_path ''output'' 1 ''volume'', chan_path ''output'' 2 ''volume'', chan_path ''output'' 1 ''stereo''} \<Longrightarrow>
     protected_entries c skip confirmed = Ok []"
proof -
  assume "set skip \<subseteq> {chan_path ''output'' 1 ''volume'', chan_path ''output'' 2 ''volume'', chan_path ''output'' 1 ''stereo''}"
  then have "\<forall>p\<in>set skip. retained_pair p = None" using retained_pair_output by blast
  then have "List.map_filter retained_pair skip = []" by (auto simp: List.map_filter_def filter_empty_conv)
  then show ?thesis by (simp add: protected_entries_def retained_pairs_def)
qed

text \<open>A repair of the small desk whose output link was confirmed.\<close>

lemma demo_repair:
  "application_plan demo_config REPAIR [] [chan_path ''output'' 1 ''stereo''] [] = Ok
     \<lparr>pl_writes = [entry_write (Entry (chan_path ''playback'' 1 ''stereo'') ''i'' [VInt 1] LINK) UNCONDITIONAL,
        entry_write (Entry (mix_path 1 ''playback'' 1) ''fi'' [VFloat (Fin 0), VInt 0] MIX) UNCONDITIONAL],
      pl_confirmed = [], pl_unverifiable = [],
      pl_retained = sorted_set (chan_path ''output'' 1 ''stereo''
        # sorted_set [chan_path ''output'' 1 ''volume'', chan_path ''output'' 2 ''volume''])\<rparr>"
proof -
  obtain es where d: "desired demo_config = Ok es"
    and es: "es = [Entry (chan_path ''playback'' 1 ''stereo'') ''i'' [VInt 1] LINK,
   Entry (chan_path ''output'' 1 ''stereo'') ''i'' [VInt 1] LINK,
   Entry (mix_path 1 ''playback'' 1) ''fi'' [VFloat (Fin 0), VInt 0] MIX,
   Entry (chan_path ''output'' 1 ''volume'') ''f'' [VFloat (Fin (- 10))] MIX,
   Entry (chan_path ''output'' 2 ''volume'') ''f'' [VFloat (Fin (- 10))] MIX]"
    using demo_desired by blast
  have "reuse_links es [chan_path ''output'' 1 ''stereo''] = [chan_path ''output'' 1 ''stereo'']"
    by (simp add: es reuse_links_def Entry_def chan_path_inject mix_not_chan)
  then have skip: "skipped_paths demo_config REPAIR [] [chan_path ''output'' 1 ''stereo''] [] es =
      Ok (chan_path ''output'' 1 ''stereo'' # sorted_set [chan_path ''output'' 1 ''volume'', chan_path ''output'' 2 ''volume''])"
    by (simp add: skipped_paths_def preserves_remember_def demo_remembered Let_def demo_protected)
  show ?thesis
    by (simp add: application_plan_def d skip blind_plan)
      (simp add: es Entry_def chan_path_inject mix_not_chan playback_prerequisites_def declared_mutes_def
        less_eq_phase_def Let_def)
qed

lemma repair_preserves_remembered_witness:
  "\<exists>p. application_plan demo_config REPAIR [] [chan_path ''output'' 1 ''stereo''] [] = Ok p
     \<and> (\<forall>w\<in>set (pl_writes p). wr_path w \<notin> set (retained_gains demo_config [] [] True))
     \<and> length (pl_writes p) = 2"
  using repair_preserves_remembered [OF demo_repair _ demo_desired] demo_repair
  by (auto simp: preserves_remember_def)




text \<open>
  C15. Releases come last and begin muted: in every plan of an application, before a write that
  releases a playback mute there is the write that mutes the same channel, and strictly between
  the two stand a write of every matrix cell that any route sends the pair to, and a write of
  every link such a route uses, unless that link is confirmed.
\<close>

theorem release_order:
  assumes "application_plan c intent leave confirmed observed = Ok p"
    and "i < length (pl_writes p)" and "wr_phase (pl_writes p ! i) = PLAYBACK_MUTE_OFF"
    and "r \<in> set (cfg_routes c)" and "src \<in> set (route_playback r)"
    and "path_channel (wr_path (pl_writes p ! i)) = Ok ch" and "pair_left src = pair_left ch"
  shows "\<exists>j ms ls. j < i \<and> wr_path (pl_writes p ! j) = wr_path (pl_writes p ! i)
    \<and> wr_args (pl_writes p ! j) = [VInt 1] \<and> wr_phase (pl_writes p ! j) = PLAYBACK_MUTE_ON
    \<and> mix_messages r = Ok ms \<and> link_messages r = Ok ls
    \<and> (\<forall>m\<in>set ms. startswith (fst m) ''/mix/'' \<longrightarrow> (\<exists>k. j < k \<and> k < i \<and> wr_path (pl_writes p ! k) = fst m))
    \<and> (\<forall>l\<in>set ls. fst l \<in> set confirmed \<or> (\<exists>k. j < k \<and> k < i \<and> wr_path (pl_writes p ! k) = fst l))"
proof -
  let ?ws = "pl_writes p" and ?w = "pl_writes p ! i"
  obtain es skip mutes pre where d: "desired c = Ok es"
    "map_res (prerequisite c mutes (map en_path (filter (\<lambda>e. en_path e \<notin> set skip) es)) confirmed)
       (map (\<lambda>e. entry_write e UNCONDITIONAL)
         (filter (\<lambda>e. en_path e \<notin> set skip \<and> en_phase e = PLAYBACK_MUTE_OFF) es)) = Ok pre"
    "pl_writes p = sort_key wr_phase
       (pre @ map (\<lambda>e. entry_write e UNCONDITIONAL) (filter (\<lambda>e. en_path e \<notin> set skip) es))"
    using assms(1) by (rule application_planE)
  let ?es = "filter (\<lambda>e. en_path e \<notin> set skip) es"
  have sorted: "sorted (map wr_phase ?ws)" unfolding d(3) by simp
  have pre_phase: "wr_phase v = PLAYBACK_MUTE_ON" if v: "v \<in> set pre" for v
    using map_res_from [OF d(2) v] prerequisite_write by fastforce
  have "?w \<in> set ?ws" using assms(2) by simp
  then have "?w \<in> set pre \<or> ?w \<in> (\<lambda>e. entry_write e UNCONDITIONAL) ` set ?es" unfolding d(3) by simp
  then obtain e where e: "e \<in> set es" "en_path e \<notin> set skip" "?w = entry_write e UNCONDITIONAL"
    using pre_phase [of ?w] assms(3) by auto
  have off: "en_phase e = PLAYBACK_MUTE_OFF" using assms(3) e(3) by simp
  then have "entry_write e UNCONDITIONAL \<in> set (map (\<lambda>e. entry_write e UNCONDITIONAL)
         (filter (\<lambda>e. en_path e \<notin> set skip \<and> en_phase e = PLAYBACK_MUTE_OFF) es))"
    using e by simp
  then obtain v where v: "v \<in> set pre"
    "prerequisite c mutes (map en_path ?es) confirmed (entry_write e UNCONDITIONAL) = Ok v"
    using map_res_to [OF d(2)] by blast
  note v' = prerequisite_write [OF v(2)]
  have "v \<in> set ?ws" using v(1) unfolding d(3) by simp
  moreover have "wr_phase v < wr_phase ?w" by (simp add: v' assms(3) less_phase_def)
  ultimately obtain j where j: "j < i" "?ws ! j = v"
    using phase_order_index [OF sorted _ assms(2)] by blast
  obtain required links where f: "fold_res (column_part (pair_left ch)) (cfg_routes c)
       ([mute_path (pair_left ch), mute_path (pair_left ch + 1)], []) = Ok (required, links)"
    "set required \<subseteq> en_path ` set ?es" "set links \<subseteq> en_path ` set ?es \<union> set confirmed"
    using v(2)
  proof (rule prerequisiteE)
    fix ch' req lks
    assume "path_channel (wr_path (entry_write e UNCONDITIONAL)) = Ok ch'"
      "fold_res (column_part (pair_left ch')) (cfg_routes c)
         ([mute_path (pair_left ch'), mute_path (pair_left ch' + 1)], []) = Ok (req, lks)"
      "set req \<subseteq> set (map en_path ?es)" "set lks \<subseteq> set (map en_path ?es) \<union> set confirmed"
    with assms(6) e(3) show thesis by (intro that [of req lks]) simp_all
  qed
  have touched: "list_ex (\<lambda>ch'. ch' = pair_left ch \<or> ch' = pair_left ch + 1) (route_playback r)"
    using assms(5,7) pair_left_pair [of src] by (auto simp: list_ex_iff)
  obtain ms ls where m: "mix_messages r = Ok ms" "link_messages r = Ok ls"
    "\<forall>m\<in>set ms. startswith (fst m) ''/mix/'' \<longrightarrow> fst m \<in> set required" "fst ` set ls \<subseteq> set links"
    using column_part_collects [OF f(1)] assms(4) touched by blast
  have between: "\<exists>k. j < k \<and> k < i \<and> wr_path (?ws ! k) = path"
    if path: "path \<in> en_path ` set ?es" "\<not> (startswith path ''/playback/'' \<and> endswith path ''/mute'')" for path
  proof -
    obtain f where f: "f \<in> set es" "en_path f \<notin> set skip" "path = en_path f" using path(1) by auto
    let ?v = "entry_write f UNCONDITIONAL"
    have "\<not> mute_phase (en_phase f)" using desired_mute_phase [OF d(1) f(1)] path(2) f(3) by blast
    then have ph: "wr_phase (?ws ! j) < wr_phase ?v" "wr_phase ?v < wr_phase ?w"
      using j(2) by (cases "en_phase f"; simp add: v' assms(3) less_phase_def mute_phase_def)+
    have "?v \<in> set ?ws" using f(1,2) unfolding d(3) by simp
    obtain k where k: "k < i" "?ws ! k = ?v"
      using phase_order_index [OF sorted \<open>?v \<in> set ?ws\<close> assms(2) ph(2)] by blast
    have "j < k"
    proof (rule ccontr)
      assume "\<not> j < k"
      then have "wr_phase (?ws ! k) \<le> wr_phase (?ws ! j)"
        using sorted_nth_mono [OF sorted, of k j] j(1) assms(2) by simp
      with ph(1) k(2) show False by simp
    qed
    with k f(3) show ?thesis by auto
  qed
  have mix: "\<exists>k. j < k \<and> k < i \<and> wr_path (?ws ! k) = fst m"
    if "m \<in> set ms" "startswith (fst m) ''/mix/''" for m
  proof -
    have "fst m \<in> en_path ` set ?es" using that m(3) f(2) by blast
    moreover have "\<not> startswith (fst m) ''/playback/''"
      using that(2) by (auto simp: prefix_def)
    ultimately show ?thesis using between by blast
  qed
  have link: "fst l \<in> set confirmed \<or> (\<exists>k. j < k \<and> k < i \<and> wr_path (?ws ! k) = fst l)"
    if "l \<in> set ls" for l
  proof -
    have "fst l \<in> en_path ` set ?es \<or> fst l \<in> set confirmed" using that m(4) f(3) by blast
    moreover have "\<not> endswith (fst l) ''/mute''"
      using link_messages_paths [OF m(2) that] by (auto simp: chan_path_def suffix_to_prefix)
    ultimately show ?thesis using between by blast
  qed
  have "wr_path v = wr_path ?w" "wr_args v = [VInt 1]" "wr_phase v = PLAYBACK_MUTE_ON"
    by (simp_all add: v' e(3))
  then show ?thesis using j m(1,2) mix link by (intro exI [of _ j] exI [of _ ms] exI [of _ ls]) blast
qed


text \<open>A desk that releases the first playback pair: ten linked routes own both of its columns.\<close>

definition pair_route :: "int \<Rightarrow> route" where
  "pair_route n = Route ''pair'' [n, n + 1] \<lparr>route_playback := [1, 2]\<rparr>"

definition mute_off :: "int \<Rightarrow> channel_setting" where
  "mute_off ch = \<lparr>cs_family = ''playback'', cs_channel = ch, cs_option = ''mute'', cs_value = VInt 0\<rparr>"

definition release_config :: config where
  "release_config = default_config \<lparr>
     cfg_routes := map pair_route [1, 3, 5, 7, 9, 11, 13, 15, 17, 19],
     cfg_channels := [mute_off 1, mute_off 2]\<rparr>"

lemma pair_route_sel [simp]:
  "route_output (pair_route n) = [n, n + 1]" "route_playback (pair_route n) = [1, 2]" "route_input (pair_route n) = []"
  "source (pair_route n) = (''playback'', [1, 2])" "route_level (pair_route n) = Fin 0" "route_pan (pair_route n) = 0"
  "route_volume (pair_route n) = None" "route_stereo (pair_route n)" "\<not> route_base (pair_route n)"
  "route_mirror_of (pair_route n) = []"
  by (simp_all add: pair_route_def Route_def source_def)

lemma release_config_sel [simp]:
  "cfg_routes release_config = map pair_route [1, 3, 5, 7, 9, 11, 13, 15, 17, 19]"
  "cfg_channels release_config = [mute_off 1, mute_off 2]" "cfg_globals release_config = []"
  "cfg_base release_config = ''keep''" "cfg_usb_id release_config = ''2a39:3fd9''"
  "device_for_name (cfg_device_name release_config) = Some UCX2"
  by (simp_all add: release_config_def default_config_def DEFAULT_USB_ID_def)

lemma pair_messages:
  "link_messages (pair_route n) = Ok [(chan_path ''playback'' 1 ''stereo'', ''i'', [VInt 1]),
     (chan_path ''output'' (odd_of n) ''stereo'', ''i'', [VInt 1])]"
  "mix_messages (pair_route n) = Ok [(mix_path n ''playback'' 1, ''fi'', [VFloat (Fin 0), VInt 0])]"
  by (simp_all add: link_messages_def link_requirements_def link_message_def mix_messages_def
      checked_pan_zero volume_messages_def odd_of_def)

lemma release_mutes_valid: "validate_playback_mute release_config = Ok ()"
proof -
  have "report_value (VInt 0) mute_row = Ok 0"
    using report_value_flag [of mute_row 0] by (simp add: mute_row_def)
  then have m: "validated_mutes release_config (Some UCX2) = Ok [(1, 0), (2, 0)]"
    by (simp add: validated_mutes_def mute_off_def validated_mute_def option_register_mute)
  have p: "mute_pairs [(1, 0), (2, 0)] = [1]" by code_simp
  have links: "validate_route_links (cfg_routes release_config) UCX2 = Ok ()"
    by (simp add: validate_route_links_def validate_playback_route_def valid_side_def odd_pair_def
        link_requirements_def odd_of_def add_links_def add_link_def)
  have "list_all (\<lambda>cell. cell \<in> set (route_cells release_config 1)) (required_cells UCX2 1)"
    by (simp add: required_cells_def set_route_cells list_all_iff) (intro ballI, simp only: atLeastAtMost_iff, presburger)
  then show ?thesis
    using links m by (simp add: validate_playback_mute_def p check_partners_def require_complete_unmute_def)
qed


lemma encode_mute_off:
  "encode path mute_row (VInt 0) = Ok (Entry path ''i'' [VInt 0] (int_phase path 0))"
proof -
  have "report_value (VInt 0) mute_row = Ok 0"
    using report_value_flag [of mute_row 0] by (simp add: mute_row_def)
  then show ?thesis by (simp add: encode_def check_domain_def) (simp add: mute_row_def Register_def)
qed

lemma mute_path_phase: "int_phase (mute_path ch) 0 = PLAYBACK_MUTE_OFF"
  by (simp add: int_phase_def mute_path_def chan_path_def suffix_to_prefix)

lemma release_desired:
  obtains es where "desired release_config = Ok es"
    "Entry (mute_path 1) ''i'' [VInt 0] PLAYBACK_MUTE_OFF \<in> set es"
proof -
  have valid: "validate_route_pan (cfg_routes release_config) = Ok ()" "validate_autogain release_config = Ok ()"
    by (simp_all add: validate_route_pan_def checked_pan_zero validate_autogain_def autogain_supported_def
        autogain_setting_def mute_off_def)
  have "is_ok (route_claims (cfg_routes release_config))"
    by (simp add: route_claims_def phase_claims_def pair_messages)
  then obtain cs where cs: "route_claims (cfg_routes release_config) = Ok cs" by (auto simp: is_ok_iff)
  have "is_ok (declared_links (cfg_routes release_config))"
    by (simp add: declared_links_def link_requirements_def odd_of_def add_links_def add_link_def)
  then have base: "base_part release_config declared (Some UCX2) = Ok []" for declared
    by (auto simp: base_part_def keep_base is_ok_iff)
  have channels: "channel_entries release_config = Ok [Entry (mute_path 1) ''i'' [VInt 0] PLAYBACK_MUTE_OFF,
     Entry (mute_path 2) ''i'' [VInt 0] PLAYBACK_MUTE_OFF]"
    by (simp add: channel_entries_def channel_entry_def mute_off_def option_register_mute encode_mute_off
        mute_path_phase mute_path_def [symmetric])
  have globals: "global_entries release_config = Ok []" by (simp add: global_entries_def)
  have pan: "map_res (check_pan_channels UCX2) (cfg_routes release_config) = Ok (map (\<lambda>_. ()) (cfg_routes release_config))"
    by (intro map_res_okI) (auto simp: check_pan_channels_def checked_pan_zero)
  define pos where "pos = foldl place ([], 0) (map claim_message cs)"
  define es where "es = sort_key en_phase (sort_key (\<lambda>e. case dget (fst pos) (en_path e) of Some n \<Rightarrow> n | None \<Rightarrow> 0)
     (map snd (foldl store_claim [] cs)) @ [Entry (mute_path 1) ''i'' [VInt 0] PLAYBACK_MUTE_OFF,
     Entry (mute_path 2) ''i'' [VInt 0] PLAYBACK_MUTE_OFF])"
  have "desired release_config = Ok es"
    unfolding desired_def valid release_mutes_valid release_config_sel(6) option.case pan route_entries_claims
      send_order_claims cs base channels globals rbind_simps Let_def case_prod_unfold append_Nil append_Nil2
      pos_def [symmetric] es_def ..
  then show ?thesis by (rule that) (simp add: es_def)
qed

lemma release_order_witness:
  "\<exists>p i j k. application_plan release_config INITIAL [] [] [] = Ok p \<and> j < k \<and> k < i
     \<and> wr_phase (pl_writes p ! i) = PLAYBACK_MUTE_OFF \<and> wr_args (pl_writes p ! j) = [VInt 1]
     \<and> wr_path (pl_writes p ! k) = mix_path 19 ''playback'' 1"
proof -
  obtain es where es: "desired release_config = Ok es"
    and off: "Entry (mute_path 1) ''i'' [VInt 0] PLAYBACK_MUTE_OFF \<in> set es"
    by (rule release_desired)
  obtain p where p: "application_plan release_config INITIAL [] [] [] = Ok p"
    using start_accepted_aux [OF es, of INITIAL] by (auto simp: preserves_remember_def)
  let ?w = "entry_write (Entry (mute_path 1) ''i'' [VInt 0] PLAYBACK_MUTE_OFF) UNCONDITIONAL"
  have "?w \<in> set (pl_writes p)"
    using p
  proof (rule application_planE)
    fix es' skip mutes and pre :: "reg_write list"
    assume "desired release_config = Ok es'" "skipped_paths release_config INITIAL [] [] [] es' = Ok skip"
      "pl_writes p = sort_key wr_phase (pre @ map (\<lambda>e. entry_write e UNCONDITIONAL) (filter (\<lambda>e. en_path e \<notin> set skip) es'))"
    then show ?thesis using es off by (simp add: nothing_skipped preserves_remember_def)
  qed
  then obtain i where i: "i < length (pl_writes p)" "pl_writes p ! i = ?w" by (auto simp: in_set_conv_nth)
  have r: "pair_route 19 \<in> set (cfg_routes release_config)" by simp
  have mix: "startswith (mix_path 19 ''playback'' 1) ''/mix/''" by (simp add: mix_path_def chan_path_def)
  have src: "1 \<in> set (route_playback (pair_route 19))" by simp
  have off: "wr_phase (pl_writes p ! i) = PLAYBACK_MUTE_OFF" "path_channel (wr_path (pl_writes p ! i)) = Ok 1"
    by (simp_all add: i(2) Entry_def)
  obtain j ms where j: "wr_args (pl_writes p ! j) = [VInt 1]" "mix_messages (pair_route 19) = Ok ms"
    "\<forall>m\<in>set ms. startswith (fst m) ''/mix/'' \<longrightarrow> (\<exists>k. j < k \<and> k < i \<and> wr_path (pl_writes p ! k) = fst m)"
    using release_order [OF p i(1) off(1) r src off(2) refl] by (elim exE conjE)
  then have "\<exists>k. j < k \<and> k < i \<and> wr_path (pl_writes p ! k) = mix_path 19 ''playback'' 1"
    using mix by (auto simp: pair_messages(2))
  with p off(1) j(1) show ?thesis by (elim exE conjE, intro exI conjI)
qed

end
