(* ===== verification/Retention.thy ===== *)
theory Retention
  imports Planning
begin

text \<open>
  What a plan and the retention check promise. A plan decides every entry: it is confirmed only
  against a report that matches it, and written otherwise. A selection of writes that passes the
  retention check cannot reach a retained setting through a link or a linked partner.
\<close>

section \<open>Deciding entries\<close>

lemma judge_confirmed:
  assumes "judge (Some obs) (Some d) tolerance e = Ok Confirmed"
  shows "\<exists>got. dget obs (en_path e) = Some got
    \<and> matches (en_tags e) (en_args e) got tolerance (register_at (Some d) (en_path e)) = Ok True"
    and "verify_class_of (Some d) (en_path e) \<noteq> Some REESTABLISHED"
    and "verify_class_of (Some d) (en_path e) \<noteq> Some WRITE_ONLY"
  using assms by (auto simp: judge_def rbind_Ok_iff Let_def split: if_splits option.splits)

lemma set_plan_confirmed: "p \<in> set (pl_confirmed (plan_of judged)) \<longleftrightarrow> (\<exists>e. (e, Confirmed) \<in> set judged \<and> p = en_path e)"
  by (force simp: plan_of_def set_map_filter split: verdict.splits)

lemma set_plan_writes:
  "w \<in> set (pl_writes (plan_of judged)) \<longleftrightarrow> (\<exists>e reason. (e, Rewrite reason) \<in> set judged \<and> w = entry_write e reason)"
  by (force simp: plan_of_def set_map_filter split: verdict.splits)

lemma length_plan:
  "length (pl_writes (plan_of judged)) + length (pl_confirmed (plan_of judged)) = length judged"
  unfolding plan_of_def by (induction judged) (auto simp: List.map_filter_def split: verdict.splits)

text \<open>
  C17. A plan decides every entry, and honestly: with an observation, each entry of the desired
  state is either confirmed or written with its own value, their numbers add up to the number of
  entries, and what is confirmed was reported, matches the report under the row's encoding, and
  is no register the device never reports.
\<close>

theorem plan_decides_every_entry:
  assumes "make_plan es (Some obs) (Some d) tolerance = Ok p"
  shows "length (pl_writes p) + length (pl_confirmed p) = length es
    \<and> (\<forall>e\<in>set es. en_path e \<in> set (pl_confirmed p) \<or> (\<exists>reason. entry_write e reason \<in> set (pl_writes p)))
    \<and> (\<forall>path\<in>set (pl_confirmed p). \<exists>e\<in>set es. en_path e = path
        \<and> verify_class_of (Some d) path \<noteq> Some REESTABLISHED \<and> verify_class_of (Some d) path \<noteq> Some WRITE_ONLY
        \<and> (\<exists>got. dget obs path = Some got
             \<and> matches (en_tags e) (en_args e) got tolerance (register_at (Some d) path) = Ok True))"
proof -
  obtain vs where vs: "list_all2 (\<lambda>e v. judge (Some obs) (Some d) tolerance e = Ok v) es vs"
    and p: "p = plan_of (zip es vs)"
    using assms by (rule make_planE)
  have len: "length vs = length es" using vs by (simp add: list_all2_lengthD)
  have judged: "judge (Some obs) (Some d) tolerance e = Ok v \<and> e \<in> set es" if "(e, v) \<in> set (zip es vs)" for e v
    using vs that by (auto simp: list_all2_iff dest: set_zip_leftD)
  have decided: "\<exists>v. (e, v) \<in> set (zip es vs)" if "e \<in> set es" for e
    using that len by (metis in_set_impl_in_set_zip1)
  have "en_path e \<in> set (pl_confirmed p) \<or> (\<exists>reason. entry_write e reason \<in> set (pl_writes p))" if "e \<in> set es" for e
    using decided [OF that] unfolding p set_plan_confirmed set_plan_writes by (metis verdict.exhaust)
  moreover have "\<exists>e\<in>set es. en_path e = path
        \<and> verify_class_of (Some d) path \<noteq> Some REESTABLISHED \<and> verify_class_of (Some d) path \<noteq> Some WRITE_ONLY
        \<and> (\<exists>got. dget obs path = Some got
             \<and> matches (en_tags e) (en_args e) got tolerance (register_at (Some d) path) = Ok True)"
    if "path \<in> set (pl_confirmed p)" for path
    using that judged judge_confirmed unfolding p set_plan_confirmed by metis
  ultimately show ?thesis using length_plan [of "zip es vs"] len p by simp
qed

definition link_row :: register where
  "link_row = (Register ''/output/{ch}/stereo'' ''i'' VERIFIABLE ''output'')\<lparr>reg_policy := PIN\<rparr>"

lemma register_at_link: "register_at (Some UCX2) (chan_path ''output'' 1 ''stereo'') = Some link_row"
  by (simp add: register_at_def names_register_def row_search link_row_def has_def channel_in_def)

lemma link_row_sel [simp]: "reg_domain link_row = None" "\<not> reg_mix_level link_row"
  by (simp_all add: link_row_def Register_def)

lemma link_flag_matches:
  "matches ''i'' [VInt 1] [VInt 1] None (register_at (Some UCX2) (chan_path ''output'' 1 ''stereo'')) = Ok True"
proof -
  have "py_integer (VInt 1) = Ok 1" by simp
  then show ?thesis
    unfolding register_at_link
    by (simp add: matches_def match_argument_def int_domain_ok_def pan_argument_def not_comparable_def)
qed

lemma plan_decides_every_entry_witness:
  "\<exists>p. make_plan [Entry (chan_path ''output'' 1 ''stereo'') ''i'' [VInt 1] LINK,
       Entry (chan_path ''playback'' 1 ''stereo'') ''i'' [VInt 1] LINK]
     (Some [(chan_path ''output'' 1 ''stereo'', [VInt 1])]) (Some UCX2) None = Ok p
     \<and> length (pl_writes p) + length (pl_confirmed p) = 2 \<and> pl_confirmed p = [chan_path ''output'' 1 ''stereo'']"
proof -
  let ?es = "[Entry (chan_path ''output'' 1 ''stereo'') ''i'' [VInt 1] LINK,
       Entry (chan_path ''playback'' 1 ''stereo'') ''i'' [VInt 1] LINK]"
  let ?obs = "[(chan_path ''output'' 1 ''stereo'', [VInt 1])]"
  have judged: "map_res (judge (Some ?obs) (Some UCX2) None) ?es = Ok [Confirmed, Rewrite REWRITE]"
    by (simp add: judge_def verify_class_links Entry_def link_flag_matches)
  then have p: "make_plan ?es (Some ?obs) (Some UCX2) None = Ok (plan_of (zip ?es [Confirmed, Rewrite REWRITE]))"
    by (simp add: make_plan_def)
  show ?thesis
    using plan_decides_every_entry [OF p] p by (simp add: plan_of_def List.map_filter_def Entry_def)
qed

section \<open>The retention check\<close>

lemma first_problem_None:
  "first_problem f xs = Ok None \<longleftrightarrow> (\<forall>x\<in>set xs. f x = Ok None)"
  by (induction xs) (auto simp: rbind_Ok_iff split: option.splits)

lemma retention_problemE:
  assumes "retention_problem c selected retained confirmed observed = Ok None"
  obtains protected es where "protected_entries c retained confirmed = Ok protected"
    "\<forall>w\<in>set selected. wr_path w \<notin> set protected"
    "\<forall>r\<in>set (cfg_routes c). unconfirmed_links (map wr_path selected) retained confirmed r = Ok None"
    "desired c = Ok es"
    "\<forall>w\<in>set selected. write_problem selected retained confirmed
        (case observed of None \<Rightarrow> [] | Some _ \<Rightarrow> dependency_paths c) (entry_args es)
        (case observed of None \<Rightarrow> [] | Some reports \<Rightarrow> reports) w = Ok None"
  using assms
  by (auto simp: retention_problem_def Let_def rbind_Ok_iff first_problem_None filter_empty_conv split: if_splits option.splits)


lemma three_parts_chan_path:
  assumes "family = ''input'' \<or> family = ''output''" and "option \<noteq> []" and "last option \<noteq> CHR ''/''"
  shows "three_parts (chan_path family ch option) = Some (family, show_int ch, option)"
proof -
  have strip: "strip_slash (chan_path family ch option) = family @ CHR ''/'' # show_int ch @ CHR ''/'' # option"
  proof -
    obtain os o' where "option = os @ [o']" using assms(2) by (metis rev_exhaust)
    then show ?thesis using assms(1,3) by (auto simp: strip_slash_def strip_with_def chan_path_def)
  qed
  have "segments (strip_slash (chan_path family ch option)) = family # show_int ch # segments option"
    using assms(1) split_on_append [of "CHR ''/''" family] split_on_append [of "CHR ''/''" "show_int ch"]
    unfolding strip segments_def by auto
  moreover obtain c cs where "segments option = c # cs" by (cases "segments option") (auto simp: segments_def)
  ultimately show ?thesis
    by (simp add: three_parts_def) (metis join_split segments_def)
qed

lemma write_problem_link:
  assumes "write_problem selected keep known refreshed declarations reports w = Ok None"
    and "family = ''input'' \<or> family = ''output''" and "wr_path w = chan_path family n ''stereo''"
    and "p \<in> set keep"
  shows "\<not> startswith p (chan_path family (pair_left n) [])" and "\<not> startswith p (chan_path family (pair_left n + 1) [])"
  using assms three_parts_chan_path [OF assms(2), of "''stereo''" n]
  by (auto simp: write_problem_def Let_def filter_empty_conv split: if_splits)

definition partner_of :: "int \<Rightarrow> int" where
  "partner_of n = (if n = pair_left n then pair_left n + 1 else pair_left n)"

lemma write_problem_partner:
  assumes "write_problem selected keep known refreshed declarations reports w = Ok None"
    and "family = ''input'' \<or> family = ''output''" and "wr_path w = chan_path family n option"
    and "option \<noteq> []" and "last option \<noteq> CHR ''/''" and "option \<noteq> ''stereo''"
    and "chan_path family (partner_of n) option \<in> set keep"
  shows "proven_mono refreshed known declarations reports (chan_path family (pair_left n) ''stereo'')"
    and "v \<in> set selected \<Longrightarrow> wr_path v = chan_path family (pair_left n) ''stereo'' \<Longrightarrow> \<not> args_eq (wr_args v) [VInt 1]"
  using assms three_parts_chan_path [OF assms(2,4,5), of n]
  by (auto simp: write_problem_def Let_def partner_of_def list_ex_iff split: if_splits)

lemma protected_links_mono:
  "fold_res (protect_links confirmed) rs xs = Ok ys \<Longrightarrow> set xs \<subseteq> set ys"
  by (induction rs arbitrary: xs) (fastforce simp: protect_links_def rbind_Ok_iff)+

lemma protected_mix_collects:
  "fold_res (protect_mix pairs) rs xs = Ok ys \<Longrightarrow> set xs \<subseteq> set ys
     \<and> (\<forall>r\<in>set rs. list_ex (in_pairs pairs) (route_playback r) \<longrightarrow>
          (\<exists>ms. mix_messages r = Ok ms \<and> fst ` set ms \<subseteq> set ys))"
proof (induction rs arbitrary: xs)
  case Nil
  then show ?case by simp
next
  case (Cons r rs)
  then obtain zs where z: "protect_mix pairs r xs = Ok zs" "fold_res (protect_mix pairs) rs zs = Ok ys"
    by (auto simp: rbind_Ok_iff)
  have step: "set xs \<subseteq> set zs \<and> (list_ex (in_pairs pairs) (route_playback r) \<longrightarrow>
      (\<exists>ms. mix_messages r = Ok ms \<and> fst ` set ms \<subseteq> set zs))"
    using z(1) by (auto simp: protect_mix_def rbind_Ok_iff split: if_splits)
  from Cons.IH [OF z(2)] step show ?case unfolding list.set ball_simps by (meson subset_trans)
qed

text \<open>What is protected when a mute is retained.\<close>

lemma protected_entries_retained:
  assumes "protected_entries c retained confirmed = Ok protected"
    and "mute_path ch \<in> set retained" and "1 \<le> ch" and "ch \<le> 20" and "pair_left n = pair_left ch"
  shows "mute_path n \<in> set protected" and "playback_stereo_path n \<in> set protected"
    and "r \<in> set (cfg_routes c) \<Longrightarrow> n \<in> set (route_playback r) \<Longrightarrow> mix_messages r = Ok ms \<Longrightarrow> m \<in> set ms
      \<Longrightarrow> fst m \<in> set protected"
proof -
  let ?pairs = "retained_pairs retained"
  have left: "pair_left ch \<in> set ?pairs"
    using assms(2) retained_pair_mute_path [OF assms(3,4)]
    by (auto simp: retained_pairs_def set_map_filter)
  then have pairs: "?pairs \<noteq> []" by auto
  then obtain xs ys where f: "fold_res (protect_links confirmed) (cfg_routes c)
             (concat (map (\<lambda>left. [mute_path left, mute_path (left + 1)]) ?pairs)
              @ concat (map (\<lambda>left. [playback_stereo_path left, playback_stereo_path (left + 1)]) ?pairs)) = Ok xs"
    "fold_res (protect_mix ?pairs) (cfg_routes c) xs = Ok ys" "protected = sorted_set ys"
    using assms(1) unfolding protected_entries_def Let_def if_not_P [OF pairs] rbind_Ok_iff
    by (elim exE conjE) (simp only: sum.inject)
  have sub: "set xs \<subseteq> set protected" using protected_mix_collects [OF f(2)] f(3) by simp
  have n: "n = pair_left ch \<or> n = pair_left ch + 1" using pair_left_pair [of n] assms(5) by simp
  show "mute_path n \<in> set protected" "playback_stereo_path n \<in> set protected"
    using protected_links_mono [OF f(1)] sub left n by (auto simp: subset_iff)+
  show "fst m \<in> set protected"
    if r: "r \<in> set (cfg_routes c)" "n \<in> set (route_playback r)" "mix_messages r = Ok ms" "m \<in> set ms"
  proof -
    have "list_ex (in_pairs ?pairs) (route_playback r)"
      using r(2) left n by (auto simp: list_ex_iff in_pairs_def)
    then obtain ms' where "mix_messages r = Ok ms'" "fst ` set ms' \<subseteq> set ys"
      using protected_mix_collects [OF f(2)] r(1) by blast
    then show ?thesis using r(3,4) f(3) by auto
  qed
qed

lemma unconfirmed_links_None:
  assumes "unconfirmed_links writes keep known r = Ok None" and "mix_messages r = Ok ms"
    and "m \<in> set ms" and "startswith (fst m) ''/mix/''" and "fst m \<in> set writes"
    and "link_messages r = Ok ls" and "l \<in> set ls" and "fst l \<in> set keep"
  shows "fst l \<in> set known"
  using assms by (auto simp: unconfirmed_links_def list_ex_iff filter_empty_conv Let_def split: if_splits)

text \<open>
  C16. The retention check is sound: a selection of writes it lets pass (i) writes, for a pair
  with a retained playback mute, neither mute flag, nor the pair's link flags, nor any message of
  a route fed by the pair; (ii) writes a matrix cell of a route only when every retained link of
  the route is confirmed; (iii) writes a link flag of an input or output pair only when nothing of
  either channel is retained; (iv) writes a setting whose pair partner retains the same setting
  only when the pair is proven unlinked and the selection does not link it.
\<close>

theorem retention_sound:
  assumes "retention_problem c selected retained confirmed observed = Ok None" and "w \<in> set selected"
  shows "(\<forall>ch n. mute_path ch \<in> set retained \<and> 1 \<le> ch \<and> ch \<le> 20 \<and> pair_left n = pair_left ch \<longrightarrow>
        wr_path w \<noteq> mute_path n \<and> wr_path w \<noteq> playback_stereo_path n
        \<and> (\<forall>r\<in>set (cfg_routes c). n \<in> set (route_playback r) \<longrightarrow>
             (\<forall>ms. mix_messages r = Ok ms \<longrightarrow> wr_path w \<notin> fst ` set ms)))
    \<and> (\<forall>r\<in>set (cfg_routes c). \<forall>ms ls l. mix_messages r = Ok ms \<and> wr_path w \<in> fst ` set ms
        \<and> startswith (wr_path w) ''/mix/'' \<and> link_messages r = Ok ls \<and> l \<in> set ls \<and> fst l \<in> set retained
        \<longrightarrow> fst l \<in> set confirmed)
    \<and> (\<forall>family\<in>{''input'', ''output''}. \<forall>n. wr_path w = chan_path family n ''stereo'' \<longrightarrow>
        (\<forall>p\<in>set retained. \<not> startswith p (chan_path family (pair_left n) [])
           \<and> \<not> startswith p (chan_path family (pair_left n + 1) [])))
    \<and> (\<exists>es. desired c = Ok es \<and> (\<forall>family\<in>{''input'', ''output''}. \<forall>n option.
        wr_path w = chan_path family n option \<and> option \<noteq> [] \<and> last option \<noteq> CHR ''/'' \<and> option \<noteq> ''stereo''
        \<and> chan_path family (partner_of n) option \<in> set retained \<longrightarrow>
        proven_mono (case observed of None \<Rightarrow> [] | Some _ \<Rightarrow> dependency_paths c) confirmed (entry_args es)
          (case observed of None \<Rightarrow> [] | Some reports \<Rightarrow> reports) (chan_path family (pair_left n) ''stereo'')
        \<and> (\<forall>v\<in>set selected. wr_path v = chan_path family (pair_left n) ''stereo'' \<longrightarrow> \<not> args_eq (wr_args v) [VInt 1])))"
proof -
  obtain protected es where p: "protected_entries c retained confirmed = Ok protected"
    "\<forall>w\<in>set selected. wr_path w \<notin> set protected"
    "\<forall>r\<in>set (cfg_routes c). unconfirmed_links (map wr_path selected) retained confirmed r = Ok None"
    "desired c = Ok es"
    "\<forall>w\<in>set selected. write_problem selected retained confirmed
        (case observed of None \<Rightarrow> [] | Some _ \<Rightarrow> dependency_paths c) (entry_args es)
        (case observed of None \<Rightarrow> [] | Some reports \<Rightarrow> reports) w = Ok None"
    using assms(1) by (rule retention_problemE)
  have out: "wr_path w \<notin> set protected" and path: "wr_path w \<in> set (map wr_path selected)"
    using p(2) assms(2) by auto
  have mute: "wr_path w \<noteq> mute_path n \<and> wr_path w \<noteq> playback_stereo_path n
        \<and> (\<forall>r\<in>set (cfg_routes c). n \<in> set (route_playback r) \<longrightarrow>
             (\<forall>ms. mix_messages r = Ok ms \<longrightarrow> wr_path w \<notin> fst ` set ms))"
    if "mute_path ch \<in> set retained \<and> 1 \<le> ch \<and> ch \<le> 20 \<and> pair_left n = pair_left ch" for ch n
  proof (intro conjI ballI impI allI)
    note kept = protected_entries_retained [OF p(1), of ch n]
    show "wr_path w \<noteq> mute_path n" using kept(1) that out by metis
    show "wr_path w \<noteq> playback_stereo_path n" using kept(2) that out by metis
    show "wr_path w \<notin> fst ` set ms"
      if "r \<in> set (cfg_routes c)" "n \<in> set (route_playback r)" "mix_messages r = Ok ms" for r ms
    proof
      assume "wr_path w \<in> fst ` set ms"
      then obtain m where "m \<in> set ms" "wr_path w = fst m" by (rule imageE)
      with kept(3) [OF _ _ _ _ that] out \<open>mute_path ch \<in> set retained \<and> _\<close> show False by simp
    qed
  qed
  have link: "fst l \<in> set confirmed"
    if r: "r \<in> set (cfg_routes c)" and l: "mix_messages r = Ok ms \<and> wr_path w \<in> fst ` set ms
        \<and> startswith (wr_path w) ''/mix/'' \<and> link_messages r = Ok ls \<and> l \<in> set ls \<and> fst l \<in> set retained" for r ms ls l
  proof -
    obtain m where "m \<in> set ms" "wr_path w = fst m" using l by (elim conjE imageE)
    with l path show ?thesis
      by (intro unconfirmed_links_None [OF p(3)[rule_format, OF r], of ms m ls]) simp_all
  qed
  note problem = p(5)[rule_format, OF assms(2)]
  have partner: "proven_mono (case observed of None \<Rightarrow> [] | Some _ \<Rightarrow> dependency_paths c) confirmed (entry_args es)
          (case observed of None \<Rightarrow> [] | Some reports \<Rightarrow> reports) (chan_path family (pair_left n) ''stereo'')"
      "v \<in> set selected \<Longrightarrow> wr_path v = chan_path family (pair_left n) ''stereo'' \<Longrightarrow> \<not> args_eq (wr_args v) [VInt 1]"
    if f: "family \<in> {''input'', ''output''}" and w: "wr_path w = chan_path family n option" "option \<noteq> []"
      "last option \<noteq> CHR ''/''" "option \<noteq> ''stereo''" "chan_path family (partner_of n) option \<in> set retained"
    for family n option v
  proof -
    have "family = ''input'' \<or> family = ''output''" using f by blast
    note rules = write_problem_partner [OF problem this w]
    show "proven_mono (case observed of None \<Rightarrow> [] | Some _ \<Rightarrow> dependency_paths c) confirmed (entry_args es)
          (case observed of None \<Rightarrow> [] | Some reports \<Rightarrow> reports) (chan_path family (pair_left n) ''stereo'')"
      by (rule rules(1))
    show "\<not> args_eq (wr_args v) [VInt 1]"
      if "v \<in> set selected" "wr_path v = chan_path family (pair_left n) ''stereo''"
      using that by (rule rules(2))
  qed
  show ?thesis
  proof (intro conjI)
    show "\<forall>family\<in>{''input'', ''output''}. \<forall>n. wr_path w = chan_path family n ''stereo'' \<longrightarrow>
        (\<forall>p\<in>set retained. \<not> startswith p (chan_path family (pair_left n) [])
           \<and> \<not> startswith p (chan_path family (pair_left n + 1) []))"
      using write_problem_link [OF problem] by blast
    show "\<exists>es. desired c = Ok es \<and> (\<forall>family\<in>{''input'', ''output''}. \<forall>n option.
        wr_path w = chan_path family n option \<and> option \<noteq> [] \<and> last option \<noteq> CHR ''/'' \<and> option \<noteq> ''stereo''
        \<and> chan_path family (partner_of n) option \<in> set retained \<longrightarrow>
        proven_mono (case observed of None \<Rightarrow> [] | Some _ \<Rightarrow> dependency_paths c) confirmed (entry_args es)
          (case observed of None \<Rightarrow> [] | Some reports \<Rightarrow> reports) (chan_path family (pair_left n) ''stereo'')
        \<and> (\<forall>v\<in>set selected. wr_path v = chan_path family (pair_left n) ''stereo'' \<longrightarrow> \<not> args_eq (wr_args v) [VInt 1]))"
      by (intro exI [of _ es] conjI p(4) ballI allI impI; elim conjE) (rule partner; assumption)+
  qed (use mute link in blast)+
qed


text \<open>One gain of an unlinked pair may change while the other is retained.\<close>

definition gain_write :: reg_write where
  "gain_write = \<lparr>wr_path = gain_path 1, wr_tags = ''f'', wr_args = [VFloat (Fin 0)], wr_phase = CHANNEL, wr_reason = UNCONDITIONAL\<rparr>"

lemma retained_pair_gain: "retained_pair (gain_path 2) = None"
proof -
  have "strip_slash (gain_path 2) = ''input'' @ CHR ''/'' # show_int 2 @ ''/gain''"
    by (simp add: gain_path_def strip_slash_def strip_with_def chan_path_def)
  then have "segments (strip_slash (gain_path 2)) = [''input'', show_int 2, ''gain'']"
    using split_on_append [of "CHR ''/''" "''input''"] split_on_append [of "CHR ''/''" "show_int 2"]
    by (simp add: segments_def)
  then show ?thesis by (simp add: retained_pair_def)
qed

lemma gain_write_passes:
  "retention_problem demo_config [gain_write] [gain_path 2] [] (Some [(input_link 1, (''i'', [VInt 0]))]) = Ok None"
proof -
  have pairs: "retained_pairs [gain_path 2] = []"
    by (simp add: retained_pairs_def List.map_filter_def retained_pair_gain)
  have links: "unconfirmed_links [gain_path 1] [gain_path 2] [] main_route = Ok None"
    by (simp add: unconfirmed_links_def main_messages gain_path_def mix_not_chan chan_path_inject)
  have parts: "three_parts (gain_path 1) = Some (''input'', show_int 1, ''gain'')"
    unfolding gain_path_def by (rule three_parts_chan_path) simp_all
  note parts = parts [unfolded gain_path_def]
  have "write_problem [gain_write] [gain_path 2] [] (dependency_paths demo_config) ds
     [(input_link 1, (''i'', [VInt 0]))] gain_write = Ok None" for ds
    by (simp add: write_problem_def gain_write_def parts pair_left_def proven_mono_def input_link_def
        flag_value_def gain_path_def chan_path_inject Let_def)
  then show ?thesis
    by (simp add: retention_problem_def protected_entries_def pairs demo_desired)
      (simp add: gain_write_def links)
qed

lemma retention_sound_witness:
  "wr_path gain_write \<noteq> input_link 1 \<and> (\<exists>es. desired demo_config = Ok es
     \<and> proven_mono (dependency_paths demo_config) [] (entry_args es) [(input_link 1, (''i'', [VInt 0]))] (input_link 1))"
proof -
  obtain es where es: "desired demo_config = Ok es" "\<forall>family\<in>{''input'', ''output''}. \<forall>n option.
        wr_path gain_write = chan_path family n option \<and> option \<noteq> [] \<and> last option \<noteq> CHR ''/'' \<and> option \<noteq> ''stereo''
        \<and> chan_path family (partner_of n) option \<in> set [gain_path 2] \<longrightarrow>
        proven_mono (case Some [(input_link 1, (''i'', [VInt 0]))] of None \<Rightarrow> [] | Some _ \<Rightarrow> dependency_paths demo_config) []
          (entry_args es) (case Some [(input_link 1, (''i'', [VInt 0]))] of None \<Rightarrow> [] | Some reports \<Rightarrow> reports)
          (chan_path family (pair_left n) ''stereo'')
        \<and> (\<forall>v\<in>set [gain_write]. wr_path v = chan_path family (pair_left n) ''stereo'' \<longrightarrow> \<not> args_eq (wr_args v) [VInt 1])"
    using retention_sound [OF gain_write_passes list.set_intros(1), THEN conjunct2, THEN conjunct2, THEN conjunct2]
    by (elim exE conjE)
  have gain: "wr_path gain_write = chan_path ''input'' 1 ''gain'' \<and> ''gain'' \<noteq> [] \<and> last ''gain'' \<noteq> CHR ''/''
    \<and> ''gain'' \<noteq> ''stereo'' \<and> chan_path ''input'' (partner_of 1) ''gain'' \<in> set [gain_path 2]"
    by (simp add: gain_write_def gain_path_def partner_of_def pair_left_def)
  have link: "chan_path ''input'' (pair_left 1) ''stereo'' = input_link 1"
    by (simp add: input_link_def pair_left_def)
  have "wr_path gain_write \<noteq> input_link 1"
    by (simp add: gain_write_def gain_path_def input_link_def chan_path_inject)
  then show ?thesis
    using es(1) es(2)[rule_format, of "''input''", OF _ gain] unfolding link option.case by blast
qed

end
