(* ===== verification/Routing.thy ===== *)
theory Routing
  imports Prechecks Connection Release Retention
begin

text \<open>
  \<^verbatim>\<open>routing.py\<close>: applying a plan phase by phase over one connection. Links first, then the barrier
  that waits for the device to report them, then the matrix and the channel state; a failure
  anywhere becomes one \<open>WriteFailed\<close> for the whole apply. The barrier's timeout is the default of
  \<open>OSCMIX_LINK_TIMEOUT\<close>.
\<close>

definition LINK_ECHO_TIMEOUT :: rat where "LINK_ECHO_TIMEOUT = 3 / 2"

section \<open>Waiting\<close>

lemma wait_loop_reaches: "wait_loop d w = (Ok x, v) \<Longrightarrow> d \<le> now v"
proof (induction d w arbitrary: x v rule: wait_loop.induct)
  case (1 d w)
  from 1(3) obtain y u where h: "heartbeat w = (Ok y, u)"
    and go: "(if d - now u \<le> 0 then give () u
      else bind (receive (min (1 / 4) (d - now u))) (\<lambda>f u. case f of None \<Rightarrow> wait_loop d u
        | Some fr \<Rightarrow> bind (event fr) (\<lambda>_ t. wait_loop d t) u) u) = (Ok x, v)"
    by (subst (asm) wait_loop.simps) (elim bind_returned)
  show ?case
  proof (cases "d - now u \<le> 0")
    case True
    with go show ?thesis by (auto simp: run_simps)
  next
    case False
    with go obtain f t where r: "receive (min (1 / 4) (d - now u)) u = (Ok f, t)"
      and go': "(case f of None \<Rightarrow> wait_loop d t | Some fr \<Rightarrow> bind (event fr) (\<lambda>_ t. wait_loop d t) t) = (Ok x, v)"
      by (auto elim: bind_returned)
    show ?thesis
    proof (cases f)
      case None
      with go' 1(1) [OF h False r None] show ?thesis by simp
    next
      case (Some fr)
      with go' obtain z s where "event fr t = (Ok z, s)" "wait_loop d s = (Ok x, v)"
        by (auto elim: bind_returned)
      then show ?thesis by (rule 1(2) [OF h False r Some])
    qed
  qed
qed

lemma should_stop_same:
  "should_stop w = (r, v) \<Longrightarrow> inbox v = inbox w \<and> control v = control w \<and> now v = now w"
  by (auto simp: should_stop_def split: list.splits)

lemma ticks_short:
  "now w + min t (d - now w) \<le> now v \<Longrightarrow> 1 / 1000 \<le> t \<Longrightarrow> 0 < d - now w \<Longrightarrow> ticks d v < ticks d w"
proof (cases "d - now w \<le> t")
  case True
  assume "now w + min t (d - now w) \<le> now v" "0 < d - now w"
  with True have "ticks d v = 0" "0 < ticks d w" by (simp_all add: ticks_def)
  then show ?thesis by simp
next
  case False
  assume "now w + min t (d - now w) \<le> now v" "1 / 1000 \<le> t" "0 < d - now w"
  with False show ?thesis by (intro ticks_pass) auto
qed

text \<open>\<open>wait_unless_stopped\<close> on a connection: True when a stop was asked for.\<close>

function stoppable_wait :: "rat \<Rightarrow> 'x world \<Rightarrow> bool res \<times> 'x world" where
  "stoppable_wait deadline w = bind should_stop (\<lambda>s v.
     if s then give True v
     else if deadline - now v \<le> 0 then give False v
     else bind (wait_for (min (1 / 10) (deadline - now v))) (\<lambda>_ u. stoppable_wait deadline u) v) w"
  by pat_completeness auto
termination
proof (relation "measure (\<lambda>(d, w). ticks d w)")
  fix deadline x y and w v u :: "'x world"
  assume s: "should_stop w = (Ok x, v)" and d: "\<not> deadline - now v \<le> 0"
    and r: "wait_for (min (1 / 10) (deadline - now v)) v = (Ok y, u)"
  have "now v + min (1 / 10) (deadline - now v) \<le> now u"
    using r wait_loop_reaches unfolding wait_for_def by blast
  then have "ticks deadline u < ticks deadline v" using d by (intro ticks_short [where t = "1 / 10"]) simp_all
  then show "((deadline, u), deadline, w) \<in> measure (\<lambda>(d, w). ticks d w)"
    using should_stop_same [OF s] by (simp add: ticks_def)
qed simp

declare stoppable_wait.simps [simp del]

definition wait_unless_stopped :: "rat \<Rightarrow> ('x world, bool) action" where
  "wait_unless_stopped seconds w = stoppable_wait (now w + seconds) w"

section \<open>The link barrier\<close>

datatype link_echo = CONFIRMED | SILENT | CONTRADICTED | CANCELLED

text \<open>The loop of \<open>await_link_echo\<close>; None when a stop ended it.\<close>

function echo_loop :: "rat \<Rightarrow> window \<Rightarrow> 'x world \<Rightarrow> window option res \<times> 'x world" where
  "echo_loop deadline seen w =
     (if complete seen then give (Some seen) w
      else bind should_stop (\<lambda>s v.
        if s then give None v
        else if deadline - now v \<le> 0 then give (Some seen) v
        else bind (messages (min (1 / 4) (deadline - now v))) (\<lambda>reports. bind (lift (absorb_all reports seen))
          (\<lambda>more u. echo_loop deadline more u)) v) w)"
  by pat_completeness auto
termination
proof (relation "inv_image (measures [\<lambda>(d, w). length (inbox w), \<lambda>(d, w). length (ct_queue (control w)),
    \<lambda>(d, w). ticks d w]) (\<lambda>(d, o', w). (d, w))")
  fix deadline seen x ms z and w v u t :: "'x world"
  assume s: "should_stop w = (Ok x, v)" and d: "\<not> deadline - now v \<le> 0"
    and m: "messages (min (1 / 4) (deadline - now v)) v = (Ok ms, u)" and l: "lift (absorb_all ms seen) u = (Ok z, t)"
  have "(u, v) \<in> reading deadline"
    using d by (intro messages_reading [OF m]) (auto simp: min_def)
  then show "((deadline, z, t), deadline, seen, w) \<in> inv_image
      (measures [\<lambda>(d, w). length (inbox w), \<lambda>(d, w). length (ct_queue (control w)), \<lambda>(d, w). ticks d w]) (\<lambda>(d, o', w). (d, w))"
    using should_stop_same [OF s] lift_same [OF l] by (simp add: reading_def ticks_def)
qed simp

declare echo_loop.simps [simp del]

definition await_link_echo :: "(string \<times> int) list \<Rightarrow> rat \<Rightarrow> ('x world, link_echo) action" where
  "await_link_echo expected timeout = bind should_stop (\<lambda>s.
     if s then give CANCELLED
     else if expected = [] then give CONFIRMED
     else bind (\<lambda>w. echo_loop (now w + timeout) (Observation (link_reports expected) None [] []) w) (\<lambda>ended.
       case ended of None \<Rightarrow> give CANCELLED
       | Some seen \<Rightarrow> bind should_stop (\<lambda>s.
           if s then give CANCELLED
           else if ob_mismatched seen \<noteq> {} then give CONTRADICTED
           else if complete seen then give CONFIRMED else give SILENT)))"

text \<open>\<open>_cross_the_barrier\<close>: confirm, settle for silence, or refuse the dependent writes.\<close>

definition cross_the_barrier :: "(string \<times> int) list \<Rightarrow> string list \<Rightarrow> ('x world, unit) action" where
  "cross_the_barrier expected require_confirmation = bind (field ct_traits) (\<lambda>traits.
     if reports_link_state_on_write traits \<and> require_confirmation = [] then give ()
     else bind (await_link_echo expected LINK_ECHO_TIMEOUT) (\<lambda>echoed.
       if echoed = CANCELLED \<or> echoed = CONTRADICTED then fail (OSErr None)
       else if require_confirmation \<noteq> [] \<and> echoed \<noteq> CONFIRMED then fail (OSErr None)
       else give ()))"

definition output_link_state :: "route list \<Rightarrow> (string \<times> int) list res" where
  "output_link_state routes = fold_res (\<lambda>r state. rbind (link_messages r) (\<lambda>ms.
     fold_res (\<lambda>(path, _, args) state.
       if startswith path ''/output/'' then rbind (to_int (hd args)) (\<lambda>v. Ok (dset path v state)) else Ok state) ms state))
     routes []"

section \<open>Sending a plan in order\<close>

text \<open>What stays the same during one apply.\<close>

record apply_context =
  ap_config :: config
  ap_wanted :: plan
  ap_require :: "string list"
  ap_intent :: intent
  ap_retained :: "string list"
  ap_confirmed :: "string list"

definition autoset_off :: "plan \<Rightarrow> reg_write list" where
  "autoset_off p = filter (\<lambda>w. endswith (wr_path w) ''/autoset'' \<and> args_eq (wr_args w) [VInt 0]) (plan_channel p)"

definition expected_echoes :: "apply_context \<Rightarrow> (string \<times> int) list res" where
  "expected_echoes a = fold_res (\<lambda>w echoes.
     if startswith (wr_path w) ''/output/'' \<or> wr_path w \<in> set (ap_require a)
     then rbind (to_int (hd (wr_args w))) (\<lambda>v. Ok (dset (wr_path w) v echoes)) else Ok echoes)
     (plan_links (ap_wanted a)) []"

definition phase_burst :: "plan \<Rightarrow> phase \<Rightarrow> reg_write list" where
  "phase_burst p ph = filter (\<lambda>w. wr_phase w = ph) (pl_writes p)"

definition require_for :: "apply_context \<Rightarrow> reg_write list \<Rightarrow> reports \<Rightarrow> ('x world, unit) action" where
  "require_for a selected latest =
     require_gain_ownership (ap_config a) selected latest (ap_intent a) (ap_retained a) (ap_confirmed a)"

definition reread :: "apply_context \<Rightarrow> (string \<times> int) list \<Rightarrow> ('x world, reports) action" where
  "reread a links = read_dependencies (dependency_paths (ap_config a)) links all_reported"

text \<open>The checks before a phase's burst; the reports the later phases judge by.\<close>

definition before_links :: "apply_context \<Rightarrow> reg_write list \<Rightarrow> reports \<Rightarrow> ('x world, reports) action" where
  "before_links a remaining latest =
     (if autoset_off (ap_wanted a) = [] then give latest
      else bind (reread a []) (\<lambda>fresh. bind (require_for a remaining fresh) (\<lambda>_. give fresh)))"

definition before_mix :: "apply_context \<Rightarrow> (string \<times> int) list \<Rightarrow> reg_write list \<Rightarrow> reports \<Rightarrow> ('x world, reports) action" where
  "before_mix a echoes burst latest =
     bind (if echoes \<noteq> [] \<or> ap_require a \<noteq> [] then cross_the_barrier echoes (ap_require a) else give ()) (\<lambda>_.
     bind (lift (input_link_expectations (ap_config a) burst)) (\<lambda>needed.
     bind (if needed \<noteq> [] \<and> plan_links (ap_wanted a) \<noteq> [] then reread a needed else give latest) (\<lambda>fresh.
     bind (require_for a burst fresh) (\<lambda>_. give fresh))))"

definition before_channels :: "apply_context \<Rightarrow> reg_write list \<Rightarrow> reports \<Rightarrow> ('x world, reports) action" where
  "before_channels a burst latest =
     bind (if list_ex (\<lambda>w. startswith (wr_path w) ''/input/'') (plan_links (ap_wanted a))
           then bind (lift (input_link_expectations (ap_config a) (plan_mix (ap_wanted a)))) (\<lambda>needed.
             if needed = [] then reread a [] else give latest)
           else give latest) (\<lambda>fresh.
     bind (require_for a burst fresh) (\<lambda>_. give fresh))"

definition phase_checks ::
    "apply_context \<Rightarrow> (string \<times> int) list \<Rightarrow> phase \<Rightarrow> reg_write list \<Rightarrow> reg_write list \<Rightarrow> reports \<Rightarrow> ('x world, reports) action" where
  "phase_checks a echoes ph burst after latest =
     (if ph = LINK then before_links a (burst @ after) latest
      else if ph = MIX \<and> burst \<noteq> [] then before_mix a echoes burst latest
      else if ph = CHANNEL \<and> burst \<noteq> [] then before_channels a burst latest
      else give latest)"

definition phase_step ::
    "apply_context \<Rightarrow> (string \<times> int) list \<Rightarrow> phase \<Rightarrow> reg_write list \<Rightarrow> reg_write list \<Rightarrow> reports \<Rightarrow> playback_state option
       \<Rightarrow> (desk_world, reports \<times> playback_state option) action" where
  "phase_step a echoes ph burst after latest guard =
     bind (phase_checks a echoes ph burst after latest) (\<lambda>fresh.
     if burst = [] then give (fresh, guard)
     else bind (guard_check (ap_config a) guard) (\<lambda>state.
       bind (send_messages (map write_message burst)) (\<lambda>_. give (fresh, state))))"

text \<open>A failure is reported for the whole apply: earlier phases are written, later ones are not.\<close>

definition phase_failed :: "string list \<Rightarrow> string list \<Rightarrow> string list \<Rightarrow> exc \<Rightarrow> exc" where
  "phase_failed before burst after e = (case e of
       WriteFailed n wr un \<Rightarrow> WriteFailed n (before @ wr) (un @ after)
     | _ \<Rightarrow> WriteFailed (errno_of e) before (burst @ after))"

fun run_phases ::
    "apply_context \<Rightarrow> (string \<times> int) list \<Rightarrow> phase list \<Rightarrow> string list \<Rightarrow> reports \<Rightarrow> playback_state option
       \<Rightarrow> (desk_world, unit) action" where
  "run_phases a echoes [] before latest guard = give ()"
| "run_phases a echoes (ph # phs) before latest guard =
     (let burst = phase_burst (ap_wanted a) ph;
          after = concat (map (phase_burst (ap_wanted a)) phs);
          paths = map wr_path burst; later_paths = map wr_path after in
      if burst = [] \<and> after = [] then give ()
      else bind should_stop (\<lambda>s.
        if s then fail (WriteFailed None before (paths @ later_paths))
        else bind (attempt is_os_error (phase_step a echoes ph burst after latest guard)
               (\<lambda>e. fail (phase_failed before paths later_paths e))) (\<lambda>(fresh, state).
          run_phases a echoes phs (before @ paths) fresh state)))"

definition all_phases :: "phase list" where
  "all_phases = [PLAYBACK_MUTE_ON, AUTOSET_OFF, LINK, MIX, CHANNEL, AUTOSET_ON, PLAYBACK_MUTE_OFF]"

definition send_in_order :: "apply_context \<Rightarrow> reports \<Rightarrow> (desk_world, unit) action" where
  "send_in_order a latest = bind (lift (expected_echoes a)) (\<lambda>echoes. run_phases a echoes all_phases [] latest None)"

section \<open>Applying\<close>

text \<open>What an apply may skip because the device already has it, and what it knows confirmed then.\<close>

definition stable_links :: "config \<Rightarrow> intent \<Rightarrow> reports \<Rightarrow> string list res" where
  "stable_links c intent latest =
     (if preserves_remember intent \<or> retained_gains c latest [] False = [] then Ok []
      else rbind (application_plan c intent [] [] []) (\<lambda>p.
        Ok (map wr_path (filter (\<lambda>w. startswith (wr_path w) ''/input/''
          \<and> (case flag_value (dget latest (wr_path w)) of None \<Rightarrow> False | Some n \<Rightarrow> py_eq (VInt n) (hd (wr_args w)))) (plan_links p)))))"

definition kept_paths :: "config \<Rightarrow> intent \<Rightarrow> string list \<Rightarrow> string list \<Rightarrow> reports \<Rightarrow> string list res" where
  "kept_paths c intent leave_alone confirmed latest =
     (if \<not> preserves_remember intent then Ok []
      else rbind (application_plan c intent leave_alone confirmed latest) (\<lambda>p.
        remembered_paths c latest (map wr_path (filter (\<lambda>w. args_eq (wr_args w) [VInt 1]) (plan_links p)))))"

definition refuse_plan :: "plan \<Rightarrow> ('x world, 'a) action" where
  "refuse_plan p = fail (WriteFailed None [] (map wr_path (pl_writes p)))"

text \<open>The plan and what it retains and relies on, or a refusal; nothing is written here.\<close>

definition prepare_apply ::
    "config \<Rightarrow> string list \<Rightarrow> string list \<Rightarrow> intent \<Rightarrow> string list \<Rightarrow> reports option
       \<Rightarrow> (desk_world, apply_context \<times> reports) action" where
  "prepare_apply c leave_alone require intent confirmed observed =
     bind (lift (application_plan c intent leave_alone confirmed (case observed of None \<Rightarrow> [] | Some o' \<Rightarrow> o'))) (\<lambda>_.
     bind (case observed of Some o' \<Rightarrow> give o' | None \<Rightarrow> read_dependencies (dependency_paths c) [] all_reported) (\<lambda>latest.
     bind (lift (stable_links c intent latest)) (\<lambda>stable.
     bind (lift (kept_paths c intent leave_alone (confirmed @ stable) latest)) (\<lambda>kept.
     let skip = sorted_set (leave_alone @ stable @ kept); confirmed' = confirmed @ stable in
     bind (lift (application_plan c intent skip confirmed' latest)) (\<lambda>wanted.
     bind (lift (retention_problem c (pl_writes wanted) skip confirmed' (Some latest))) (\<lambda>problem.
     if problem \<noteq> None then refuse_plan wanted
     else bind (if autoset_off wanted \<noteq> [] then give None
                else lift (gain_problem c (pl_writes wanted) latest intent skip confirmed')) (\<lambda>gain.
     if gain \<noteq> None then refuse_plan wanted
     else bind (within_dsp_limits c wanted latest intent) (\<lambda>limited.
       give (\<lparr>ap_config = c, ap_wanted = limited, ap_require = require, ap_intent = intent, ap_retained = skip,
              ap_confirmed = confirmed'\<rparr>, latest)))))))))"

definition apply_routing ::
    "config \<Rightarrow> string list \<Rightarrow> string list \<Rightarrow> intent \<Rightarrow> string list \<Rightarrow> reports option \<Rightarrow> (desk_world, unit) action" where
  "apply_routing c leave_alone require intent confirmed observed =
     bind (prepare_apply c leave_alone require intent confirmed observed) (\<lambda>(a, latest).
       send_quietly c (ap_wanted a) intent latest volume_reader (\<lambda>p. send_in_order (a\<lparr>ap_wanted := p\<rparr>) latest))"

definition send_mix :: "config \<Rightarrow> string list \<Rightarrow> reports option \<Rightarrow> (desk_world, unit) action" where
  "send_mix c confirmed observed = (let seen = (case observed of None \<Rightarrow> [] | Some o' \<Rightarrow> o') in
     bind (lift (matrix_repair_plan c confirmed seen)) (\<lambda>wanted.
     bind (lift (remembered_paths c seen [])) (\<lambda>retained.
     bind (lift (retention_problem c (pl_writes wanted) retained confirmed observed)) (\<lambda>problem.
     if problem \<noteq> None then refuse_plan wanted
     else if list_ex (\<lambda>w. wr_phase w = PLAYBACK_MUTE_ON \<or> wr_phase w = PLAYBACK_MUTE_OFF) (pl_writes wanted)
     then bind (case observed of Some o' \<Rightarrow> give o' | None \<Rightarrow> read_dependencies (dependency_paths c) [] all_reported) (\<lambda>latest.
       bind (lift (gain_problem c (pl_writes wanted) latest REPAIR retained confirmed)) (\<lambda>gain.
       if gain \<noteq> None then refuse_plan wanted
       else send_in_order \<lparr>ap_config = c, ap_wanted = wanted, ap_require = [], ap_intent = REPAIR,
              ap_retained = retained, ap_confirmed = confirmed\<rparr> latest))
     else bind (guard_check c None) (\<lambda>_. send_messages (map write_message (plan_mix wanted)))))))"

end
