(* ===== verification/Raising.thy ===== *)
theory Raising
  imports Routing
begin

text \<open>
  What the parts of an apply can raise. Planning, comparing and judging are pure and raise no
  OSError; reading the connection, the stop check and the playback guard raise OSErrors but never a
  \<open>WriteFailed\<close>, which therefore only a burst of writes or a refusal raises. The accounting of a
  failed apply rests on this.
\<close>

named_theorems calm_rules \<open>computations that raise no OSError\<close>

section \<open>Pure computations\<close>

definition calm :: "'a res \<Rightarrow> bool" where
  "calm r \<longleftrightarrow> (\<forall>e. r = Raise e \<longrightarrow> \<not> is_os_error e)"

lemma other_errors [simp]: "\<not> is_os_error IndexError" "\<not> is_os_error KeyError" "\<not> is_os_error ZeroDivisionError"
  "\<not> is_os_error DeviceAmbiguous"
  by (simp_all add: is_os_error_def)

lemma calm_Ok [calm_rules]: "calm (Ok x)"
  by (simp add: calm_def)

lemma calm_Raise [calm_rules]: "\<not> is_os_error e \<Longrightarrow> calm (Raise e)"
  by (simp add: calm_def)

lemma calm_rbind [calm_rules]: "calm m \<Longrightarrow> (\<And>x. calm (f x)) \<Longrightarrow> calm (rbind m f)"
  by (cases m) (auto simp: calm_def)

lemma calm_check [calm_rules]: "\<not> is_os_error e \<Longrightarrow> calm (check b e)"
  by (cases b) (simp_all add: calm_def)

lemma calm_if [calm_rules]: "calm m \<Longrightarrow> calm n \<Longrightarrow> calm (if b then m else n)"
  by simp

lemma calm_option [calm_rules]: "calm m \<Longrightarrow> (\<And>x. calm (f x)) \<Longrightarrow> calm (case opt of None \<Rightarrow> m | Some x \<Rightarrow> f x)"
  by (cases opt) simp_all

lemma calm_list [calm_rules]:
  "calm m \<Longrightarrow> (\<And>x ys. calm (f x ys)) \<Longrightarrow> calm (case xs of [] \<Rightarrow> m | x # ys \<Rightarrow> f x ys)"
  by (cases xs) simp_all

lemma calm_prod [calm_rules]: "(\<And>x y. calm (f x y)) \<Longrightarrow> calm (case p of (x, y) \<Rightarrow> f x y)"
  by (cases p) simp

lemma calm_map_res [calm_rules]: "(\<And>x. calm (f x)) \<Longrightarrow> calm (map_res f xs)"
  by (induction xs) (auto intro!: calm_rules)

lemma calm_fold_res [calm_rules]: "(\<And>x s. calm (f x s)) \<Longrightarrow> calm (fold_res f xs s)"
  by (induction xs arbitrary: s) (auto intro!: calm_rules)

lemma calm_catching [calm_rules]: "calm m \<Longrightarrow> \<not> is_os_error e \<Longrightarrow> calm (catching es e m)"
  by (cases m) (auto simp: calm_def catching_def)

lemma calm_float_of_int [calm_rules]: "calm (float_of_int i)"
  by (simp add: float_of_int_def calm_def split: fl.splits)

lemma calm_py_finite [calm_rules]: "calm (py_finite v)"
  by (cases v rule: py_finite.cases) (auto simp: calm_def split: sum.splits fl.splits)

lemma calm_py_float [calm_rules]: "calm (py_float v)"
  by (cases v) (simp_all add: calm_rules)

lemma calm_to_int [calm_rules]: "calm (to_int v)"
  by (cases v rule: to_int.cases) (simp_all add: calm_def split: option.splits)

lemma calm_py_integer [calm_rules]: "calm (py_integer v)"
  unfolding py_integer_def by (intro calm_rules) simp

lemma calm_float32 [calm_rules]: "calm (float32 v)"
  unfolding float32_def by (intro calm_rules) (auto simp: calm_def split: sum.splits fl.splits)

lemma calm_raw_unchecked [calm_rules]: "calm (raw_unchecked v r)"
  unfolding raw_unchecked_def 
  by (auto intro!: calm_rules)

lemma calm_raw_value [calm_rules]: "calm (raw_value v r)"
  unfolding raw_value_def 
  by (auto intro!: calm_rules)

lemma calm_report_of_raw [calm_rules]: "calm (report_of_raw n r)"
  unfolding report_of_raw_def 
  by (auto intro!: calm_rules)

lemma calm_expected_report [calm_rules]: "calm (expected_report v r)"
  unfolding expected_report_def 
  by (auto intro!: calm_rules)

lemma calm_limit_of [calm_rules]: "calm (limit_of l p r b)"
  unfolding limit_of_def 
  by (auto intro!: calm_rules)

lemma calm_within_bound [calm_rules]: "calm (within_bound l p r q)"
  unfolding within_bound_def 
  by (auto intro!: calm_rules)

lemma calm_number_value [calm_rules]: "calm (number_value v r b)"
  unfolding number_value_def 
  by (auto intro!: calm_rules)

lemma calm_compare_plain [calm_rules]: "calm (compare_plain a b t)"
  unfolding compare_plain_def 
  by (auto intro!: calm_rules)

lemma calm_equal_float [calm_rules]: "calm (equal_float v w r t)"
  unfolding equal_float_def 
  by (auto intro!: calm_rules)

lemma calm_report_value [calm_rules]: "calm (report_value v r)"
  unfolding report_value_def 
  by (auto intro!: calm_rules)

lemma calm_checked_pan [calm_rules]: "calm (checked_pan r)"
  unfolding checked_pan_def Let_def
  by (auto intro!: calm_rules)

lemma calm_link_requirements [calm_rules]: "calm (link_requirements r)"
  unfolding link_requirements_def 
  by (auto intro!: calm_rules)

lemma calm_add_link [calm_rules]: "\<not> is_os_error e \<Longrightarrow> calm (add_link e l ls)"
  unfolding add_link_def Let_def
  by (auto intro!: calm_rules)

lemma calm_add_links [calm_rules]: "\<not> is_os_error e \<Longrightarrow> calm (add_links e ls links)"
  unfolding add_links_def by (auto intro!: calm_rules)

lemma calm_claim_route [calm_rules]: "calm (claim_route r st)"
  unfolding claim_route_def Let_def by (auto intro!: calm_rules)

lemma calm_any_pan [calm_rules]: "calm (any_pan rs)"
  by (induction rs) (auto intro!: calm_rules)

lemma calm_check_claim [calm_rules]: "calm (check_claim rs)"
  unfolding check_claim_def by (auto intro!: calm_rules)

lemma calm_validate_route_pan [calm_rules]: "calm (validate_route_pan rs)"
  unfolding validate_route_pan_def by (auto intro!: calm_rules)

lemma calm_autogain_setting [calm_rules]: "calm (autogain_setting s st)"
  unfolding autogain_setting_def Let_def by (auto intro!: calm_rules)

lemma calm_validate_autogain [calm_rules]: "calm (validate_autogain c)"
  unfolding validate_autogain_def by (auto intro!: calm_rules)

lemma calm_validated_mute [calm_rules]: "calm (validated_mute c d s ms)"
  unfolding validated_mute_def by (auto intro!: calm_rules)

lemma calm_validated_mutes [calm_rules]: "calm (validated_mutes c d)"
  unfolding validated_mutes_def by (auto intro!: calm_rules)

lemma calm_validate_playback_route [calm_rules]: "calm (validate_playback_route r d)"
  unfolding validate_playback_route_def by (auto intro!: calm_rules)

lemma calm_validate_route_links [calm_rules]: "calm (validate_route_links rs d)"
  unfolding validate_route_links_def by (auto intro!: calm_rules)

lemma calm_check_partners [calm_rules]: "calm (check_partners ms l)"
  by (auto simp: check_partners_def intro!: calm_rules)

lemma calm_require_complete_unmute [calm_rules]: "calm (require_complete_unmute c d ms ps)"
  unfolding require_complete_unmute_def by (auto intro!: calm_rules)

lemma calm_validate_playback_mute [calm_rules]: "calm (validate_playback_mute c)"
  unfolding validate_playback_mute_def Let_def by (auto intro!: calm_rules)

lemma calm_declared_mutes [calm_rules]: "calm (declared_mutes c)"
  unfolding declared_mutes_def by (auto intro!: calm_rules)

lemma calm_link_messages [calm_rules]: "calm (link_messages r)"
  unfolding link_messages_def by (auto intro!: calm_rules)

lemma calm_mix_messages [calm_rules]: "calm (mix_messages r)"
  unfolding mix_messages_def by (auto intro!: calm_rules)

lemma calm_enum_value [calm_rules]: "calm (enum_value r v)"
  unfolding enum_value_def by (auto intro!: calm_rules)

lemma calm_check_domain [calm_rules]: "calm (check_domain r v)"
  unfolding check_domain_def by (auto intro!: calm_rules)

lemma calm_encode [calm_rules]: "calm (encode p r v)"
  unfolding encode_def by (auto intro!: calm_rules)

lemma calm_channel_entry [calm_rules]: "calm (channel_entry d s)"
  unfolding channel_entry_def by (auto intro!: calm_rules)

lemma calm_channel_entries [calm_rules]: "calm (channel_entries c)"
  unfolding channel_entries_def by (auto intro!: calm_rules)

lemma calm_global_entry [calm_rules]: "calm (global_entry d g)"
  unfolding global_entry_def by (auto intro!: calm_rules)

lemma calm_global_entries [calm_rules]: "calm (global_entries c)"
  unfolding global_entries_def by (auto intro!: calm_rules)

lemma calm_store_messages [calm_rules]: "(\<And>r. calm (f r)) \<Longrightarrow> calm (store_messages ph f r es)"
  unfolding store_messages_def by (auto intro!: calm_rules)

lemma calm_route_entries [calm_rules]: "calm (route_entries rs)"
  unfolding route_entries_def by (auto intro!: calm_rules)

lemma calm_place_messages [calm_rules]: "(\<And>r. calm (f r)) \<Longrightarrow> calm (place_messages f r p)"
  unfolding place_messages_def by (auto intro!: calm_rules)

lemma calm_send_order [calm_rules]: "calm (send_order rs)"
  unfolding send_order_def by (auto intro!: calm_rules)

lemma calm_check_pan_channels [calm_rules]: "calm (check_pan_channels d r)"
  unfolding check_pan_channels_def by (auto intro!: calm_rules)

lemma calm_check_base [calm_rules]: "calm (check_base b)"
  unfolding check_base_def by (auto intro!: calm_rules)

lemma calm_declared_links [calm_rules]: "calm (declared_links rs)"
  unfolding declared_links_def by (auto intro!: calm_rules)

lemma calm_base_entries [calm_rules]: "calm (base_entries b rs ps d)"
  unfolding base_entries_def by (auto intro!: calm_rules)

lemma calm_base_part [calm_rules]: "calm (base_part c ps d)"
  unfolding base_part_def by (auto intro!: calm_rules)

lemma calm_desired [calm_rules]: "calm (desired c)"
  unfolding desired_def Let_def by (auto intro!: calm_rules)

lemma calm_int_domain_ok [calm_rules]: "calm (int_domain_ok r v w)"
  unfolding int_domain_ok_def by (auto intro!: calm_rules)

lemma calm_pan_argument [calm_rules]: "calm (pan_argument r a b v w)"
  unfolding pan_argument_def by (auto intro!: calm_rules)

lemma calm_match_argument [calm_rules]: "calm (match_argument t r a b tag v w)"
  unfolding match_argument_def by (auto intro!: calm_rules)

lemma calm_not_comparable [calm_rules]: "calm m \<Longrightarrow> calm (not_comparable m)"
  by (cases m) (auto simp: calm_def not_comparable_def)

lemma calm_match_arguments [calm_rules]: "(\<And>t v w. calm (f t v w)) \<Longrightarrow> calm (match_arguments f ts vs ws)"
proof (induction ts arbitrary: vs ws)
  case (Cons t ts)
  then show ?case by (cases vs; cases ws) (auto intro!: calm_rules)
qed (simp add: calm_rules)

lemma calm_matches [calm_rules]: "calm (matches ts v w tol r)"
  unfolding matches_def by (auto intro!: calm_rules)

lemma calm_judge [calm_rules]: "calm (judge seen d t e)"
  unfolding judge_def Let_def by (auto intro!: calm_rules)

lemma calm_make_plan [calm_rules]: "calm (make_plan es seen d t)"
  unfolding make_plan_def by (auto intro!: calm_rules)

lemma calm_remembered_paths [calm_rules]: "calm (remembered_paths c rs ls)"
  unfolding remembered_paths_def Let_def by (auto intro!: calm_rules)

lemma calm_protect_links [calm_rules]: "calm (protect_links cs r ps)"
  unfolding protect_links_def by (auto intro!: calm_rules)

lemma calm_protect_mix [calm_rules]: "calm (protect_mix cs r ps)"
  unfolding protect_mix_def by (auto intro!: calm_rules)

lemma calm_protected_entries [calm_rules]: "calm (protected_entries c rs cs)"
  unfolding protected_entries_def Let_def by (auto intro!: calm_rules)

lemma calm_column_part [calm_rules]: "calm (column_part l r st)"
  unfolding column_part_def by (auto intro!: calm_rules)

lemma calm_path_channel [calm_rules]: "calm (path_channel p)"
  unfolding path_channel_def Let_def by (auto intro!: calm_rules)

lemma calm_prerequisite [calm_rules]: "calm (prerequisite c ms ps cs w)"
  unfolding prerequisite_def Let_def by (auto intro!: calm_rules)

lemma calm_playback_prerequisites [calm_rules]: "calm (playback_prerequisites c p rs cs)"
  unfolding playback_prerequisites_def Let_def by (auto intro!: calm_rules)

lemma calm_skipped_paths [calm_rules]: "calm (skipped_paths c i ls cs rs es)"
  unfolding skipped_paths_def Let_def by (auto intro!: calm_rules)

lemma calm_application_plan [calm_rules]: "calm (application_plan c i ls cs rs)"
  unfolding application_plan_def by (auto intro!: calm_rules)

lemma calm_matrix_repair_plan [calm_rules]: "calm (matrix_repair_plan c cs rs)"
  unfolding matrix_repair_plan_def Let_def by (auto intro!: calm_rules)

lemma calm_unconfirmed_links [calm_rules]: "calm (unconfirmed_links ws ks ns r)"
  unfolding unconfirmed_links_def Let_def by (auto intro!: calm_rules)

lemma calm_write_problem [calm_rules]: "calm (write_problem ws ks ns fs ds rs w)"
  unfolding write_problem_def Let_def by (auto intro!: calm_rules)

lemma calm_first_problem [calm_rules]: "(\<And>x. calm (f x)) \<Longrightarrow> calm (first_problem f xs)"
  by (induction xs) (auto intro!: calm_rules)

lemma calm_retention_problem [calm_rules]: "calm (retention_problem c ws rs cs obs)"
  unfolding retention_problem_def Let_def by (auto intro!: calm_rules)

lemma calm_valid_argument [calm_rules]: "calm (valid_argument r p i t v)"
  unfolding valid_argument_def Let_def by (auto intro!: calm_rules)

lemma calm_valid_arguments [calm_rules]: "calm (valid_arguments r p i ts vs)"
proof (induction ts arbitrary: i vs)
  case (Cons t ts)
  then show ?case by (cases vs) (auto intro!: calm_rules)
qed (simp add: calm_rules)

lemma calm_valid_feedback [calm_rules]: "calm (valid_feedback w p t a)"
  unfolding valid_feedback_def by (auto intro!: calm_rules)

lemma calm_judge_report [calm_rules]: "calm (judge_report w p e r)"
  unfolding judge_report_def Let_def by (auto intro!: calm_rules)

lemma calm_absorb [calm_rules]: "calm (absorb m w)"
  unfolding absorb_def Let_def by (auto intro!: calm_rules)

lemma calm_absorb_all [calm_rules]: "calm (absorb_all ms w)"
  unfolding absorb_all_def by (auto intro!: calm_rules)

lemma calm_first_integer [calm_rules]: "calm (first_integer args)"
  unfolding first_integer_def by (auto intro!: calm_rules)

lemma calm_observed_value [calm_rules]: "calm (observed_value rs p)"
  using calm_first_integer
  by (auto simp: observed_value_def calm_def split: option.splits prod.splits sum.splits)

lemma calm_written_values [calm_rules]: "calm (written_values ws t cs)"
  unfolding written_values_def by (auto intro!: calm_rules)

lemma calm_written_dsp [calm_rules]: "calm (written_dsp ws t cs)"
  unfolding written_dsp_def by (auto intro!: calm_rules)

lemma calm_switching_on [calm_rules]: "calm (switching_on c ws)"
  unfolding switching_on_def by (auto intro!: calm_rules)

lemma calm_switches_on [calm_rules]: "calm (switches_on c ws)"
  unfolding switches_on_def by (auto intro!: calm_rules)

lemma calm_state_left [calm_rules]: "calm (state_left ws o2 cs t)"
  unfolding state_left_def by (auto intro!: calm_rules)

lemma calm_dsp_problem [calm_rules]: "calm (dsp_problem c ws rs)"
  unfolding dsp_problem_def by (auto intro!: calm_rules)

lemma calm_input_link_expectations [calm_rules]: "calm (input_link_expectations c ws)"
  unfolding input_link_expectations_def Let_def by (auto intro!: calm_rules)

lemma calm_gain_problem [calm_rules]: "calm (gain_problem c ws rs i ks cs)"
  unfolding gain_problem_def Let_def by (auto intro!: calm_rules)

lemma calm_expected_echoes [calm_rules]: "calm (expected_echoes a)"
  unfolding expected_echoes_def by (auto intro!: calm_rules)

lemma calm_stable_links [calm_rules]: "calm (stable_links c i rs)"
  unfolding stable_links_def by (auto intro!: calm_rules)

lemma calm_kept_paths [calm_rules]: "calm (kept_paths c i ls cs rs)"
  unfolding kept_paths_def by (auto intro!: calm_rules)


lemma calm_decode_delivery [calm_rules]: "calm (decode_delivery data)"
proof -
  have "calm (iter_osc_messages data)" "\<And>d. calm (decode_osc d)"
    by (auto simp: calm_def iter_osc_messages_def simp del: iter_pending.simps dest: iter_pending_errors decode_osc_errors)
  then show ?thesis unfolding decode_delivery_def by (intro calm_rules) auto
qed

section \<open>Actions\<close>

text \<open>A failure that says nothing about writes.\<close>

definition unaccounted :: "exc \<Rightarrow> bool" where
  "unaccounted e \<longleftrightarrow> (\<forall>n wr un. e \<noteq> WriteFailed n wr un)"

definition mild_at :: "('w, 'a) action \<Rightarrow> 'w \<Rightarrow> bool" where
  "mild_at m w \<longleftrightarrow> (\<forall>e. fst (m w) = Raise e \<longrightarrow> unaccounted e)"

definition mild :: "('w, 'a) action \<Rightarrow> bool" where
  "mild m \<longleftrightarrow> (\<forall>w. mild_at m w)"

named_theorems mild_rules \<open>actions that raise no WriteFailed\<close>

lemma unaccounted_simps [simp]:
  "unaccounted (OSErr n)" "unaccounted (BackendControlError n)" "\<not> unaccounted (WriteFailed n wr un)"
  by (simp_all add: unaccounted_def)

lemma calm_unaccounted: "\<not> is_os_error e \<Longrightarrow> unaccounted e"
  by (cases e) (simp_all add: unaccounted_def)

lemma mildD: "mild m \<Longrightarrow> m w = (Raise e, v) \<Longrightarrow> unaccounted e"
  by (metis fst_conv mild_at_def mild_def)

lemma mild_at_run: "mild m \<Longrightarrow> mild_at m w"
  by (simp add: mild_def)

lemma mild_pure [mild_rules]:
  "mild (give x)" "mild (look f)" "mild (change g)" "calm r \<Longrightarrow> mild (lift r)" "unaccounted e \<Longrightarrow> mild (fail e)"
  by (auto simp: mild_def mild_at_def run_simps calm_def intro: calm_unaccounted)

lemma mild_bind_at:
  assumes "mild_at m w" and "\<And>x v. m w = (Ok x, v) \<Longrightarrow> mild_at (f x) v"
  shows "mild_at (bind m f) w"
proof (cases "m w")
  case (Pair r v)
  with assms show ?thesis by (cases r) (auto simp: mild_at_def bind_def)
qed

lemma mild_bind [mild_rules]: "mild m \<Longrightarrow> (\<And>x. mild (f x)) \<Longrightarrow> mild (bind m f)"
  by (simp add: mild_def mild_bind_at)

lemma mild_if [mild_rules]: "mild m \<Longrightarrow> mild n \<Longrightarrow> mild (if b then m else n)"
  by simp

lemma mild_option [mild_rules]: "mild m \<Longrightarrow> (\<And>x. mild (f x)) \<Longrightarrow> mild (case opt of None \<Rightarrow> m | Some x \<Rightarrow> f x)"
  by (cases opt) simp_all

lemma mild_list [mild_rules]: "mild m \<Longrightarrow> (\<And>x ys. mild (f x ys)) \<Longrightarrow> mild (case xs of [] \<Rightarrow> m | x # ys \<Rightarrow> f x ys)"
  by (cases xs) simp_all

lemma mild_prod [mild_rules]: "(\<And>x y. mild (f x y)) \<Longrightarrow> mild (case p of (x, y) \<Rightarrow> f x y)"
  by (cases p) simp

lemma mild_attempt [mild_rules]: "mild m \<Longrightarrow> (\<And>e. mild (h e)) \<Longrightarrow> mild (attempt p m h)"
proof -
  assume m: "mild m" and h: "\<And>e. mild (h e)"
  have "unaccounted e" if "attempt p m h w = (Raise e, v)" for w e v
    using that by (cases rule: attempt_cases) (auto dest: mildD [OF m] mildD [OF h])
  then show "mild (attempt p m h)" unfolding mild_def mild_at_def by (metis prod.collapse)
qed

lemma mild_field [mild_rules]: "mild (field f)" "mild (upd g)"
  by (simp_all add: field_def upd_def mild_rules)

lemma mild_closing [mild_rules]: "unaccounted e \<Longrightarrow> mild (closing e)" "mild protocol_error"
  by (simp_all add: closing_def close_control_def protocol_error_def mild_rules)

lemma mild_stop [mild_rules]: "mild should_stop"
  by (simp add: mild_def mild_at_def should_stop_def split: list.splits)

lemma mild_check [mild_rules]: "mild check_open" "mild stop_check"
  unfolding check_open_def stop_check_def by (auto intro!: mild_rules)

lemma mild_transmit [mild_rules]: "mild (transmit r)"
  by (simp add: mild_def mild_at_def transmit_def split: list.splits submission.splits)

lemma mild_send_request [mild_rules]: "mild (send_request k c p t)"
  unfolding send_request_def dispatch_def by (auto intro!: mild_rules)

lemma mild_socket [mild_rules]: "mild (socket_wait t)"
  by (simp add: mild_def mild_at_def socket_wait_def split: list.splits)

lemma mild_arrived [mild_rules]: "mild (arrived a)"
  by (cases a) (auto simp: arrived_def intro!: mild_rules)

lemma mild_receive [mild_rules]: "mild (receive t)"
  unfolding receive_def by (auto intro!: mild_rules)

lemma mild_event [mild_rules]: "mild (event fr)"
  unfolding event_def lease_event_def observation_event_def Let_def by (auto intro!: mild_rules)

lemma mild_reply [mild_rules]: "mild (reply_of k n fr)"
  unfolding reply_of_def by (auto intro!: mild_rules)

section \<open>Loops\<close>

text \<open>Unfolding a loop once: a test, a step, and the rest.\<close>

lemma mild_at_if: "(b \<Longrightarrow> mild_at m w) \<Longrightarrow> (\<not> b \<Longrightarrow> mild_at n w) \<Longrightarrow> mild_at (\<lambda>w. if b then m w else n w) w"
  by (simp add: mild_at_def)

lemma mild_at_eq: "m w = n w \<Longrightarrow> mild_at n w \<Longrightarrow> mild_at m w"
  by (simp add: mild_at_def)

lemma mild_ack_loop: "mild_at (ack_loop k n d) w"
proof (induction k n d w rule: ack_loop.induct)
  case (1 k n d w)
  have "mild_at (\<lambda>w. if d - now w \<le> 0 then closing (BackendControlError (Some ETIMEDOUT)) w
      else bind (receive (min (d - now w) (1 / 4))) (\<lambda>f v. case f of
          None \<Rightarrow> ack_loop k n d v
        | Some fr \<Rightarrow> if is_reply fr then reply_of k n fr v
            else bind (event fr) (\<lambda>_ u. ack_loop k n d u) v) w) w"
  proof (cases "d - now w \<le> 0")
    case True
    then show ?thesis by (simp add: mild_at_def closing_run)
  next
    case False
    have "mild_at (bind (receive (min (d - now w) (1 / 4))) (\<lambda>f v. case f of
          None \<Rightarrow> ack_loop k n d v
        | Some fr \<Rightarrow> if is_reply fr then reply_of k n fr v
            else bind (event fr) (\<lambda>_ u. ack_loop k n d u) v)) w"
    proof (rule mild_bind_at [OF mild_at_run [OF mild_receive]])
      fix f v assume r: "receive (min (d - now w) (1 / 4)) w = (Ok f, v)"
      show "mild_at (\<lambda>v. case f of None \<Rightarrow> ack_loop k n d v
        | Some fr \<Rightarrow> if is_reply fr then reply_of k n fr v else bind (event fr) (\<lambda>_ u. ack_loop k n d u) v) v"
      proof (cases f)
        case None
        with 1(1) [OF False r] show ?thesis by (simp add: mild_at_def)
      next
        case (Some fr)
        have "mild_at (bind (event fr) (\<lambda>_ u. ack_loop k n d u)) v" if no: "\<not> is_reply fr"
          by (rule mild_bind_at [OF mild_at_run [OF mild_event]]) (rule 1(2) [OF False r Some no])
        with Some mild_at_run [OF mild_reply] show ?thesis by (cases "is_reply fr") (simp_all add: mild_at_def)
      qed
    qed
    with False show ?thesis by (simp add: mild_at_def)
  qed
  then show ?case by (rule mild_at_eq [rotated]) (rule ack_loop.simps)
qed

lemma mild_request [mild_rules]: "mild (acknowledgement k n)" "mild (request k c p t)"
proof -
  show a: "mild (acknowledgement k n)" for n
    unfolding mild_def mild_at_def acknowledgement_def using mild_ack_loop unfolding mild_at_def by blast
  show "mild (request k c p t)" unfolding request_def by (intro mild_rules a)
qed

lemma mild_heartbeat [mild_rules]: "mild heartbeat"
proof -
  have "mild note_beat" by (simp add: mild_def mild_at_def note_beat_def upd_def run_simps)
  then show ?thesis unfolding heartbeat_def by (auto intro!: mild_rules)
qed

text \<open>A round of a loop that waits, handles an event and goes on.\<close>

lemma mild_round:
  assumes "\<And>v. receive t w = (Ok None, v) \<Longrightarrow> mild_at a v"
    and "\<And>fr v x u. receive t w = (Ok (Some fr), v) \<Longrightarrow> event fr v = (Ok x, u) \<Longrightarrow> mild_at (\<lambda>u. b u) u"
  shows "mild_at (bind (receive t) (\<lambda>f v. case f of None \<Rightarrow> a v | Some fr \<Rightarrow> bind (event fr) (\<lambda>_ u. b u) v)) w"
proof (rule mild_bind_at [OF mild_at_run [OF mild_receive]])
  fix f v assume r: "receive t w = (Ok f, v)"
  show "mild_at (\<lambda>v. case f of None \<Rightarrow> a v | Some fr \<Rightarrow> bind (event fr) (\<lambda>_ u. b u) v) v"
  proof (cases f)
    case None
    with assms(1) r show ?thesis by (simp add: mild_at_def)
  next
    case (Some fr)
    have "mild_at (bind (event fr) (\<lambda>_ u. b u)) v"
      using r Some by (intro mild_bind_at [OF mild_at_run [OF mild_event]] assms(2)) auto
    with Some show ?thesis by (simp add: mild_at_def)
  qed
qed

lemma mild_wait_loop: "mild_at (wait_loop d) w"
proof (induction d w rule: wait_loop.induct)
  case (1 d w)
  show ?case
  proof (rule mild_at_eq [OF wait_loop.simps], rule mild_bind_at [OF mild_at_run [OF mild_heartbeat]])
    fix x v assume h: "heartbeat w = (Ok x, v)"
    show "mild_at (\<lambda>v. if d - now v \<le> 0 then give () v
      else bind (receive (min (1 / 4) (d - now v))) (\<lambda>f u. case f of None \<Rightarrow> wait_loop d u
        | Some fr \<Rightarrow> bind (event fr) (\<lambda>_ t. wait_loop d t) u) v) v"
    proof (cases "d - now v \<le> 0")
      case False
      have "mild_at (bind (receive (min (1 / 4) (d - now v))) (\<lambda>f u. case f of None \<Rightarrow> wait_loop d u
        | Some fr \<Rightarrow> bind (event fr) (\<lambda>_ t. wait_loop d t) u)) v"
      proof (rule mild_round)
        show "mild_at (wait_loop d) u" if "receive (min (1 / 4) (d - now v)) v = (Ok None, u)" for u
          using "1.IH"(1) [OF h False that refl] .
        show "mild_at (wait_loop d) u"
          if "receive (min (1 / 4) (d - now v)) v = (Ok (Some fr), t)" and "event fr t = (Ok y, u)" for fr t y u
          by (rule "1.IH"(2) [OF h False that(1) refl that(2)])
      qed
      with False show ?thesis by (simp add: mild_at_def)
    qed (simp add: mild_at_def run_simps)
  qed
qed

lemma mild_wait [mild_rules]: "mild (wait_for s)"
  unfolding mild_def mild_at_def wait_for_def using mild_wait_loop unfolding mild_at_def by blast

lemma mild_pop [mild_rules]: "mild pop_delivery"
  unfolding pop_delivery_def by (auto intro!: mild_rules)

lemma mild_delivery_loop: "mild_at (delivery_loop d) w"
proof (induction d w rule: delivery_loop.induct)
  case (1 d w)
  show ?case
  proof (rule mild_at_eq [OF delivery_loop.simps], rule mild_bind_at [OF mild_at_run [OF mild_heartbeat]],
      rule mild_bind_at [OF mild_at_run [OF mild_pop]])
    fix x w' p v assume h: "heartbeat w = (Ok x, w')" and p: "pop_delivery w' = (Ok p, v)"
    show "mild_at (\<lambda>v. if p \<noteq> None then give p v else if d - now v \<le> 0 then give None v
      else bind (receive (min (d - now v) (1 / 4))) (\<lambda>f u. case f of None \<Rightarrow> delivery_loop d u
        | Some fr \<Rightarrow> bind (event fr) (\<lambda>_ t. delivery_loop d t) u) v) v"
    proof (cases "p \<noteq> None \<or> d - now v \<le> 0")
      case False
      then have no: "\<not> p \<noteq> None" "\<not> d - now v \<le> 0" by simp_all
      have "mild_at (bind (receive (min (d - now v) (1 / 4))) (\<lambda>f u. case f of None \<Rightarrow> delivery_loop d u
        | Some fr \<Rightarrow> bind (event fr) (\<lambda>_ t. delivery_loop d t) u)) v"
      proof (rule mild_round)
        show "mild_at (delivery_loop d) u" if "receive (min (d - now v) (1 / 4)) v = (Ok None, u)" for u
          using "1.IH"(1) [OF h p no that refl] .
        show "mild_at (delivery_loop d) u"
          if "receive (min (d - now v) (1 / 4)) v = (Ok (Some fr), t)" and "event fr t = (Ok y, u)" for fr t y u
          by (rule "1.IH"(2) [OF h p no that(1) refl that(2)])
      qed
      with no show ?thesis by (simp add: mild_at_def)
    qed (auto simp: mild_at_def run_simps)
  qed
qed

lemma mild_messages [mild_rules]: "mild (messages t)"
proof -
  have next_d: "mild (next_delivery t)"
    unfolding mild_def mild_at_def next_delivery_def using mild_delivery_loop unfolding mild_at_def by blast
  have "mild (case decode_delivery p of Inl e \<Rightarrow> if e = ValueError then protocol_error else fail e | Inr ms \<Rightarrow> give ms)" for p
    using calm_decode_delivery [of p]
    by (cases "decode_delivery p") (auto intro!: mild_rules calm_unaccounted simp: calm_def)
  then show ?thesis
    unfolding messages_def note_reported_def by (intro mild_rules next_d)
qed

lemma mild_dump_loop: "mild_at (dump_loop d) w"
proof (induction d w rule: dump_loop.induct)
  case (1 d w)
  have mild_discard: "mild discard" by (simp add: discard_def mild_rules)
  show ?case
  proof (rule mild_at_eq [OF dump_loop.simps], rule mild_bind_at [OF mild_at_run [OF mild_heartbeat]],
      rule mild_bind_at [OF mild_at_run [OF mild_field(1)]], rule mild_bind_at [OF mild_at_run [OF mild_request(2)]],
      rule mild_bind_at [OF mild_at_run [OF mild_discard]])
    fix h w' lease w'' rep v x u
    assume h: "heartbeat w = (Ok h, w')" and l: "field ct_lease w' = (Ok lease, w'')"
      and r: "request REFRESH 0 [] lease w'' = (Ok rep, v)" and u: "discard v = (Ok x, u)"
    show "mild_at (\<lambda>u. if fst rep = ST_OK then give () u
       else if fst rep \<noteq> ST_BUSY \<or> d \<le> now u then fail (BackendControlError (Some EBUSY)) u
       else bind (wait_for (min (1 / 10) (max 0 (d - now u)))) (\<lambda>_ t. dump_loop d t) u) u"
    proof (cases "fst rep = ST_OK \<or> fst rep \<noteq> ST_BUSY \<or> d \<le> now u")
      case False
      then have no: "fst rep \<noteq> ST_OK" "\<not> (fst rep \<noteq> ST_BUSY \<or> d \<le> now u)" by simp_all
      have "mild_at (bind (wait_for (min (1 / 10) (max 0 (d - now u)))) (\<lambda>_ t. dump_loop d t)) u"
        by (rule mild_bind_at [OF mild_at_run [OF mild_wait]]) (rule 1 [OF h l r u no])
      with no show ?thesis by (simp add: mild_at_def)
    qed (auto simp: mild_at_def run_simps)
  qed
qed

lemma mild_dump [mild_rules]: "mild request_dump"
  unfolding mild_def mild_at_def request_dump_def using mild_dump_loop unfolding mild_at_def by blast

lemma mild_dependency_loop: "mild_at (dependency_loop settled d seen) w"
proof (induction settled d seen w rule: dependency_loop.induct)
  case (1 settled d seen w)
  have "mild_at (\<lambda>w. if settled seen \<or> d \<le> now w then give seen w
      else bind stop_check (\<lambda>_. bind (messages (1 / 4)) (\<lambda>reports. bind (lift (absorb_all reports seen))
        (\<lambda>more v. dependency_loop settled d more v))) w) w"
  proof (cases "settled seen \<or> d \<le> now w")
    case False
    have "mild_at (bind stop_check (\<lambda>_. bind (messages (1 / 4)) (\<lambda>reports. bind (lift (absorb_all reports seen))
        (\<lambda>more v. dependency_loop settled d more v)))) w"
      by (rule mild_bind_at [OF mild_at_run [OF mild_check(2)]], rule mild_bind_at [OF mild_at_run [OF mild_messages]],
          rule mild_bind_at [OF mild_at_run [OF mild_pure(4) [OF calm_absorb_all]]]) (rule 1 [OF False])
    with False show ?thesis by (simp add: mild_at_def)
  qed (auto simp: mild_at_def run_simps)
  then show ?case by (rule mild_at_eq [rotated]) (rule dependency_loop.simps)
qed

lemma mild_read [mild_rules]: "mild (read_dependencies paths links settled)"
proof -
  have "mild (\<lambda>w. dependency_loop settled (now w + VERIFY_TIMEOUT) (Observation (link_reports links) None paths []) w)"
    unfolding mild_def mild_at_def using mild_dependency_loop unfolding mild_at_def by blast
  then show ?thesis unfolding read_dependencies_def by (intro mild_rules)
qed

lemma mild_echo_loop: "mild_at (echo_loop d seen) w"
proof (induction d seen w rule: echo_loop.induct)
  case (1 d seen w)
  have "mild_at (\<lambda>w. if complete seen then give (Some seen) w
      else bind should_stop (\<lambda>s v.
        if s then give None v
        else if d - now v \<le> 0 then give (Some seen) v
        else bind (messages (min (1 / 4) (d - now v))) (\<lambda>reports. bind (lift (absorb_all reports seen))
          (\<lambda>more u. echo_loop d more u)) v) w) w"
  proof (cases "complete seen")
    case False
    have "mild_at (bind should_stop (\<lambda>s v.
        if s then give None v
        else if d - now v \<le> 0 then give (Some seen) v
        else bind (messages (min (1 / 4) (d - now v))) (\<lambda>reports. bind (lift (absorb_all reports seen))
          (\<lambda>more u. echo_loop d more u)) v)) w"
    proof (rule mild_bind_at [OF mild_at_run [OF mild_stop]])
      fix s v assume s: "should_stop w = (Ok s, v)"
      show "mild_at (\<lambda>v. if s then give None v
        else if d - now v \<le> 0 then give (Some seen) v
        else bind (messages (min (1 / 4) (d - now v))) (\<lambda>reports. bind (lift (absorb_all reports seen))
          (\<lambda>more u. echo_loop d more u)) v) v"
      proof (cases "s \<or> d - now v \<le> 0")
        case no: False
        then have ns: "\<not> s" "\<not> d - now v \<le> 0" by simp_all
        have "mild_at (bind (messages (min (1 / 4) (d - now v))) (\<lambda>reports. bind (lift (absorb_all reports seen))
          (\<lambda>more u. echo_loop d more u))) v"
          by (rule mild_bind_at [OF mild_at_run [OF mild_messages]],
              rule mild_bind_at [OF mild_at_run [OF mild_pure(4) [OF calm_absorb_all]]]) (rule 1 [OF False s ns])
        with ns show ?thesis by (simp add: mild_at_def)
      qed (auto simp: mild_at_def run_simps)
    qed
    with False show ?thesis by (simp add: mild_at_def)
  qed (auto simp: mild_at_def run_simps)
  then show ?case by (rule mild_at_eq [rotated]) (rule echo_loop.simps)
qed

section \<open>The checks of an apply\<close>

lemma mild_await [mild_rules]: "mild (await_link_echo expected t)"
proof -
  have "mild (\<lambda>w. echo_loop (now w + t) (Observation (link_reports expected) None [] []) w)"
    unfolding mild_def mild_at_def using mild_echo_loop unfolding mild_at_def by blast
  then show ?thesis unfolding await_link_echo_def by (intro mild_rules)
qed

lemma mild_barrier [mild_rules]: "mild (cross_the_barrier expected req)"
  unfolding cross_the_barrier_def by (auto intro!: mild_rules)

lemma mild_require [mild_rules]: "mild (require_for a ws latest)"
  unfolding require_for_def require_gain_ownership_def by (auto intro!: mild_rules calm_rules)

lemma mild_checks [mild_rules]: "mild (phase_checks a echoes ph burst after latest)"
  unfolding phase_checks_def before_links_def before_mix_def before_channels_def reread_def
  by (auto intro!: mild_rules calm_rules)

lemma mild_guard [mild_rules]: "mild (guard_check c before)"
proof -
  have "mild (read_playback c)"
    by (simp add: mild_def mild_at_def read_playback_def split: list.splits option.splits)
  then show ?thesis unfolding guard_check_def by (auto intro!: mild_rules)
qed


section \<open>Refusals\<close>

text \<open>Failures that leave nothing written: a refused \<open>WriteFailed\<close> without written paths, or another error.\<close>

definition refusal :: "exc \<Rightarrow> bool" where
  "refusal e \<longleftrightarrow> (\<forall>n wr un. e = WriteFailed n wr un \<longrightarrow> n = None \<and> wr = [])"

definition declines :: "('w, 'a) action \<Rightarrow> bool" where
  "declines m \<longleftrightarrow> (\<forall>w e v. m w = (Raise e, v) \<longrightarrow> refusal e)"

named_theorems declines_rules \<open>actions that fail only by refusing\<close>

lemma declinesD: "declines m \<Longrightarrow> m w = (Raise e, v) \<Longrightarrow> refusal e"
  by (auto simp: declines_def)

lemma mild_declines: "mild m \<Longrightarrow> declines m"
  unfolding declines_def refusal_def by (auto dest: mildD)

lemma declines_bind [declines_rules]: "declines m \<Longrightarrow> (\<And>x. declines (f x)) \<Longrightarrow> declines (bind m f)"
proof -
  assume m: "declines m" and f: "\<And>x. declines (f x)"
  have "refusal e" if "bind m f w = (Raise e, v)" for w e v
    using that by (cases rule: bind_cases) (auto dest: declinesD [OF m] declinesD [OF f])
  then show "declines (bind m f)" by (simp add: declines_def)
qed

lemma declines_if [declines_rules]: "declines m \<Longrightarrow> declines n \<Longrightarrow> declines (if b then m else n)"
  by simp

lemma declines_refusal [declines_rules]: "declines (fail (WriteFailed None [] un))" "declines (refuse_plan p)"
  by (simp_all add: declines_def refusal_def refuse_plan_def run_simps)

lemma declines_limits [declines_rules]: "declines (within_dsp_limits c wanted latest intent)"
proof -
  have "mild (dsp_limit_problem c ws latest)" for ws
    unfolding dsp_limit_problem_def Let_def by (auto intro!: mild_rules calm_rules)
  then show ?thesis
    unfolding within_dsp_limits_def
    by (intro declines_rules; auto intro!: mild_declines mild_rules calm_rules)
qed

lemma declines_prepare: "declines (prepare_apply c leave req intent confirmed observed)"
proof -
  have "mild (case observed of None \<Rightarrow> read_dependencies (dependency_paths c) [] all_reported | Some o' \<Rightarrow> give o')"
    by (cases observed) (auto intro!: mild_rules)
  then show ?thesis
    unfolding prepare_apply_def Let_def
    by (intro declines_rules; auto intro!: mild_declines mild_rules calm_rules)
qed

end
