(* ===== verification/Applying.thy ===== *)
theory Applying
  imports Raising
begin

text \<open>
  What an apply does to the wire, whatever the backend and the device do: no check writes, the
  writes acknowledged are a prefix of the plan in its order, a failure is accounted for the whole
  apply, the barrier lets nothing pass that the last reports contradict, and a peak-safe switch
  gives back the volumes it took.
\<close>

section \<open>Checks write nothing\<close>

lemma silent_environment:
  "(\<And>w. acked (f w) = acked w) \<Longrightarrow> (\<And>w. outbox (f w) = outbox w) \<Longrightarrow> (\<And>w. control (f w) = control w) \<Longrightarrow> silent w (f w)"
  by (simp add: silent_def)

lemma silent_stop_check: "keeps silent stop_check"
  unfolding stop_check_def by (intro si.keeps_bind si.keeps_if si.keeps_pure silent_stop)

lemma silent_guard: "keeps silent (guard_check c before)"
proof -
  have "keeps silent (read_playback c)"
    by (rule keepsI) (auto simp: read_playback_def silent_def split: list.splits)
  then show ?thesis unfolding guard_check_def
    by (auto intro!: si.keeps_if si.keeps_bind split: option.splits)
qed

lemma silent_dependency_loop: "silent w (snd (dependency_loop settled d seen w))"
proof (induction settled d seen w rule: dependency_loop.induct)
  case (1 settled d seen w)
  show ?case
  proof (cases "settled seen \<or> d \<le> now w")
    case True
    then show ?thesis by (subst dependency_loop.simps) (simp add: run_simps si.same)
  next
    case False
    have "silent w (snd (bind stop_check (\<lambda>_. bind (messages (1 / 4)) (\<lambda>reports. bind (lift (absorb_all reports seen))
        (\<lambda>more v. dependency_loop settled d more v))) w))"
      by (rule si.bind_at [OF keeps_run [OF silent_stop_check]], rule si.bind_at [OF keeps_run [OF silent_messages]],
          rule si.bind_at [OF keeps_run [OF si.keeps_pure(3)]]) (rule 1 [OF False])
    with False show ?thesis by (subst dependency_loop.simps) simp
  qed
qed

lemma silent_read: "keeps silent (read_dependencies paths links settled)"
  unfolding read_dependencies_def
  by (intro si.keeps_if si.keeps_bind si.keeps_pure silent_stop_check quiet.keeps_dump)
    (simp add: keeps_def silent_dependency_loop)

lemma silent_echo_loop: "silent w (snd (echo_loop d seen w))"
proof (induction d seen w rule: echo_loop.induct)
  case (1 d seen w)
  show ?case
  proof (cases "complete seen")
    case True
    then show ?thesis by (subst echo_loop.simps) (simp add: run_simps si.same)
  next
    case False
    have "silent w (snd (bind should_stop (\<lambda>s v.
        if s then give None v
        else if d - now v \<le> 0 then give (Some seen) v
        else bind (messages (min (1 / 4) (d - now v))) (\<lambda>reports. bind (lift (absorb_all reports seen))
          (\<lambda>more u. echo_loop d more u)) v) w))"
    proof (rule si.bind_at [OF keeps_run [OF silent_stop]])
      fix s v assume s: "should_stop w = (Ok s, v)"
      show "silent v (snd (if s then give None v else if d - now v \<le> 0 then give (Some seen) v
        else bind (messages (min (1 / 4) (d - now v))) (\<lambda>reports. bind (lift (absorb_all reports seen))
          (\<lambda>more u. echo_loop d more u)) v))"
      proof (cases "s \<or> d - now v \<le> 0")
        case True
        then show ?thesis by (auto simp: run_simps si.same)
      next
        case no: False
        then have ns: "\<not> s" "\<not> d - now v \<le> 0" by simp_all
        have "silent v (snd (bind (messages (min (1 / 4) (d - now v))) (\<lambda>reports. bind (lift (absorb_all reports seen))
            (\<lambda>more u. echo_loop d more u)) v))"
          by (rule si.bind_at [OF keeps_run [OF silent_messages]], rule si.bind_at [OF keeps_run [OF si.keeps_pure(3)]])
            (rule 1 [OF False s ns])
        with ns show ?thesis by simp
      qed
    qed
    with False show ?thesis by (subst echo_loop.simps) simp
  qed
qed

lemma silent_await: "keeps silent (await_link_echo expected t)"
proof -
  have "keeps silent (\<lambda>w. echo_loop (now w + t) (Observation (link_reports expected) None [] []) w)"
    by (simp add: keeps_def silent_echo_loop)
  then show ?thesis unfolding await_link_echo_def
    by (intro si.keeps_bind si.keeps_if si.keeps_option si.keeps_pure silent_stop)
qed

lemma silent_barrier: "keeps silent (cross_the_barrier expected req)"
  unfolding cross_the_barrier_def by (auto intro!: si.keeps_bind silent_await simp: field_def)

lemma silent_require: "keeps silent (require_for a ws latest)"
  unfolding require_for_def require_gain_ownership_def by (intro si.keeps_bind si.keeps_if si.keeps_pure)

lemma silent_checks: "keeps silent (phase_checks a echoes ph burst after latest)"
  unfolding phase_checks_def before_links_def before_mix_def before_channels_def reread_def
  by (intro si.keeps_if si.keeps_bind si.keeps_pure silent_read silent_require silent_barrier)

lemma silent_limits: "keeps silent (within_dsp_limits c wanted latest intent)"
  unfolding within_dsp_limits_def dsp_limit_problem_def Let_def
  by (intro si.keeps_if si.keeps_bind si.keeps_pure silent_read)

lemma silent_prepare: "keeps silent (prepare_apply c leave req intent confirmed observed)"
  unfolding prepare_apply_def Let_def refuse_plan_def
  by (intro si.keeps_bind si.keeps_if si.keeps_pure si.keeps_option silent_read silent_limits)

section \<open>The phases write the plan in its order\<close>

lemma split_first:
  assumes "sorted (map f xs)" and "\<forall>x \<in> set xs. k \<le> f x"
  shows "filter (\<lambda>x. f x = k) xs @ filter (\<lambda>x. f x \<noteq> k) xs = xs"
  using assms
proof (induction xs)
  case (Cons x xs)
  show ?case
  proof (cases "f x = k")
    case False
    then have "k < f x" using Cons.prems(2) by force
    then have "\<forall>y \<in> set (x # xs). f y \<noteq> k" using Cons.prems(1) by (auto dest: less_le_trans)
    then show ?thesis by (simp add: filter_empty_conv filter_id_conv)
  qed (use Cons in simp)
qed simp

lemma concat_groups:
  assumes "sorted (map f xs)" and "sorted ks" and "distinct ks" and "f ` set xs \<subseteq> set ks"
  shows "concat (map (\<lambda>k. filter (\<lambda>x. f x = k) xs) ks) = xs"
  using assms
proof (induction ks arbitrary: xs)
  case (Cons k ks)
  let ?rest = "filter (\<lambda>x. f x \<noteq> k) xs"
  have same: "filter (\<lambda>x. f x = l) ?rest = filter (\<lambda>x. f x = l) xs" if "l \<in> set ks" for l
    using that Cons.prems(3) by (auto intro: filter_cong)
  have "concat (map (\<lambda>l. filter (\<lambda>x. f x = l) ?rest) ks) = ?rest"
    using Cons.prems by (intro Cons.IH) (auto simp: sorted_filter)
  then have "concat (map (\<lambda>l. filter (\<lambda>x. f x = l) xs) ks) = ?rest"
    using same by (metis (no_types, lifting) map_eq_conv)
  moreover have "filter (\<lambda>x. f x = k) xs @ ?rest = xs"
    using Cons.prems by (intro split_first) auto
  ultimately show ?case by simp
qed simp

lemma phases_cover: "sorted (map wr_phase (pl_writes p)) \<Longrightarrow> concat (map (phase_burst p) all_phases) = pl_writes p"
proof -
  assume s: "sorted (map wr_phase (pl_writes p))"
  have "wr_phase w \<in> set all_phases" for w by (cases "wr_phase w") (simp_all add: all_phases_def)
  moreover have "sorted all_phases" "distinct all_phases"
    by (simp_all add: all_phases_def less_eq_phase_def)
  ultimately show ?thesis
    unfolding phase_burst_def by (intro concat_groups [OF s]) auto
qed


lemma paths_of_messages: "paths_of (map write_message ws) = map wr_path ws"
  by (simp add: paths_of_def write_message_def o_def)

text \<open>
  The outcome of a list of writes, \<open>j\<close> of them acknowledged, after those in \<open>before\<close>: a return
  means all; a \<open>WriteFailed\<close> splits all of them in order, with the acknowledged ones among the
  written and at most one more; no other OSError leaves.
\<close>

definition ran :: "string list \<Rightarrow> reg_write list \<Rightarrow> nat \<Rightarrow> unit res \<Rightarrow> bool" where
  "ran before ws j r \<longleftrightarrow> j \<le> length ws \<and> (r = Ok () \<longrightarrow> j = length ws)
     \<and> (\<forall>n wr un. r = Raise (WriteFailed n wr un) \<longrightarrow>
          wr @ un = before @ map wr_path ws \<and> prefix (before @ map wr_path (take j ws)) wr
          \<and> length wr \<le> length before + Suc j)
     \<and> (\<forall>e. r = Raise e \<longrightarrow> is_os_error e \<longrightarrow> \<not> unaccounted e)"

lemma ran_refused: "ran before ws 0 (Raise (WriteFailed n before (map wr_path ws)))"
  by (simp add: ran_def)

lemma ran_raised: "\<not> is_os_error e \<Longrightarrow> j \<le> length ws \<Longrightarrow> ran before ws j (Raise e)"
  by (auto simp: ran_def)

lemma ran_later:
  assumes "ran (before @ map wr_path burst) ws j r"
  shows "ran before (burst @ ws) (length burst + j) r"
  using assms by (auto simp: ran_def)

text \<open>A burst that failed, reported for the whole apply.\<close>

lemma ran_burst:
  assumes "accounted (map write_message burst) j (Raise e)" and "is_os_error e \<longrightarrow> \<not> unaccounted e"
    and "unaccounted e \<longrightarrow> \<not> is_os_error e"
  shows "ran before (burst @ after) j
     (Raise (if is_os_error e then phase_failed before (map wr_path burst) (map wr_path after) e else e))"
proof (cases "is_os_error e")
  case True
  then obtain n wr un where e: "e = WriteFailed n wr un" using assms(2) by (auto simp: unaccounted_def)
  with assms(1) have acc: "wr @ un = map wr_path burst" "prefix (map wr_path (take j burst)) wr" "length wr \<le> Suc j"
      "j \<le> length burst"
    by (auto simp: accounted_def paths_of_messages take_map)
  then have "j \<le> length wr" by (auto dest: prefix_length_le)
  then have "prefix (map wr_path (take j (burst @ after))) wr" using acc by simp
  then show ?thesis using acc e by (auto simp: ran_def phase_failed_def)
next
  case False
  with assms(1) show ?thesis by (auto simp: accounted_def intro: ran_raised)
qed

lemma ran_check:
  assumes "unaccounted e"
  shows "ran before (burst @ after) 0
     (Raise (if is_os_error e then phase_failed before (map wr_path burst) (map wr_path after) e else e))"
  using assms by (cases e) (auto simp: ran_def phase_failed_def unaccounted_def)

text \<open>One phase: its checks, the guard, then its burst.\<close>

lemma phase_step_accounts:
  assumes "phase_step a echoes ph burst after latest guard w = (r, v)"
  shows "(\<exists>x. r = Ok x \<and> acked v = acked w @ map write_message burst)
    \<or> (\<exists>e. r = Raise e \<and> acked v = acked w \<and> unaccounted e)
    \<or> (\<exists>e j. r = Raise e \<and> acked v = acked w @ map write_message (take j burst)
         \<and> accounted (map write_message burst) j (Raise e) \<and> (is_os_error e \<longrightarrow> \<not> unaccounted e))"
  using assms unfolding phase_step_def
proof (cases rule: bind_cases)
  case (raised e)
  then have "silent w v" "unaccounted e" using keepsD [OF silent_checks] mildD [OF mild_checks] by blast+
  with raised show ?thesis by (simp add: silent_def)
next
  case (went_on fresh u)
  have u: "acked u = acked w" using keepsD [OF silent_checks went_on(1)] by (simp add: silent_def)
  show ?thesis
  proof (cases "burst = []")
    case True
    with went_on(2) u show ?thesis by (auto simp: run_simps)
  next
    case False
    with went_on(2) have "bind (guard_check (ap_config a) guard) (\<lambda>state.
       bind (send_messages (map write_message burst)) (\<lambda>_. give (fresh, state))) u = (r, v)" by simp
    then show ?thesis
    proof (cases rule: bind_cases)
      case (raised e)
      then have "silent u v" "unaccounted e" using keepsD [OF silent_guard] mildD [OF mild_guard] by blast+
      with raised u show ?thesis by (simp add: silent_def)
    next
      case (went_on state t)
      have t: "acked t = acked w" using keepsD [OF silent_guard went_on(1)] u by (simp add: silent_def)
      obtain sr s where s: "send_messages (map write_message burst) t = (sr, s)" by fastforce
      obtain j where j: "acked s = acked t @ take j (map write_message burst)" "accounted (map write_message burst) j sr"
        using send_messages_accounts [OF s] by blast
      show ?thesis
      proof (cases sr)
        case (Inl e)
        with went_on(2) s have v: "r = Raise e" "v = s" by (simp_all add: bind_def)
        have "is_os_error e \<longrightarrow> \<not> unaccounted e" using send_messages_errors s Inl by (auto simp: unaccounted_def)
        with v j t Inl show ?thesis by (auto simp: take_map)
      next
        case (Inr x)
        with went_on(2) s have "r = Ok (fresh, state)" "v = s" by (simp_all add: bind_def run_simps)
        with j Inr t show ?thesis by (auto simp: accounted_def)
      qed
    qed
  qed
qed

lemma attempt_fail:
  assumes "attempt p m (\<lambda>e. fail (f e)) w = (Raise e, v)"
  shows "\<exists>s. m w = (Raise s, v) \<and> e = (if p s then f s else s)"
proof (cases "m w")
  case (Pair r u)
  with assms show ?thesis by (cases r) (auto simp: attempt_def run_simps split: if_splits)
qed

lemma attempt_Ok: "attempt p m (\<lambda>e. fail (f e)) w = (Ok x, v) \<longleftrightarrow> m w = (Ok x, v)"
  by (cases "m w") (auto simp: attempt_def run_simps split: sum.splits)

lemma run_phases_accounts:
  assumes "run_phases a echoes phs before latest guard w = (r, v)"
  shows "\<exists>j. acked v = acked w @ map write_message (take j (concat (map (phase_burst (ap_wanted a)) phs)))
    \<and> ran before (concat (map (phase_burst (ap_wanted a)) phs)) j r"
  using assms
proof (induction phs arbitrary: before latest guard w)
  case Nil
  then show ?case by (auto simp: run_simps ran_def)
next
  case (Cons ph phs)
  define burst where "burst = phase_burst (ap_wanted a) ph"
  define after where "after = concat (map (phase_burst (ap_wanted a)) phs)"
  let ?step = "attempt is_os_error (phase_step a echoes ph burst after latest guard)
     (\<lambda>e. fail (phase_failed before (map wr_path burst) (map wr_path after) e))"
  have all: "concat (map (phase_burst (ap_wanted a)) (ph # phs)) = burst @ after" by (simp add: burst_def after_def)
  show ?case
  proof (cases "burst = [] \<and> after = []")
    case True
    with Cons.prems have "r = Ok ()" "v = w" by (simp_all add: burst_def after_def run_simps Let_def)
    then show ?thesis unfolding all using True by (simp add: ran_def)
  next
    case False
    obtain s u where s: "should_stop w = (Ok s, u)" by (cases "stops w") (auto simp: should_stop_def)
    have u: "acked u = acked w" using keepsD [OF silent_stop s] by (simp add: silent_def)
    from Cons.prems False s have go: "(if s then fail (WriteFailed None before (map wr_path burst @ map wr_path after)) u
        else bind ?step (\<lambda>(fresh, state). run_phases a echoes phs (before @ map wr_path burst) fresh state) u) = (r, v)"
      by (simp add: burst_def [symmetric] after_def [symmetric] Let_def bind_Ok split: if_splits)
    show ?thesis
    proof (cases s)
      case True
      with go u show ?thesis unfolding all using ran_refused [of before "burst @ after"]
        by (intro exI [of _ 0]) (auto simp: run_simps)
    next
      case no: False
      with go have "bind ?step (\<lambda>(fresh, state). run_phases a echoes phs (before @ map wr_path burst) fresh state) u = (r, v)"
        by simp
      then show ?thesis
      proof (cases rule: bind_cases)
        case (raised e)
        obtain sr where sr: "phase_step a echoes ph burst after latest guard u = (Raise sr, v)"
            "e = (if is_os_error sr then phase_failed before (map wr_path burst) (map wr_path after) sr else sr)"
          using attempt_fail [OF raised(1)] by blast
        from phase_step_accounts [OF sr(1)] u show ?thesis unfolding all raised(2) sr(2)
        proof (elim disjE exE conjE)
          fix f assume f: "(Raise sr :: (reports \<times> playback_state option) res) = Raise f" "acked v = acked u" "unaccounted f"
          show "\<exists>j. acked v = acked w @ map write_message (take j (burst @ after)) \<and> ran before (burst @ after) j
              (Raise (if is_os_error sr then phase_failed before (map wr_path burst) (map wr_path after) sr else sr))"
            using f u ran_check [of sr] by (intro exI [of _ 0]) simp
        next
          fix f j assume f: "(Raise sr :: (reports \<times> playback_state option) res) = Raise f"
            "acked v = acked u @ map write_message (take j burst)" "accounted (map write_message burst) j (Raise f)"
            "is_os_error f \<longrightarrow> \<not> unaccounted f"
          have "unaccounted f \<longrightarrow> \<not> is_os_error f" using f(4) by blast
          then have "ran before (burst @ after) j
              (Raise (if is_os_error sr then phase_failed before (map wr_path burst) (map wr_path after) sr else sr))"
            using f ran_burst [of burst j sr before after] by simp
          moreover have "j \<le> length burst" using f(3) by (simp add: accounted_def)
          ultimately show "\<exists>j. acked v = acked w @ map write_message (take j (burst @ after)) \<and> ran before (burst @ after) j
              (Raise (if is_os_error sr then phase_failed before (map wr_path burst) (map wr_path after) sr else sr))"
            using f u by (intro exI [of _ j]) simp
        qed simp
      next
        case (went_on x t)
        then have "phase_step a echoes ph burst after latest guard u = (Ok x, t)" by (simp add: attempt_Ok)
        then have t: "acked t = acked u @ map write_message burst" using phase_step_accounts by fastforce
        obtain j where "acked v = acked t @ map write_message (take j after)" "ran (before @ map wr_path burst) after j r"
          using Cons.IH [of "before @ map wr_path burst" "fst x" "snd x" t] went_on(2) unfolding after_def
          by (cases x) auto
        then show ?thesis unfolding all using t u
          by (intro exI [of _ "length burst + j"]) (simp add: ran_later)
      qed
    qed
  qed
qed

section \<open>What an apply comes to\<close>

text \<open>
  The abstract result of preparing: the plan of this intent that leaves the given paths alone and
  that the retention check accepts, less the DSP writes a resume holds back.
\<close>

definition selected_from :: "config \<Rightarrow> intent \<Rightarrow> string list \<Rightarrow> reg_write list \<Rightarrow> bool" where
  "selected_from c intent leave ws \<longleftrightarrow> (\<exists>skip confirmed latest p held.
     set leave \<subseteq> set skip \<and> application_plan c intent skip confirmed latest = Ok p
     \<and> retention_problem c (pl_writes p) skip confirmed (Some latest) = Ok None
     \<and> ws = filter (\<lambda>w. wr_path w \<notin> set held) (pl_writes p) \<and> (intent = EXPLICIT \<longrightarrow> held = []))"

lemma lift_returned: "lift x w = (Ok y, v) \<longleftrightarrow> x = Ok y \<and> v = w"
  by (auto simp: lift_def)

lemma within_dsp_limits_keeps:
  assumes "within_dsp_limits c wanted latest intent w = (Ok p, v)"
  shows "\<exists>held. p = wanted\<lparr>pl_writes := filter (\<lambda>w. wr_path w \<notin> set held) (pl_writes wanted)\<rparr>
    \<and> (intent = EXPLICIT \<longrightarrow> held = [])"
  using assms unfolding within_dsp_limits_def
proof (rule bind_returned)
  fix problem u
  assume go: "(if problem = None then give wanted
      else if intent = EXPLICIT then fail (WriteFailed None [] (map wr_path (pl_writes wanted)))
      else bind (lift (switching_on c (plan_writes (pl_writes wanted)))) (\<lambda>held.
        give (wanted\<lparr>pl_writes := filter (\<lambda>w. wr_path w \<notin> set held) (pl_writes wanted)\<rparr>))) u = (Ok p, v)"
  show ?thesis
  proof (cases "problem = None")
    case True
    with go show ?thesis by (intro exI [of _ "[]"]) (simp add: run_simps)
  next
    case False
    with go show ?thesis by (auto simp: run_simps lift_returned elim!: bind_returned split: if_splits)
  qed
qed

lemma prepare_selects:
  assumes "prepare_apply c leave req intent confirmed observed w = (Ok (a, latest), v)"
  shows "ap_config a = c \<and> ap_intent a = intent \<and> selected_from c intent leave (pl_writes (ap_wanted a))
    \<and> sorted (map wr_phase (pl_writes (ap_wanted a)))"
proof -
  obtain stable kept wanted limited u where
      plan: "application_plan c intent (sorted_set (leave @ stable @ kept)) (confirmed @ stable) latest = Ok wanted"
    and ret: "retention_problem c (pl_writes wanted) (sorted_set (leave @ stable @ kept)) (confirmed @ stable) (Some latest) = Ok None"
    and lim: "within_dsp_limits c wanted latest intent u = (Ok limited, v)"
    and a: "a = \<lparr>ap_config = c, ap_wanted = limited, ap_require = req, ap_intent = intent,
        ap_retained = sorted_set (leave @ stable @ kept), ap_confirmed = confirmed @ stable\<rparr>"
    using assms unfolding prepare_apply_def Let_def
    by (auto elim!: bind_returned simp: lift_returned run_simps refuse_plan_def split: if_splits)
  obtain held where "limited = wanted\<lparr>pl_writes := filter (\<lambda>w. wr_path w \<notin> set held) (pl_writes wanted)\<rparr>"
      and explicit: "intent = EXPLICIT \<longrightarrow> held = []"
    using within_dsp_limits_keeps [OF lim] by blast
  then have l: "pl_writes limited = filter (\<lambda>w. wr_path w \<notin> set held) (pl_writes wanted)" by simp
  have "sorted (map wr_phase (pl_writes limited))"
    using sorted_plan [OF plan] by (simp add: l sorted_filter)
  moreover have "selected_from c intent leave (pl_writes limited)"
    unfolding selected_from_def using plan ret l explicit by (intro exI conjI) auto
  ultimately show ?thesis by (simp add: a)
qed

lemma send_in_order_accounts:
  assumes "send_in_order a latest w = (r, v)" and "sorted (map wr_phase (pl_writes (ap_wanted a)))"
  shows "\<exists>j. acked v = acked w @ map write_message (take j (pl_writes (ap_wanted a)))
    \<and> ran [] (pl_writes (ap_wanted a)) j r"
proof (cases "expected_echoes a")
  case (Inl e)
  then have "\<not> is_os_error e" using calm_expected_echoes [of a] by (simp add: calm_def)
  with assms(1) Inl show ?thesis
    by (intro exI [of _ 0]) (auto simp: send_in_order_def run_simps intro: ran_raised)
next
  case (Inr echoes)
  with assms(1) have "run_phases a echoes all_phases [] latest None w = (r, v)"
    by (simp add: send_in_order_def run_simps)
  from run_phases_accounts [OF this] show ?thesis unfolding phases_cover [OF assms(2)] .
qed

text \<open>
  C30. Whatever the backend, the device and the playback stream do, an apply that need not be
  peak-safe either writes nothing, or works off one plan of its intent -- accepted by the retention
  check, leaving alone what it was told to -- in the order of its phases: the acknowledged writes
  are a prefix of it, a return means all of it, and a failure reported as \<open>WriteFailed\<close> names every
  path of it once, written or unwritten in order, with every acknowledged write among the written
  and at most one more.
\<close>

theorem apply_refines_plan:
  assumes "apply_routing c leave req intent confirmed observed w = (r, v)"
    and "\<not> cfg_peak_safe c \<or> intent \<noteq> EXPLICIT"
  shows "(acked v = acked w \<and> (\<exists>e. r = Raise e \<and> refusal e))
    \<or> (\<exists>ws j. selected_from c intent leave ws \<and> sorted (map wr_phase ws)
         \<and> acked v = acked w @ map write_message (take j ws) \<and> ran [] ws j r)"
  using assms(1) unfolding apply_routing_def
proof (cases rule: bind_cases)
  case (raised e)
  then have "acked v = acked w" "refusal e"
    using keepsD [OF silent_prepare raised(1)] declinesD [OF declines_prepare raised(1)] by (simp_all add: silent_def)
  with raised show ?thesis by blast
next
  case (went_on x u)
  obtain a latest where x: "x = (a, latest)" by fastforce
  have u: "acked u = acked w" using keepsD [OF silent_prepare went_on(1)] by (simp add: silent_def)
  note sel = prepare_selects [OF went_on(1) [unfolded x]]
  from went_on(2) have "send_in_order (a\<lparr>ap_wanted := ap_wanted a\<rparr>) latest u = (r, v)"
    using assms(2) unfolding x send_quietly_def by (auto split: option.splits if_splits)
  then have "send_in_order a latest u = (r, v)" by simp
  then have "\<exists>j. acked v = acked u @ map write_message (take j (pl_writes (ap_wanted a)))
      \<and> ran [] (pl_writes (ap_wanted a)) j r"
    using sel by (intro send_in_order_accounts) simp_all
  with sel u show ?thesis by auto
qed

section \<open>A desk without a lease\<close>

text \<open>A desk on an unmodelled device, its plan, and a connection that holds no lease.\<close>

definition small_desk :: config where
  "small_desk = default_config \<lparr>cfg_device_name := ''other'', cfg_routes := [main_route]\<rparr>"

definition idle_world :: "int option \<Rightarrow> (rat \<times> arrival) list \<Rightarrow> desk_world" where
  "idle_world lease packets = \<lparr>now = 5, inbox = packets, sends = [], stops = [], outbox = [], acked = [], reported = [],
     control = \<lparr>ct_sources = 1, ct_closed = False, ct_request_id = 0, ct_lease = lease, ct_last_heartbeat = 5,
        ct_last_write = 0, ct_generation = 7, ct_last_sequence = 0, ct_queue = [], ct_queue_bytes = 0,
        ct_epoch = [1], ct_device_name = [], ct_lease_held = True, ct_pid = 1, ct_traits = OSCMIX\<rparr>, beside = []\<rparr>"

definition small_writes :: "reg_write list" where
  "small_writes = map (\<lambda>(p, t, a, ph). \<lparr>wr_path = p, wr_tags = t, wr_args = a, wr_phase = ph, wr_reason = UNCONDITIONAL\<rparr>)
     [(''/playback/1/stereo'', ''i'', [VInt 1], LINK), (''/output/1/stereo'', ''i'', [VInt 1], LINK),
      (''/mix/1/playback/1'', ''fi'', [VFloat (Fin 0), VInt 0], MIX),
      (''/output/1/volume'', ''f'', [VFloat (Fin (- 10))], MIX), (''/output/2/volume'', ''f'', [VFloat (Fin (- 10))], MIX)]"

definition small_plan :: plan where
  "small_plan = \<lparr>pl_writes = small_writes, pl_confirmed = [], pl_unverifiable = [], pl_retained = []\<rparr>"

lemma small_planned: "application_plan small_desk INITIAL [] [] [] = Ok small_plan"
  by code_simp

lemma small_checks: "dependency_paths small_desk = []" "stable_links small_desk INITIAL [] = Ok []"
  "kept_paths small_desk INITIAL [] [] [] = Ok []"
  "retention_problem small_desk (pl_writes small_plan) [] [] (Some []) = Ok None"
  "autoset_off small_plan = []" "gain_problem small_desk (pl_writes small_plan) [] INITIAL [] [] = Ok None"
  "switches_on small_desk (plan_writes (pl_writes small_plan)) = Ok False"
  by code_simp+

definition small_context :: apply_context where
  "small_context = \<lparr>ap_config = small_desk, ap_wanted = small_plan, ap_require = [], ap_intent = INITIAL, ap_retained = [], ap_confirmed = []\<rparr>"

lemma small_limits: "within_dsp_limits small_desk small_plan [] INITIAL w = (Ok small_plan, w)"
  using small_checks by (simp add: within_dsp_limits_def dsp_limit_problem_def bind_def run_simps)

lemma small_prepared: "prepare_apply small_desk [] [] INITIAL [] None w = (Ok (small_context, []), w)"
  using small_checks
  by (simp add: prepare_apply_def small_planned small_context_def run_simps read_dependencies_def Let_def
      bind_Ok [OF small_limits])

lemma small_bursts: "phase_burst small_plan PLAYBACK_MUTE_ON = []" "phase_burst small_plan AUTOSET_OFF = []"
  "phase_burst small_plan LINK = take 2 small_writes" "phase_burst small_plan MIX = drop 2 small_writes"
  "phase_burst small_plan CHANNEL = []" "phase_burst small_plan AUTOSET_ON = []" "phase_burst small_plan PLAYBACK_MUTE_OFF = []"
  "expected_echoes small_context = Ok [(''/output/1/stereo'', 1)]" "guarded small_desk = False"
  by code_simp+

definition unleased :: "desk_world \<Rightarrow> bool" where
  "unleased w \<longleftrightarrow> stops w = [] \<and> ct_lease (control w) = None"

lemma run_phases_empty:
  assumes "stops w = []" and "phase_burst (ap_wanted a) ph = []" and "ph \<noteq> LINK"
    and "concat (map (phase_burst (ap_wanted a)) phs) \<noteq> []"
  shows "run_phases a echoes (ph # phs) before latest guard w = run_phases a echoes phs before latest guard w"
proof -
  have "should_stop w = (Ok False, w)" using assms(1) by (simp add: should_stop_def)
  with assms show ?thesis
    by (simp add: Let_def bind_Ok phase_step_def phase_checks_def run_simps attempt_def bind_def del: concat_eq_Nil_conv)
qed

lemma small_send:
  assumes "unleased w"
  shows "send_in_order small_context [] w = (Raise (WriteFailed (Some EPERM) [] (map wr_path small_writes)), w)" 
proof -
  let ?run = "\<lambda>phs. run_phases small_context [(''/output/1/stereo'', 1)] phs [] [] None w"
  have w: "should_stop w = (Ok False, w)" "send_messages ms w = (Raise (WriteFailed (Some EPERM) [] (paths_of ms)), w)" for ms
    using assms by (simp_all add: unleased_def should_stop_def send_messages_def field_def run_simps)
  have "send_in_order small_context [] w = ?run all_phases"
    by (simp add: send_in_order_def small_bursts run_simps)
  also have "\<dots> = ?run [AUTOSET_OFF, LINK, MIX, CHANNEL, AUTOSET_ON, PLAYBACK_MUTE_OFF]"
    unfolding all_phases_def using assms
    by (intro run_phases_empty) (simp_all add: unleased_def small_context_def small_bursts small_writes_def)
  also have "\<dots> = ?run [LINK, MIX, CHANNEL, AUTOSET_ON, PLAYBACK_MUTE_OFF]"
    using assms
    by (intro run_phases_empty) (simp_all add: unleased_def small_context_def small_bursts small_writes_def)
  also have "\<dots> = (Raise (WriteFailed (Some EPERM) [] (map wr_path small_writes)), w)"
    using small_checks(5) w
    by (simp add: Let_def bind_Ok small_context_def small_bursts phase_step_def phase_checks_def before_links_def
       guard_check_def attempt_def bind_def run_simps small_writes_def phase_failed_def paths_of_def write_message_def)
  finally show ?thesis .
qed

lemma apply_refines_plan_witness:
  "fst (apply_routing small_desk [] [] INITIAL [] None (idle_world None [])) = Raise (WriteFailed (Some EPERM) [] (map wr_path small_writes))
   \<and> (\<exists>ws. selected_from small_desk INITIAL [] ws \<and> map wr_path ws = map wr_path small_writes)"
proof -
  let ?w = "idle_world None []" and ?e = "WriteFailed (Some EPERM) [] (map wr_path small_writes)"
  have c: "device_for_name (cfg_device_name small_desk) = None" "\<not> refusal ?e" "small_context\<lparr>ap_wanted := small_plan\<rparr> = small_context"
    by (simp_all add: refusal_def small_context_def) code_simp
  have "unleased ?w" by (simp add: unleased_def idle_world_def)
  then have run: "apply_routing small_desk [] [] INITIAL [] None ?w = (Raise ?e, ?w)"
    using c small_send [of ?w]
    by (simp add: apply_routing_def bind_Ok [OF small_prepared] send_quietly_def)
  from apply_refines_plan [OF run] c(2) obtain ws j where
    "selected_from small_desk INITIAL [] ws" "ran [] ws j (Raise ?e)" by auto
  then show ?thesis using run by (auto simp: ran_def intro!: exI [of _ ws])
qed

end
