(* ===== verification/Barrier.thy ===== *)
theory Barrier
  imports Raising
begin

text \<open>
  What the link barrier of \<^verbatim>\<open>routing.py\<close> guarantees and what a fresh reading of dependencies
  returns: both absorb exactly the reports of the device that came in while they waited.
\<close>

section \<open>A window over what was reported\<close>

lemma absorb_all_append: "absorb_all (xs @ ys) w = rbind (absorb_all xs w) (absorb_all ys)"
  by (simp add: absorb_all_def fold_res_append) (metis (no_types, lifting) absorb_all_def ext)

lemma stop_reported: "should_stop w = (r, v) \<Longrightarrow> reported v = reported w"
  by (auto simp: should_stop_def split: list.splits)

lemma echo_loop_reported:
  "echo_loop d seen w = (Ok (Some fin), v) \<Longrightarrow> \<exists>ms. reported v = reported w @ ms \<and> absorb_all ms seen = Ok fin"
proof (induction d seen w rule: echo_loop.induct)
  case (1 d seen w)
  show ?case
  proof (cases "complete seen")
    case True
    with 1(2) show ?thesis by (subst (asm) echo_loop.simps) (simp add: run_simps absorb_all_def)
  next
    case False
    with 1(2) obtain s u where s: "should_stop w = (Ok s, u)"
      and go: "(if s then give None u else if d - now u \<le> 0 then give (Some seen) u
        else bind (messages (min (1 / 4) (d - now u))) (\<lambda>reports. bind (lift (absorb_all reports seen))
          (\<lambda>next u. echo_loop d next u)) u) = (Ok (Some fin), v)"
      by (subst (asm) echo_loop.simps) (auto elim: bind_returned)
    show ?thesis
    proof (cases "s \<or> d - now u \<le> 0")
      case True
      with go have "v = u" "fin = seen" by (auto simp: run_simps split: if_splits)
      with stop_reported [OF s] show ?thesis by (simp add: absorb_all_def)
    next
      case no: False
      then have ns: "\<not> s" "\<not> d - now u \<le> 0" by simp_all
      from go ns have "bind (messages (min (1 / 4) (d - now u))) (\<lambda>reports. bind (lift (absorb_all reports seen))
          (\<lambda>next u. echo_loop d next u)) u = (Ok (Some fin), v)" by simp
      then obtain ms t where m: "messages (min (1 / 4) (d - now u)) u = (Ok ms, t)"
        and rest: "bind (lift (absorb_all ms seen)) (\<lambda>next u. echo_loop d next u) t = (Ok (Some fin), v)"
        by (rule bind_returned)
      from rest obtain later where l: "absorb_all ms seen = Ok later" "echo_loop d later t = (Ok (Some fin), v)"
        by (auto simp: lift_def elim!: bind_returned)
      have "lift (absorb_all ms seen) t = (Ok later, t)" by (simp add: lift_def l)
      from 1(1) [OF False s ns m this l(2)] obtain rs where "reported v = reported t @ rs" "absorb_all rs later = Ok fin"
        by blast
      then show ?thesis using messages_reported [OF m] stop_reported [OF s] l(1)
        by (intro exI [of _ "ms @ rs"]) (simp add: absorb_all_append)
    qed
  qed
qed




section \<open>Links as their reports read\<close>

text \<open>The state a report of a link flag carries: an integer 0 or 1, whatever follows it.\<close>

definition link_state :: "report \<Rightarrow> int option" where
  "link_state rep = (case rep of (tags, args) \<Rightarrow>
     if startswith tags ''i'' \<and> args \<noteq> []
     then (case py_integer (hd args) of Inr n \<Rightarrow> if n = 0 \<or> n = 1 then Some n else None | Inl _ \<Rightarrow> None) else None)"

lemma judge_link:
  assumes "ob_device w = None" and "endswith path ''/stereo''" and "value = 0 \<or> value = 1"
    and "judge_report w path (''i'', [VInt value]) rep = Ok (valid, match)"
  shows "match \<longleftrightarrow> link_state rep = Some value"
proof -
  obtain tags args where rep: "rep = (tags, args)" by fastforce
  have row: "register_at None path = None" by (simp add: register_at_def)
  have wanted: "py_integer (VInt value) = Ok value" using assms(3) by auto
  have auto: "\<not> endswith path ''/autoset''"
    using suffix_same_cases [OF assms(2), of "''/autoset''"] by (auto simp: suffix_to_prefix)
  show ?thesis
  proof (cases "startswith tags ''i'' \<and> args \<noteq> []")
    case False
    with assms(4) show ?thesis
      by (auto simp: rep judge_report_def valid_feedback_def link_state_def rbind_Ok_iff Let_def split: if_splits)
  next
    case True
    then obtain v vs where "args = v # vs" by (cases args) auto
    with assms True row wanted auto show ?thesis
      by (cases "py_integer v")
        (auto simp: rep judge_report_def valid_feedback_def valid_argument_def link_state_def not_comparable_def matches_def
          match_argument_def int_domain_ok_def pan_argument_def rbind_Ok_iff Let_def split: if_splits)
  qed
qed

section \<open>The barrier\<close>

lemma link_reports_keys:
  "set (dkeys (link_reports links)) = fst ` set links" "distinct (dkeys (link_reports links))"
proof -
  show "set (dkeys (link_reports links)) = fst ` set links"
    unfolding link_reports_def set_dkeys_dupdate by (force simp: image_image)
  show "distinct (dkeys (link_reports links))"
    unfolding link_reports_def by (rule distinct_dkeys_dupdate) simp
qed

lemma link_reports_value:
  assumes "distinct (map fst links)" and "(path, value) \<in> set links"
  shows "dget (link_reports links) path = Some (''i'', [VInt value])"
proof -
  let ?kvs = "map (\<lambda>(path, value). (path, (''i'', [VInt value]))) links"
  have dist: "distinct (map fst ?kvs)" using assms(1) by (simp add: o_def case_prod_beta)
  have "(path, (''i'', [VInt value])) \<in> set ?kvs" using assms(2) by force
  with dist have "map_of ?kvs path = Some (''i'', [VInt value])" by simp
  then show ?thesis by (simp add: link_reports_def dget_dupdate map_of_rev_distinct [OF dist])
qed

lemma await_returns:
  assumes "await_link_echo expected t w = (Ok echoed, v)" and "expected \<noteq> []" and "echoed \<noteq> CANCELLED"
  shows "\<exists>ms seen. reported v = reported w @ ms \<and> absorb_all ms (Observation (link_reports expected) None [] []) = Ok seen
    \<and> (echoed \<noteq> CONTRADICTED \<longrightarrow> ob_mismatched seen = {}) \<and> (echoed = CONFIRMED \<longrightarrow> complete seen)"
proof -
  obtain s u where s: "should_stop w = (Ok s, u)"
    and go: "(if s then give CANCELLED
     else if expected = [] then give CONFIRMED
     else bind (\<lambda>w. echo_loop (now w + t) (Observation (link_reports expected) None [] []) w) (\<lambda>ended.
       case ended of None \<Rightarrow> give CANCELLED
       | Some seen \<Rightarrow> bind should_stop (\<lambda>s.
           if s then give CANCELLED
           else if ob_mismatched seen \<noteq> {} then give CONTRADICTED
           else if complete seen then give CONFIRMED else give SILENT))) u = (Ok echoed, v)"
    using assms(1) unfolding await_link_echo_def by (rule bind_returned)
  have "\<not> s" using go assms(3) by (auto simp: run_simps)
  with go assms(2) have "bind (\<lambda>w. echo_loop (now w + t) (Observation (link_reports expected) None [] []) w) (\<lambda>ended.
       case ended of None \<Rightarrow> give CANCELLED
       | Some seen \<Rightarrow> bind should_stop (\<lambda>s.
           if s then give CANCELLED
           else if ob_mismatched seen \<noteq> {} then give CONTRADICTED
           else if complete seen then give CONFIRMED else give SILENT)) u = (Ok echoed, v)" by simp
  then obtain ended x where loop: "echo_loop (now u + t) (Observation (link_reports expected) None [] []) u = (Ok ended, x)"
    and rest: "(case ended of None \<Rightarrow> give CANCELLED
       | Some seen \<Rightarrow> bind should_stop (\<lambda>s.
           if s then give CANCELLED
           else if ob_mismatched seen \<noteq> {} then give CONTRADICTED
           else if complete seen then give CONFIRMED else give SILENT)) x = (Ok echoed, v)"
    by (rule bind_returned)
  obtain seen where seen: "ended = Some seen" using rest assms(3) by (cases ended) (auto simp: run_simps)
  with rest obtain s' y where s': "should_stop x = (Ok s', y)" and fin: "(if s' then give CANCELLED
           else if ob_mismatched seen \<noteq> {} then give CONTRADICTED
           else if complete seen then give CONFIRMED else give SILENT) y = (Ok echoed, v)"
    by (auto elim: bind_returned)
  obtain ms where ms: "reported x = reported u @ ms" "absorb_all ms (Observation (link_reports expected) None [] []) = Ok seen"
    using echo_loop_reported loop seen by blast
  have "y = v" "echoed \<noteq> CONTRADICTED \<longrightarrow> ob_mismatched seen = {}" "echoed = CONFIRMED \<longrightarrow> complete seen"
    using fin assms(3) by (auto simp: run_simps split: if_splits)
  with ms stop_reported [OF s] stop_reported [OF s'] show ?thesis by (intro exI [of _ ms] exI [of _ seen]) simp
qed

text \<open>
  C32. The barrier: when it lets the dependent writes pass, then every expected link was either never
  reported while it waited -- which is enough only where no confirmation is required -- or its last
  report has the value that was written. A contradiction that a later report revokes does not
  count, and neither does a confirmation that a later report contradicts.
\<close>

theorem barrier_passed:
  assumes "cross_the_barrier expected req w = (Ok (), v)" and "distinct (map fst expected)"
    and "\<And>path value. (path, value) \<in> set expected \<Longrightarrow> endswith path ''/stereo'' \<and> (value = 0 \<or> value = 1)"
    and "req \<noteq> [] \<or> \<not> reports_link_state_on_write (ct_traits (control w))"
  shows "\<exists>ms. reported v = reported w @ ms \<and> (\<forall>(path, value) \<in> set expected.
     (case last_report ms path of None \<Rightarrow> req = [] | Some rep \<Rightarrow> link_state rep = Some value))"
proof (cases "expected = []")
  case True
  with assms(1,4) have "reported v = reported w"
    by (auto simp: cross_the_barrier_def await_link_echo_def field_def run_simps should_stop_def bind_def
        split: list.splits if_splits)
  with True show ?thesis by simp
next
  case False
  define start where "start = Observation (link_reports expected) None [] []"
  have "\<not> (reports_link_state_on_write (ct_traits (control w)) \<and> req = [])" using assms(4) by blast
  with assms(1) have "bind (await_link_echo expected LINK_ECHO_TIMEOUT) (\<lambda>echoed.
       if echoed = CANCELLED \<or> echoed = CONTRADICTED then fail (OSErr None)
       else if req \<noteq> [] \<and> echoed \<noteq> CONFIRMED then fail (OSErr None)
       else give ()) w = (Ok (), v)"
    by (simp add: cross_the_barrier_def field_def run_simps)
  then obtain echoed u where echo: "await_link_echo expected LINK_ECHO_TIMEOUT w = (Ok echoed, u)"
    and "(if echoed = CANCELLED \<or> echoed = CONTRADICTED then fail (OSErr None)
       else if req \<noteq> [] \<and> echoed \<noteq> CONFIRMED then fail (OSErr None) else give ()) u = (Ok (), v)"
    by (rule bind_returned)
  then have u: "u = v" "echoed \<noteq> CANCELLED" "echoed \<noteq> CONTRADICTED" "req \<noteq> [] \<longrightarrow> echoed = CONFIRMED"
    by (auto simp: run_simps split: if_splits)
  obtain ms seen where ms: "reported v = reported w @ ms" "absorb_all ms start = Ok seen"
    "ob_mismatched seen = {}" "req \<noteq> [] \<longrightarrow> complete seen"
    using await_returns [OF echo False u(2)] u unfolding start_def by blast
  have "case last_report ms path of None \<Rightarrow> req = [] | Some rep \<Rightarrow> link_state rep = Some val"
    if link: "(path, val) \<in> set expected" for path val
  proof -
    have cls: "classed start path (last_report ms path) (class_of seen path)"
      using class_last [OF ms(2)] by (simp add: start_def)
    have none: "\<not> unobservable start path" "ob_device start = None"
      by (simp_all add: start_def unobservable_def register_at_def)
    have exp: "dget (ob_expected start) path = Some (''i'', [VInt val])"
      using link_reports_value [OF assms(2) link] by (simp add: start_def)
    show ?thesis
    proof (cases "last_report ms path")
      case None
      have "path \<notin> ob_confirmed seen" using cls None exp by (simp add: classed_def class_of_def)
      moreover have "path \<in> set (dkeys (link_reports expected))" using link unfolding link_reports_keys(1) by force
      ultimately have "\<not> complete seen"
        using complete_iff [OF ms(2) [unfolded start_def] link_reports_keys(2)] by blast
      with ms(4) None show ?thesis by auto
    next
      case (Some rep)
      obtain valid match where j: "judge_report start path (''i'', [VInt val]) rep = Ok (valid, match)"
          and "path \<in> ob_mismatched seen \<longleftrightarrow> \<not> match"
        using cls none exp Some by (auto simp: classed_def class_of_def)
      then have "match" using ms(3) by simp
      then have "link_state rep = Some val"
        using judge_link [OF none(2) _ _ j] assms(3) [OF link] by simp
      with Some show ?thesis by simp
    qed
  qed
  with ms(1) show ?thesis by (intro exI [of _ ms]) auto
qed

text \<open>A link the device reports while the barrier waits.\<close>

lemma heartbeat_unleased:
  assumes "stops w = []" and "\<not> ct_closed (control w)" and "ct_lease (control w) = None"
  shows "heartbeat w = (Ok (), w)"
  using assms by (simp add: heartbeat_def check_open_def field_def run_simps should_stop_def bind_def)

lemma delivery_received:
  assumes "heartbeat w = (Ok (), w)" and "ct_queue (control w) = []" and "0 < d - now w"
    and "receive (min (d - now w) (1 / 4)) w = (Ok (Some fr), v)" and "event fr v = (Ok (), u)"
    and "heartbeat u = (Ok (), u)" and "pop_delivery u = (Ok (Some dl), t)"
  shows "delivery_loop d w = (Ok (Some dl), t)"
proof -
  have "pop_delivery w = (Ok None, w)" using assms(2) by (simp add: pop_delivery_def field_def run_simps)
  then have "delivery_loop d w = delivery_loop d u"
    using assms by (subst delivery_loop.simps) (simp add: bind_Ok)
  also have "\<dots> = (Ok (Some dl), t)"
    using assms by (subst delivery_loop.simps) (simp add: bind_Ok run_simps)
  finally show ?thesis .
qed

definition report_packet :: bytes where
  "report_packet = pack_packet (EV_OBSERVATION, 0, SRC_DEVICE, 1,
     case encode_osc ''/output/1/stereo'' ''i'' [VInt 1] of Inr b \<Rightarrow> b | Inl _ \<Rightarrow> [])"

definition reported_delivery :: delivery where
  "reported_delivery = \<lparr>dl_origin = 1, dl_sequence = 1, dl_epoch = [1],
     dl_payload = (case encode_osc ''/output/1/stereo'' ''i'' [VInt 1] of Inr b \<Rightarrow> b | Inl _ \<Rightarrow> [])\<rparr>"

lemma report_packet_facts: "report_packet \<noteq> []" "length report_packet = 52" "take 4 report_packet = MAGIC"
  "unpack_packet report_packet = (EV_OBSERVATION, 0, 1, 1, dl_payload reported_delivery)"
  by code_simp+

lemma reported_payload: "length (dl_payload reported_delivery) = 28" "dl_payload reported_delivery \<noteq> []"
  "decode_delivery (dl_payload reported_delivery) = Ok [(''/output/1/stereo'', ''i'', [VInt 1])]"
  by code_simp+

text \<open>An open connection at time \<open>t\<close> with that packet on its way, and the same after it was taken.\<close>

definition reporting_at :: "rat \<Rightarrow> outgoing list \<Rightarrow> int \<Rightarrow> (rat \<times> arrival) list \<Rightarrow> unit world" where
  "reporting_at t rs n before = (let w = quiet_world (before @ [(20 / 1000, Datagram report_packet False)])
     in w\<lparr>now := t, outbox := rs, control := (control w)\<lparr>ct_closed := False, ct_epoch := [1], ct_request_id := n\<rparr>\<rparr>)"

definition after_report :: "rat \<Rightarrow> outgoing list \<Rightarrow> int \<Rightarrow> unit world" where
  "after_report t rs n = (let w = reporting_at t rs n []
     in w\<lparr>now := t + 20 / 1000, inbox := [], control := (control w)\<lparr>ct_last_sequence := 1\<rparr>\<rparr>)"

lemmas report_worlds = reporting_at_def after_report_def quiet_world_def Let_def

lemma reporting_delivery: "delivery_loop (t + 1 / 4) (reporting_at t rs n []) = (Ok (Some reported_delivery), after_report t rs n)"
proof (rule delivery_received)
  let ?w = "reporting_at t rs n []"
  let ?v = "?w\<lparr>now := t + 20 / 1000, inbox := []\<rparr>"
  let ?u = "(after_report t rs n)\<lparr>control := (control (after_report t rs n))\<lparr>ct_queue := [reported_delivery], ct_queue_bytes := 52\<rparr>\<rparr>"
  show "heartbeat ?w = (Ok (), ?w)" "ct_queue (control ?w) = []" "0 < t + 1 / 4 - now ?w"
    by (intro heartbeat_unleased, simp_all add: report_worlds)
  show "receive (min (t + 1 / 4 - now ?w) (1 / 4)) ?w = (Ok (Some (EV_OBSERVATION, 0, 1, 1, dl_payload reported_delivery)), ?v)"
    by (simp add: receive_def check_open_def field_def run_simps should_stop_def socket_wait_def arrived_def bind_def
        report_packet_facts HEADER_SIZE_def PAYLOAD_def report_worlds)
  have d: "\<lparr>dl_origin = 1, dl_sequence = 1, dl_epoch = [1], dl_payload = dl_payload reported_delivery\<rparr> = reported_delivery"
    by (simp add: reported_delivery_def)
  show "event (EV_OBSERVATION, 0, 1, 1, dl_payload reported_delivery) ?v = (Ok (), ?u)"
    by (simp add: event_def observation_event_def EV_LEASE_def EV_WINDOW_def EV_OBSERVATION_def field_def upd_def run_simps
        reported_payload SRC_DEVICE_def CONTROL_QUEUE_PACKETS_def CONTROL_QUEUE_BYTES_def HEADER_SIZE_def
        report_worlds d)
  show "heartbeat ?u = (Ok (), ?u)"
    by (intro heartbeat_unleased) (simp_all add: report_worlds)
  show "pop_delivery ?u = (Ok (Some reported_delivery), after_report t rs n)"
    by (simp add: pop_delivery_def field_def upd_def run_simps reported_payload HEADER_SIZE_def report_worlds)
qed

lemma reporting_messages: "messages (1 / 4) (reporting_at t rs n [])
    = (Ok [(''/output/1/stereo'', ''i'', [VInt 1])], (after_report t rs n)\<lparr>reported := [(''/output/1/stereo'', ''i'', [VInt 1])]\<rparr>)"
proof -
  have "now (reporting_at t rs n []) = t" "dl_origin reported_delivery = 1"
    by (simp_all add: report_worlds reported_delivery_def)
  then show ?thesis
    using reporting_delivery [of t rs n]
    by (simp add: messages_def next_delivery_def bind_def reported_payload SRC_DEVICE_def run_simps note_reported_def
        report_worlds)
qed

lemma link_absorbed: "absorb_all [(''/output/1/stereo'', ''i'', [VInt 1])] (Observation (link_reports [(''/output/1/stereo'', 1)]) None [] [])
   = Ok \<lparr>ob_expected = [(''/output/1/stereo'', (''i'', [VInt 1]))], ob_device = None, ob_dependencies = [], ob_noted = [],
       ob_latest = [(''/output/1/stereo'', (''i'', [VInt 1]))], ob_confirmed = {''/output/1/stereo''},
       ob_mismatched = {}, ob_invalid = {}\<rparr>"
  by (simp add: absorb_all_def absorb_def Observation_def note_report_def unobservable_def link_reports_def
      register_at_def judge_report_def valid_feedback_def valid_argument_def not_comparable_def matches_def
      match_argument_def int_domain_ok_def pan_argument_def class_report_def suffix_to_prefix Let_def dupdate_def)

lemma reporting_run: "cross_the_barrier [(''/output/1/stereo'', 1)] [''/output/1/stereo''] (reporting_at 0 [] 0 [])
    = (Ok (), (after_report 0 [] 0)\<lparr>reported := [(''/output/1/stereo'', ''i'', [VInt 1])]\<rparr>)"
proof -
  let ?seen = "Observation (link_reports [(''/output/1/stereo'', 1)]) None [] []"
  have w: "should_stop (reporting_at 0 [] 0 []) = (Ok False, (reporting_at 0 [] 0 []))" "now (reporting_at 0 [] 0 []) = 0"
    by (simp_all add: report_worlds should_stop_def)
  have v: "should_stop ((after_report 0 [] 0)\<lparr>reported := rs\<rparr>) = (Ok False, (after_report 0 [] 0)\<lparr>reported := rs\<rparr>)" for rs
    by (simp add: report_worlds should_stop_def)
  have "\<not> complete ?seen" by (simp add: complete_def Observation_def link_reports_def dupdate_def)
  then have "echo_loop LINK_ECHO_TIMEOUT ?seen (reporting_at 0 [] 0 []) = (Ok (Some \<lparr>ob_expected = [(''/output/1/stereo'', (''i'', [VInt 1]))],
       ob_device = None, ob_dependencies = [], ob_noted = [],
       ob_latest = [(''/output/1/stereo'', (''i'', [VInt 1]))], ob_confirmed = {''/output/1/stereo''},
       ob_mismatched = {}, ob_invalid = {}\<rparr>), (after_report 0 [] 0)\<lparr>reported := [(''/output/1/stereo'', ''i'', [VInt 1])]\<rparr>)"
    by (subst echo_loop.simps) (simp add: bind_Ok [where m = should_stop, OF w(1)] w(2) LINK_ECHO_TIMEOUT_def bind_Ok [where m = "messages (1 / 4)", OF reporting_messages]
        link_absorbed run_simps, subst echo_loop.simps, simp add: complete_def run_simps)
  then show ?thesis
    by (simp add: cross_the_barrier_def await_link_echo_def field_def run_simps w bind_def v complete_def)
qed

lemma barrier_passed_witness:
  "\<exists>ms. reported ((after_report 0 [] 0)\<lparr>reported := [(''/output/1/stereo'', ''i'', [VInt 1])]\<rparr>) = reported (reporting_at 0 [] 0 []) @ ms
     \<and> map_option link_state (last_report ms ''/output/1/stereo'') = Some (Some 1)"
proof -
  have "\<exists>ms. reported ((after_report 0 [] 0)\<lparr>reported := [(''/output/1/stereo'', ''i'', [VInt 1])]\<rparr>) = reported (reporting_at 0 [] 0 []) @ ms
      \<and> (\<forall>(path, value) \<in> set [(''/output/1/stereo'', 1)].
           case last_report ms path of None \<Rightarrow> [''/output/1/stereo''] = [] | Some rep \<Rightarrow> link_state rep = Some value)"
    by (rule barrier_passed [OF reporting_run]) (auto simp: suffix_to_prefix)
  then show ?thesis by (auto split: option.splits)
qed







end
