(* ===== verification/Verify.thy ===== *)
theory Verify
  imports Applying Barrier
begin


section \<open>What to expect and what to wait for\<close>

definition expected_registers :: "config \<Rightarrow> (string, report) dict res" where
  "expected_registers c = rbind (desired c) (\<lambda>es. Ok (dupdate []
     (map (\<lambda>e. (en_path e, (en_tags e, en_args e))) (filter en_compared es))))"

definition register_ever_reported :: "string \<Rightarrow> device option \<Rightarrow> bool" where
  "register_ever_reported path dev = (case verify_class_of dev path of
     Some klass \<Rightarrow> klass = VERIFIABLE
   | None \<Rightarrow> \<not> (startswith path ''/playback/'' \<and> endswith path ''/stereo'')
       \<and> \<not> (startswith path ''/mix/'' \<and> sublist ''/playback/'' path))"

definition is_channel_state :: "device option \<Rightarrow> string \<Rightarrow> bool" where
  "is_channel_state dev path = (case register_at dev path of
     None \<Rightarrow> False
   | Some r \<Rightarrow> reg_domain r \<noteq> None
       \<and> (startswith (reg_template r) ''/input/{ch}/'' \<or> startswith (reg_template r) ''/output/{ch}/''))"

definition register_promptly_reported :: "string \<Rightarrow> device option \<Rightarrow> bool" where
  "register_promptly_reported path dev =
     (if \<not> register_ever_reported path dev then False
      else if dev \<noteq> None \<and> is_channel_state dev path then cold_plug_complete dev path
      else True)"

record verify_result =
  vr_confirmed :: "string list"
  vr_mismatched :: "string list"
  vr_unobserved :: "string list"
  vr_invalid :: "string list"
  vr_latest :: reports

section \<open>The read-back\<close>

text \<open>\<open>_window_may_close\<close>, on the classes of a window.\<close>

definition window_may_close :: "string list \<Rightarrow> window \<Rightarrow> bool" where
  "window_may_close reportable seen =
     (if ob_mismatched seen \<noteq> {} then False
      else if card (ob_confirmed seen) = length (ob_expected seen) then True
      else reportable \<noteq> [] \<and> set reportable \<subseteq> ob_confirmed seen)"

text \<open>\<open>_observe\<close>.\<close>

function observe_loop :: "string list \<Rightarrow> rat \<Rightarrow> window \<Rightarrow> 'x world \<Rightarrow> window res \<times> 'x world" where
  "observe_loop reportable deadline seen w =
     (if deadline \<le> now w then give seen w
      else bind should_stop (\<lambda>s v.
        if s \<or> (dependencies_complete seen \<and> window_may_close reportable seen) then give seen v
        else bind (messages (1 / 4)) (\<lambda>reports. bind (lift (absorb_all reports seen))
          (\<lambda>more u. observe_loop reportable deadline more u)) v) w)"
  by pat_completeness auto
termination
proof (relation "inv_image (measures [\<lambda>(d, w). length (inbox w), \<lambda>(d, w). length (ct_queue (control w)),
    \<lambda>(d, w). ticks d w]) (\<lambda>(p, d, s, w). (d, w))")
  fix reportable deadline seen x ms z and w v u t :: "'x world"
  assume d: "\<not> deadline \<le> now w" and s: "should_stop w = (Ok x, v)"
    and m: "messages (1 / 4) v = (Ok ms, u)" and l: "lift (absorb_all ms seen) u = (Ok z, t)"
  have "(u, v) \<in> reading deadline"
    using d should_stop_same [OF s] by (intro messages_reading [OF m]) simp_all
  then show "((reportable, deadline, z, t), reportable, deadline, seen, w) \<in> inv_image
      (measures [\<lambda>(d, w). length (inbox w), \<lambda>(d, w). length (ct_queue (control w)), \<lambda>(d, w). ticks d w]) (\<lambda>(p, d, s, w). (d, w))"
    using should_stop_same [OF s] lift_same [OF l] by (simp add: reading_def ticks_def)
qed simp

declare observe_loop.simps [simp del]

definition result_of :: "window \<Rightarrow> verify_result" where
  "result_of seen = \<lparr>vr_confirmed = sorted_list_of_set (ob_confirmed seen),
     vr_mismatched = sorted_list_of_set (ob_mismatched seen), vr_unobserved = sorted_list_of_set (unobserved seen),
     vr_invalid = sorted_list_of_set (ob_invalid seen), vr_latest = ob_latest seen\<rparr>"

definition verify_routing ::
    "(string, report) dict \<Rightarrow> rat \<Rightarrow> device option \<Rightarrow> string list \<Rightarrow> ('x world, verify_result) action" where
  "verify_routing registers timeout dev dependencies =
     (let reportable = filter (\<lambda>p. register_ever_reported p dev) (dkeys registers) in
      bind should_stop (\<lambda>s.
        if s then give \<lparr>vr_confirmed = [], vr_mismatched = [], vr_unobserved = sorted_set (dkeys registers),
          vr_invalid = [], vr_latest = []\<rparr>
        else bind request_dump (\<lambda>_.
          bind (\<lambda>w. observe_loop reportable (now w + timeout) (Observation registers dev dependencies LOAD_PATHS) w)
            (\<lambda>seen. give (result_of seen)))))"

section \<open>Problems\<close>

definition pinned :: "config \<Rightarrow> device option \<Rightarrow> string \<Rightarrow> bool" where
  "pinned c dev path = (policy_for path dev (cfg_policies c) = PIN)"

definition unconfirmed :: "verify_result \<Rightarrow> config \<Rightarrow> device option \<Rightarrow> string list \<Rightarrow> string list" where
  "unconfirmed result c dev retained = sort
     (filter (\<lambda>p. p \<notin> set retained \<and> pinned c dev p) (vr_mismatched result)
      @ filter (\<lambda>p. p \<notin> set retained \<and> pinned c dev p \<and> register_promptly_reported p dev) (vr_unobserved result))"

definition kept_by_the_device :: "verify_result \<Rightarrow> config \<Rightarrow> device option \<Rightarrow> string list \<Rightarrow> string list" where
  "kept_by_the_device result c dev retained = sort
     (filter (\<lambda>p. p \<notin> set (vr_invalid result) \<and> (p \<in> set retained \<or> \<not> pinned c dev p)) (vr_mismatched result))"

text \<open>\<open>_report\<close>, as far as it returns: the registers to re-send for.\<close>

definition report_problems :: "verify_result \<Rightarrow> config \<Rightarrow> device option \<Rightarrow> nat \<Rightarrow> string list res" where
  "report_problems result c dev attempt_no = rbind (desired c) (\<lambda>es.
     let linked = map en_path (filter (\<lambda>e. en_phase e = LINK \<and> args_eq (en_args e) [VInt 1]
           \<and> en_path e \<notin> set (vr_confirmed result)) es) in
     rbind (remembered_paths c (vr_latest result) linked) (\<lambda>retained.
     rbind (if attempt_no = 1 then overload (vr_latest result) else Ok None) (\<lambda>_.
       Ok (unconfirmed result c dev retained))))"

section \<open>Reconcile\<close>

definition link_paths :: "entry list \<Rightarrow> string list" where
  "link_paths es = map en_path (filter (\<lambda>e. en_phase e = LINK) es)"

definition read_back :: "config \<Rightarrow> (string, report) dict \<Rightarrow> ('x world, verify_result) action" where
  "read_back c registers =
     verify_routing registers VERIFY_TIMEOUT (device_for_name (cfg_device_name c)) (dependency_paths c)"

definition reconcile_now :: "config \<Rightarrow> (desk_world, bool) action" where
  "reconcile_now c = (let dev = device_for_name (cfg_device_name c) in
     bind (lift (expected_registers c)) (\<lambda>registers.
     bind (read_back c registers) (\<lambda>result.
     bind should_stop (\<lambda>s.
     if s then give False
     else bind (lift (remembered_paths c (vr_latest result) [])) (\<lambda>kept.
       bind (lift (report_problems result c dev 1)) (\<lambda>_.
       bind (lift (desired c)) (\<lambda>es.
       bind (apply_routing c [] (filter (\<lambda>p. p \<in> set (vr_mismatched result)) (link_paths es)) RECONCILE
               (vr_confirmed result) (Some (vr_latest result))) (\<lambda>_.
       bind (lift (protected_entries c kept (vr_confirmed result))) (\<lambda>protected.
         give (filter (\<lambda>p. (p \<in> set (vr_mismatched result) \<or> p \<in> set (vr_unobserved result))
                 \<and> pinned c dev p \<and> register_ever_reported p dev) protected = []))))))))))"

section \<open>Verify and repair\<close>





section \<open>What a read-back says\<close>








section \<open>What a verified routing means\<close>






section \<open>A desk verified\<close>




































end
