(* ===== verification/Watch.thy ===== *)
theory Watch
  imports Barrier Release
begin

text \<open>
  \<^verbatim>\<open>watch.py\<close>: one reader connection that asks for a reconcile when the device contradicts what the
  desk pins. The watcher is state beside the connection; what \<open>desk()\<close> answers, and whether
  \<open>forgive()\<close> was called before an answer, is read from a script, and the calls of \<open>request\<close> are
  logged with their time. One reading of the clock stands for the readings of one judgement: no
  blocking call lies between them. Log lines are not modelled.
\<close>

definition KNOWN_LIMIT :: nat where "KNOWN_LIMIT = 20000"

definition SLICE :: rat where "SLICE = 1 / 4"

definition METER :: string where "METER = ''meter''"

section \<open>Drift\<close>

definition drift_expected :: "device option \<Rightarrow> reg_write list \<Rightarrow> (string, report) dict" where
  "drift_expected dev writes = dupdate [] (map (\<lambda>w. (wr_path w, (wr_tags w, wr_args w)))
     (filter (\<lambda>w. wr_reason w \<noteq> PREREQUISITE \<and> verify_class_of dev (wr_path w) = Some VERIFIABLE) writes))"

definition drift :: "config \<Rightarrow> reports \<Rightarrow> reports \<Rightarrow> string list res" where
  "drift desk reports known =
     (let dev = device_for_name (cfg_device_name desk) in
      if dev = None \<or> reports = [] then Ok []
      else case application_plan desk RECONCILE [] [] known of
        Inl e \<Rightarrow> if e \<in> {ConfigError, DeviceAmbiguous, ValueError} then Ok [] else Raise e
      | Inr selected \<Rightarrow>
          rbind (absorb_all reports (Observation (drift_expected dev (pl_writes selected)) dev [] []))
            (\<lambda>seen. Ok (sorted_list_of_set (ob_mismatched seen - ob_invalid seen))))"

section \<open>Repeats\<close>

text \<open>Equality of configs: a setting compares as Python compares numbers, the policy map as a map.\<close>

definition same_values :: "('s \<Rightarrow> pyval) \<Rightarrow> ('s \<Rightarrow> 's) \<Rightarrow> 's list \<Rightarrow> 's list \<Rightarrow> bool" where
  "same_values val blank xs ys \<longleftrightarrow> list_all2 (\<lambda>x y. blank x = blank y \<and> py_eq (val x) (val y)) xs ys"

definition same_desk :: "config \<Rightarrow> config \<Rightarrow> bool" where
  "same_desk a b \<longleftrightarrow>
     a\<lparr>cfg_channels := [], cfg_globals := [], cfg_policies := []\<rparr> = b\<lparr>cfg_channels := [], cfg_globals := [], cfg_policies := []\<rparr>
     \<and> same_values cs_value (\<lambda>s. s\<lparr>cs_value := VBool True\<rparr>) (cfg_channels a) (cfg_channels b)
     \<and> same_values gs_value (\<lambda>s. s\<lparr>gs_value := VBool True\<rparr>) (cfg_globals a) (cfg_globals b)
     \<and> list_all (\<lambda>k. dget (cfg_policies a) k = dget (cfg_policies b) k) (dkeys (cfg_policies a) @ dkeys (cfg_policies b))"

record repeats =
  rp_times :: "(string, rat list) dict"
  rp_desk :: "config option"
  rp_left :: "string list"

definition NO_REPEATS :: repeats where
  "NO_REPEATS = \<lparr>rp_times = [], rp_desk = None, rp_left = []\<rparr>"

definition forgive_repeats :: "repeats \<Rightarrow> repeats" where
  "forgive_repeats r = r\<lparr>rp_times := [], rp_left := []\<rparr>"

definition recent :: "rat \<Rightarrow> rat list \<Rightarrow> rat list" where
  "recent t past = filter (\<lambda>then'. t - then' < WATCH_REPEAT_WINDOW) past"

fun admit_paths :: "string list \<Rightarrow> rat \<Rightarrow> repeats \<Rightarrow> string list \<times> repeats" where
  "admit_paths [] t r = ([], r)"
| "admit_paths (path # rest) t r =
     (if path \<in> set (rp_left r) then admit_paths rest t r
      else let past = recent t (case dget (rp_times r) path of None \<Rightarrow> [] | Some ts \<Rightarrow> ts) in
        if WATCH_REPEATS \<le> length past then admit_paths rest t (r\<lparr>rp_left := path # rp_left r\<rparr>)
        else let (admitted, r') = admit_paths rest t (r\<lparr>rp_times := dset path (past @ [t]) (rp_times r)\<rparr>)
          in (path # admitted, r'))"

definition admit :: "config \<Rightarrow> string list \<Rightarrow> rat \<Rightarrow> repeats \<Rightarrow> string list \<times> repeats" where
  "admit desk paths t r = admit_paths paths t
     (if (case rp_desk r of None \<Rightarrow> True | Some d \<Rightarrow> \<not> same_desk desk d)
      then (forgive_repeats r)\<lparr>rp_desk := Some desk\<rparr> else r)"

section \<open>The watcher\<close>

record watch =
  wt_repeats :: repeats
  wt_known :: reports
  wt_pending :: reports
  wt_first :: "rat option"
  wt_last :: rat
  wt_forgiven :: bool
  wt_requests :: "(rat \<times> string list) list"

definition Watch :: watch where
  "Watch = \<lparr>wt_repeats = NO_REPEATS, wt_known = [], wt_pending = [], wt_first = None, wt_last = 0,
     wt_forgiven = False, wt_requests = []\<rparr>"

text \<open>\<open>_absorb\<close>.\<close>

definition registers_in :: "message list \<Rightarrow> message list" where
  "registers_in reports = filter (\<lambda>(path, _). last (segments path) \<noteq> METER) reports"

definition learn :: "message \<Rightarrow> reports \<Rightarrow> reports" where
  "learn m known = (case m of (path, rep) \<Rightarrow>
     if path \<in> set (dkeys known) \<or> length known < KNOWN_LIMIT then dset path rep known else known)"

definition watch_absorb :: "message list \<Rightarrow> bool \<Rightarrow> rat \<Rightarrow> watch \<Rightarrow> watch" where
  "watch_absorb reports owned t w =
     (let w = (if owned then w\<lparr>wt_pending := [], wt_first := None\<rparr> else w);
          registers = registers_in reports;
          w = w\<lparr>wt_known := fold learn registers (wt_known w)\<rparr>;
          w = (if owned then w else w\<lparr>wt_pending := dupdate (wt_pending w) registers\<rparr>)
      in if registers \<noteq> [] \<and> \<not> owned
         then w\<lparr>wt_first := Some (case wt_first w of None \<Rightarrow> t | Some first \<Rightarrow> first), wt_last := t\<rparr> else w)"

text \<open>\<open>_settled\<close>.\<close>

definition watch_settled :: "rat \<Rightarrow> watch \<Rightarrow> bool" where
  "watch_settled t w \<longleftrightarrow> WATCH_SETTLE \<le> t - wt_last w
     \<or> WATCH_LONGEST \<le> t - (case wt_first w of None \<Rightarrow> t | Some first \<Rightarrow> first)"

text \<open>\<open>_judge\<close>: whether to go on, and the watcher after it.\<close>

definition watch_judge :: "config option \<Rightarrow> rat \<Rightarrow> watch \<Rightarrow> (bool \<times> watch) res" where
  "watch_judge desk t w =
     (let pending = wt_pending w; w = w\<lparr>wt_pending := [], wt_first := None\<rparr> in
      case desk of
        None \<Rightarrow> Ok (True, w)
      | Some d \<Rightarrow>
          if cfg_enforce d \<noteq> ''watch'' then Ok (False, w)
          else let w = (if wt_forgiven w
                 then w\<lparr>wt_forgiven := False, wt_repeats := forgive_repeats (wt_repeats w)\<rparr> else w)
            in rbind (drift d pending (wt_known w)) (\<lambda>paths.
               let (admitted, r) = admit d paths t (wt_repeats w); w = w\<lparr>wt_repeats := r\<rparr>
               in Ok (True, if admitted = [] then w else w\<lparr>wt_requests := wt_requests w @ [(t, admitted)]\<rparr>)))"

section \<open>Serving a connection\<close>

record watcher =
  wx_watch :: watch
  wx_answers :: "(config option \<times> bool) list"

type_synonym watch_world = "watcher world"

text \<open>What the next \<open>desk()\<close> answers; an exhausted script has no usable desk.\<close>

definition next_answer :: "watcher \<Rightarrow> (config option \<times> bool) \<times> watcher" where
  "next_answer x = (case wx_answers x of [] \<Rightarrow> ((None, False), x) | a # rest \<Rightarrow> (a, x\<lparr>wx_answers := rest\<rparr>))"

text \<open>The body of the loop of \<open>_serve\<close> after a receive.\<close>

definition watch_slice :: "message list \<Rightarrow> (watch_world, bool) action" where
  "watch_slice reports v =
     (let w = watch_absorb reports (ct_lease_held (control v)) (now v) (wx_watch (beside v));
          x = (beside v)\<lparr>wx_watch := w\<rparr>
      in if wt_pending w \<noteq> [] \<and> watch_settled (now v) w
         then let ((desk, forgave), y) = next_answer x in
           case watch_judge desk (now v) (w\<lparr>wt_forgiven := wt_forgiven w \<or> forgave\<rparr>) of
             Inl e \<Rightarrow> (Raise e, v\<lparr>beside := y\<rparr>)
           | Inr (goes_on, u) \<Rightarrow> (Ok goes_on, v\<lparr>beside := y\<lparr>wx_watch := u\<rparr>\<rparr>)
         else (Ok True, v\<lparr>beside := x\<rparr>))"

text \<open>\<open>_serve\<close>; it may watch for ever, and is None then.\<close>

partial_function (option) serve :: "watch_world \<Rightarrow> (unit res \<times> watch_world) option" where
  "serve w = (case should_stop w of (s, v) \<Rightarrow>
     if s = Ok True then Some (Ok (), v)
     else case messages SLICE v of
       (Inl e, u) \<Rightarrow> Some (Raise e, u)
     | (Inr reports, u) \<Rightarrow> (case watch_slice reports u of
         (Inl e, t) \<Rightarrow> Some (Raise e, t)
       | (Inr goes_on, t) \<Rightarrow> if goes_on then serve t else Some (Ok (), t)))"

definition is_control_error :: "exc \<Rightarrow> bool" where
  "is_control_error e = (case e of BackendControlError _ \<Rightarrow> True | _ \<Rightarrow> False)"

text \<open>\<open>run\<close>, with the connecting as an argument; a connection is closed whatever serving it did.\<close>

partial_function (option) watch_run ::
    "(watch_world \<Rightarrow> unit res \<times> watch_world) \<Rightarrow> nat \<Rightarrow> watch_world \<Rightarrow> (unit res \<times> watch_world) option" where
  "watch_run connection failures w =
     (if WATCH_CONNECTIONS \<le> failures then Some (Ok (), w)
      else case should_stop w of (s, v) \<Rightarrow>
        if s = Ok True then Some (Ok (), v)
        else case connection v of
          (Inl e, u) \<Rightarrow> if is_os_error e then watch_run connection (failures + 1) u else Some (Raise e, u)
        | (Inr _, u) \<Rightarrow> Option.bind (serve u) (\<lambda>(r, t).
            case r of
              Inr _ \<Rightarrow> Some (Ok (), snd (close_control t))
            | Inl e \<Rightarrow>
                if \<not> is_control_error e then Some (Raise e, snd (close_control t))
                else case should_stop t of (s, x) \<Rightarrow>
                  if s = Ok True then Some (Ok (), snd (close_control x))
                  else watch_run connection (if WATCH_LONGEST \<le> now x - now v then 1 else failures + 1)
                         (snd (close_control x))))"

section \<open>What serving keeps\<close>

lemma stop_frame: "should_stop w = (s, v) \<Longrightarrow> beside v = beside w \<and> now v = now w \<and> reported v = reported w"
  by (auto simp: should_stop_def split: list.splits)

lemma messages_failed:
  assumes "messages t w = (Raise e, v)"
  shows "beside v = beside w \<and> reported v = reported w \<and> now w \<le> now v"
proof -
  let ?rest = "\<lambda>x. case x of None \<Rightarrow> give [] | Some dl \<Rightarrow>
         if dl_origin dl \<noteq> SRC_DEVICE then give []
         else bind (case decode_delivery (dl_payload dl) of
             Inl e \<Rightarrow> if e = ValueError then protocol_error else fail e
           | Inr ms \<Rightarrow> give ms) (\<lambda>ms. bind (note_reported ms) (\<lambda>_. give ms))"
  obtain x u where n: "next_delivery t w = (x, u)" by (cases "next_delivery t w")
  have u: "beside u = beside w \<and> reported u = reported w \<and> now w \<le> now u"
    using keepsD [OF noreport.keeps_delivery n] keepsD [OF lt.keeps_delivery n] by (simp add: unreported_def later_def)
  show ?thesis
  proof (cases x)
    case (Inl _)
    with assms n u show ?thesis by (simp add: messages_def bind_def)
  next
    case (Inr dl)
    with assms n have "?rest dl u = (Raise e, v)" by (simp add: messages_def bind_def)
    then have "beside v = beside u \<and> reported v = reported u \<and> now v = now u"
      by (auto simp: run_simps protocol_error_def note_reported_def bind_def split: option.splits if_splits sum.splits)
    with u show ?thesis by simp
  qed
qed

lemma messages_later:
  assumes "messages t w = (Ok ms, v)"
  shows "now w \<le> now v"
proof -
  have "keeps later (messages t :: ('x world, message list) action)" for t
    by (rule lt.keeps_messages, rule keepsI) (auto simp: note_reported_def run_simps later_def)
  from keepsD [OF this assms] show ?thesis by (simp add: later_def)
qed

lemma serve_invariant:
  assumes "serve w = Some (r, v)" and "I w"
    and stop: "\<And>w s v. I w \<Longrightarrow> should_stop w = (s, v) \<Longrightarrow> I v"
    and failed: "\<And>w e v. I w \<Longrightarrow> messages SLICE w = (Raise e, v) \<Longrightarrow> I v"
    and slice: "\<And>w ms u. I w \<Longrightarrow> messages SLICE w = (Ok ms, u) \<Longrightarrow> I (snd (watch_slice ms u))"
  shows "I v"
proof -
  have "I w \<longrightarrow> I (snd (r, v))"
  proof (rule serve.raw_induct [where P = "\<lambda>w y. I w \<longrightarrow> I (snd y)", OF _ assms(1)], rule impI)
    fix serve w y
    assume step: "\<And>w y. serve w = Some y \<Longrightarrow> I w \<longrightarrow> I (snd y)" and "I w"
      and run: "(case should_stop w of (s, v) \<Rightarrow>
        if s = Ok True then Some (Ok (), v)
        else case messages SLICE v of
          (Inl e, u) \<Rightarrow> Some (Raise e, u)
        | (Inr reports, u) \<Rightarrow> (case watch_slice reports u of
            (Inl e, t) \<Rightarrow> Some (Raise e, t)
          | (Inr goes_on, t) \<Rightarrow> if goes_on then serve t else Some (Ok (), t))) = Some y"
    obtain s u where s: "should_stop w = (s, u)" by (cases "should_stop w")
    have u: "I u" by (rule stop [OF \<open>I w\<close> s])
    obtain m x where m: "messages SLICE u = (m, x)" by (cases "messages SLICE u")
    show "I (snd y)"
    proof (cases "s = Ok True")
      case True
      with run s u show ?thesis by auto
    next
      case False
      show ?thesis
      proof (cases m)
        case (Inl e)
        with run s m False have "y = (Raise e, x)" by simp
        with failed [OF u m [unfolded Inl]] show ?thesis by simp
      next
        case (Inr ms)
        obtain q t where t: "watch_slice ms x = (q, t)" by (cases "watch_slice ms x")
        have it: "I t" using slice [OF u m [unfolded Inr]] t by simp
        show ?thesis
        proof (cases "q = Ok True")
          case True
          with run s m False Inr t have "serve t = Some y" by simp
          then show ?thesis using it step by blast
        next
          case no: False
          with run s m False Inr t have "snd y = t" by (auto split: sum.splits if_splits)
          with it show ?thesis by simp
        qed
      qed
    qed
  qed
  with assms(2) show ?thesis by simp
qed

section \<open>What a slice may add\<close>

lemma admit_subset: "admit d paths t r = (admitted, r') \<Longrightarrow> set admitted \<subseteq> set paths"
proof -
  have "admit_paths ps t s = (adm, s') \<Longrightarrow> set adm \<subseteq> set ps" for ps s adm s'
    by (induction ps t s arbitrary: adm s' rule: admit_paths.induct)
      (auto simp: Let_def split: if_splits prod.splits, blast+)
  then show "admit d paths t r = (admitted, r') \<Longrightarrow> set admitted \<subseteq> set paths" unfolding admit_def by blast
qed

lemma judge_effect:
  assumes "watch_judge desk t w = Ok (goes_on, v)"
  shows "wt_pending v = [] \<and> (wt_requests v = wt_requests w
    \<or> (\<exists>d paths admitted. desk = Some d \<and> cfg_enforce d = ''watch'' \<and> drift d (wt_pending w) (wt_known w) = Ok paths
         \<and> set admitted \<subseteq> set paths \<and> wt_requests v = wt_requests w @ [(t, admitted)]))"
proof (cases "\<exists>d. desk = Some d \<and> cfg_enforce d = ''watch''")
  case False
  then show ?thesis using assms by (auto simp: watch_judge_def Let_def split: option.splits)
next
  case True
  then obtain d where d: "desk = Some d" "cfg_enforce d = ''watch''" by blast
  define x where "x = (let x = w\<lparr>wt_pending := [], wt_first := None\<rparr> in
      if wt_forgiven w then x\<lparr>wt_forgiven := False, wt_repeats := forgive_repeats (wt_repeats w)\<rparr> else x)"
  have x: "wt_pending x = []" "wt_requests x = wt_requests w" by (simp_all add: x_def Let_def)
  have run: "watch_judge desk t w = rbind (drift d (wt_pending w) (wt_known w)) (\<lambda>paths.
      let (admitted, r) = admit d paths t (wt_repeats x); x = x\<lparr>wt_repeats := r\<rparr>
      in Ok (True, if admitted = [] then x else x\<lparr>wt_requests := wt_requests x @ [(t, admitted)]\<rparr>))"
    using d by (simp add: watch_judge_def Let_def x_def cong: if_cong)
  obtain paths where paths: "drift d (wt_pending w) (wt_known w) = Ok paths"
    using assms unfolding run by (auto simp: rbind_Ok_iff)
  obtain admitted r where adm: "admit d paths t (wt_repeats x) = (admitted, r)" by (metis surj_pair)
  have v: "v = (if admitted = [] then x\<lparr>wt_repeats := r\<rparr>
      else x\<lparr>wt_repeats := r, wt_requests := wt_requests x @ [(t, admitted)]\<rparr>)"
    using assms unfolding run by (simp add: paths adm Let_def cong: if_cong)
  show ?thesis
  proof (cases "admitted = []")
    case True
    then show ?thesis by (simp add: v x)
  next
    case False
    then have "wt_pending v = []" "wt_requests v = wt_requests w @ [(t, admitted)]" by (simp_all add: v x)
    with d paths admit_subset [OF adm] show ?thesis by blast
  qed
qed

text \<open>A slice consults the desk at most once, and asks for at most one reconcile.\<close>

lemma slice_effect:
  fixes ms and u :: watch_world
  defines "w \<equiv> watch_absorb ms (ct_lease_held (control u)) (now u) (wx_watch (beside u))"
  assumes "watch_slice ms u = (q, v)"
  shows "now v = now u \<and> reported v = reported u
    \<and> set (wx_answers (beside v)) \<subseteq> set (wx_answers (beside u))
    \<and> wt_pending (wx_watch (beside v)) \<in> {[], wt_pending w}
    \<and> (wt_requests (wx_watch (beside v)) = wt_requests (wx_watch (beside u))
       \<or> (\<exists>d paths admitted. Some d \<in> fst ` set (wx_answers (beside u)) \<and> cfg_enforce d = ''watch''
            \<and> drift d (wt_pending w) (wt_known w) = Ok paths \<and> set admitted \<subseteq> set paths
            \<and> wt_requests (wx_watch (beside v)) = wt_requests (wx_watch (beside u)) @ [(now u, admitted)]))"
proof -
  have requests: "wt_requests w = wt_requests (wx_watch (beside u))" by (simp add: w_def watch_absorb_def Let_def)
  obtain desk forgave y where next': "next_answer ((beside u)\<lparr>wx_watch := w\<rparr>) = ((desk, forgave), y)"
    by (metis surj_pair)
  then have y: "wx_watch y = w" "set (wx_answers y) \<subseteq> set (wx_answers (beside u))"
      "desk = None \<or> desk \<in> fst ` set (wx_answers (beside u))"
    by (force simp: next_answer_def split: list.splits)+
  let ?w = "w\<lparr>wt_forgiven := wt_forgiven w \<or> forgave\<rparr>"
  show ?thesis
  proof (cases "wt_pending w \<noteq> [] \<and> watch_settled (now u) w")
    case False
    then have "watch_slice ms u = (Ok True, u\<lparr>beside := (beside u)\<lparr>wx_watch := w\<rparr>\<rparr>)"
      unfolding watch_slice_def Let_def w_def by (rule if_not_P)
    with assms requests show ?thesis by auto
  next
    case True
    then have run: "watch_slice ms u = (case watch_judge desk (now u) ?w of
        Inl e \<Rightarrow> (Raise e, u\<lparr>beside := y\<rparr>) | Inr (goes_on, v) \<Rightarrow> (Ok goes_on, u\<lparr>beside := y\<lparr>wx_watch := v\<rparr>\<rparr>))"
      by (simp add: watch_slice_def Let_def w_def [symmetric] next')
    show ?thesis
    proof (cases "watch_judge desk (now u) ?w")
      case (Inl e)
      with y requests assms run show ?thesis by auto
    next
      case (Inr res)
      obtain goes_on z where res: "res = (goes_on, z)" by (cases res)
      then have v: "v = u\<lparr>beside := y\<lparr>wx_watch := z\<rparr>\<rparr>" using Inr assms run by simp
      note eff = judge_effect [OF Inr [unfolded res]]
      show ?thesis
      proof (cases "wt_requests z = wt_requests w")
        case True
        with eff y requests show ?thesis by (simp add: v)
      next
        case False
        with eff obtain d paths admitted where one: "desk = Some d" "cfg_enforce d = ''watch''"
            "drift d (wt_pending w) (wt_known w) = Ok paths" "set admitted \<subseteq> set paths"
            "wt_requests z = wt_requests w @ [(now u, admitted)]" by auto
        moreover have "Some d \<in> fst ` set (wx_answers (beside u))" using y(3) one(1) by simp
        ultimately show ?thesis using eff y(2) requests unfolding v by auto
      qed
    qed
  qed
qed

lemma requests_extend:
  assumes "serve w = Some (r, v)" and "wt_requests (wx_watch (beside w)) = old"
  shows "\<exists>new. wt_requests (wx_watch (beside v)) = old @ new"
proof (rule serve_invariant [OF assms(1), where I = "\<lambda>w. \<exists>new. wt_requests (wx_watch (beside w)) = old @ new"])
  show "\<exists>new. wt_requests (wx_watch (beside w)) = old @ new" using assms(2) by simp
next
  fix w u :: watch_world and ms assume new: "\<exists>new. wt_requests (wx_watch (beside w)) = old @ new" "messages SLICE w = (Ok ms, u)"
  obtain q v where v: "watch_slice ms u = (q, v)" by (cases "watch_slice ms u")
  show "\<exists>new. wt_requests (wx_watch (beside (snd (watch_slice ms u)))) = old @ new"
    using slice_effect [OF v] new messages_beside [OF new(2)] by (auto simp: v)
qed (auto dest: stop_frame messages_failed)

section \<open>How often a register is asked for\<close>

definition past_of :: "repeats \<Rightarrow> string \<Rightarrow> rat list" where
  "past_of r path = (case dget (rp_times r) path of None \<Rightarrow> [] | Some ts \<Rightarrow> ts)"

lemma recent_recent: "t \<le> u \<Longrightarrow> recent u (recent t xs) = recent u xs"
  by (induction xs) (auto simp: recent_def)

lemma recent_append: "recent t (xs @ ys) = recent t xs @ recent t ys"
  by (simp add: recent_def)

lemma admit_paths_effect:
  assumes "admit_paths paths t r = (admitted, r')" and "distinct paths"
  shows "rp_desk r' = rp_desk r \<and> set admitted \<subseteq> set paths
    \<and> (\<forall>p. past_of r' p = (if p \<in> set admitted then recent t (past_of r p) @ [t] else past_of r p))
    \<and> (\<forall>p \<in> set admitted. length (recent t (past_of r p)) < WATCH_REPEATS)"
  using assms
proof (induction paths t r arbitrary: admitted r' rule: admit_paths.induct)
  case (2 path rest t r)
  let ?past = "recent t (past_of r path)"
  have fold_past: "recent t (case dget (rp_times r) path of None \<Rightarrow> [] | Some ts \<Rightarrow> ts) = ?past" by (simp add: past_of_def)
  consider (left) "path \<in> set (rp_left r)" | (full) "path \<notin> set (rp_left r)" "WATCH_REPEATS \<le> length ?past"
    | (admit) "path \<notin> set (rp_left r)" "length ?past < WATCH_REPEATS" by linarith
  then show ?case
  proof cases
    case left
    with 2(1) [OF left] 2(4,5) show ?thesis by auto
  next
    case full
    then have "admit_paths rest t (r\<lparr>rp_left := path # rp_left r\<rparr>) = (admitted, r')"
      using 2(4) by (simp add: fold_past Let_def)
    from 2(2) [OF full(1) refl _ this] full(2) 2(5)
    have "rp_desk r' = rp_desk r \<and> set admitted \<subseteq> set rest
      \<and> (\<forall>p. past_of r' p = (if p \<in> set admitted then recent t (past_of r p) @ [t] else past_of r p))
      \<and> (\<forall>p \<in> set admitted. length (recent t (past_of r p)) < WATCH_REPEATS)"
      by (simp add: fold_past) (simp add: past_of_def)
    then show ?thesis by auto
  next
    case admit
    let ?next = "r\<lparr>rp_times := dset path (?past @ [t]) (rp_times r)\<rparr>"
    obtain more' where more': "admit_paths rest t ?next = (more', r')" "admitted = path # more'"
      using 2(4) admit by (auto simp: fold_past Let_def split: prod.splits)
    have IH: "rp_desk r' = rp_desk ?next \<and> set more' \<subseteq> set rest
      \<and> (\<forall>p. past_of r' p = (if p \<in> set more' then recent t (past_of ?next p) @ [t] else past_of ?next p))
      \<and> (\<forall>p \<in> set more'. length (recent t (past_of ?next p)) < WATCH_REPEATS)"
      using 2(3) [OF admit(1) refl] admit(2) more'(1) 2(5) by (simp add: fold_past not_le)
    have past: "past_of ?next p = (if p = path then ?past @ [t] else past_of r p)" for p
      by (simp add: past_of_def dict_simps)
    have fresh: "path \<notin> set more'" using IH 2(5) by auto
    have few: "length (recent t (past_of r p)) < WATCH_REPEATS" if p: "p \<in> set more'" for p
    proof -
      have "length (recent t (past_of ?next p)) < WATCH_REPEATS" using IH p by blast
      moreover have "p \<noteq> path" using p fresh by blast
      ultimately show ?thesis unfolding past by simp
    qed
    from fresh few IH [unfolded past] show ?thesis using admit(2) more'(2) by auto
  qed
qed simp

definition asked :: "string \<Rightarrow> (rat \<times> string list) list \<Rightarrow> rat list" where
  "asked path requests = map fst (filter (\<lambda>(_, paths). path \<in> set paths) requests)"

text \<open>How many of some times lie in the \<open>WATCH_REPEAT_WINDOW\<close> seconds up to a time.\<close>

definition requested_within :: "rat \<Rightarrow> rat list \<Rightarrow> nat" where
  "requested_within t moments = length (filter (\<lambda>s. s \<le> t) (recent t moments))"

lemma asked_snoc: "asked path (rs @ [(t, ps)]) = asked path rs @ (if path \<in> set ps then [t] else [])"
  by (simp add: asked_def)

lemma requested_snoc:
  assumes "\<forall>s \<in> set xs. s \<le> t" and "length (recent t xs) < WATCH_REPEATS" and "requested_within u xs \<le> WATCH_REPEATS"
  shows "requested_within u (xs @ [t]) \<le> WATCH_REPEATS"
proof (cases "t \<le> u")
  case True
  have "recent u xs = recent u (recent t xs)" using True by (simp add: recent_recent)
  also have "length \<dots> \<le> length (recent t xs)" unfolding recent_def [of u] by (rule length_filter_le)
  finally have "requested_within u xs < WATCH_REPEATS"
    using assms(2) by (simp add: requested_within_def) (meson le_less_trans length_filter_le)
  moreover have "requested_within u (xs @ [t]) \<le> requested_within u xs + 1" by (simp add: requested_within_def recent_append) (simp add: recent_def)
  ultimately show ?thesis by simp
next
  case False
  then have "requested_within u (xs @ [t]) = requested_within u xs" by (simp add: requested_within_def recent_append) (simp add: recent_def)
  with assms(3) show ?thesis by simp
qed

text \<open>The account of the repeats: what they remember of every request so far, and how many there were.\<close>

definition accounted_at :: "rat \<Rightarrow> repeats \<Rightarrow> (rat \<times> string list) list \<Rightarrow> bool" where
  "accounted_at t r requests \<longleftrightarrow> (\<forall>path. (\<forall>s \<in> set (asked path requests). s \<le> t)
     \<and> (\<forall>u \<ge> t. recent u (past_of r path) = recent u (asked path requests))
     \<and> (\<forall>u. requested_within u (asked path requests) \<le> WATCH_REPEATS))"

lemma accounted_later: "accounted_at t r rs \<Longrightarrow> t \<le> u \<Longrightarrow> accounted_at u r rs"
  unfolding accounted_at_def by (meson order_trans)

lemma admit_accounted:
  assumes "accounted_at t r rs" and "admit_paths paths t r = (admitted, r')" and "distinct paths"
  shows "accounted_at t r' (if admitted = [] then rs else rs @ [(t, admitted)])"
proof -
  note eff = admit_paths_effect [OF assms(2,3)]
  have "accounted_at t r' (rs @ [(t, admitted)])"
    unfolding accounted_at_def
  proof (intro allI conjI)
    fix path
    have old: "\<forall>s \<in> set (asked path rs). s \<le> t" "\<And>u. t \<le> u \<Longrightarrow> recent u (past_of r path) = recent u (asked path rs)"
      "\<And>u. requested_within u (asked path rs) \<le> WATCH_REPEATS"
      using assms(1) unfolding accounted_at_def by blast+
    show "\<forall>s \<in> set (asked path (rs @ [(t, admitted)])). s \<le> t" using old(1) by (auto simp: asked_snoc)
    show "t \<le> u \<longrightarrow> recent u (past_of r' path) = recent u (asked path (rs @ [(t, admitted)]))" for u
      using eff old(2) by (simp add: asked_snoc recent_append recent_recent) (simp add: recent_def)
    show "requested_within u (asked path (rs @ [(t, admitted)])) \<le> WATCH_REPEATS" for u
    proof (cases "path \<in> set admitted")
      case True
      then have "length (recent t (past_of r path)) < WATCH_REPEATS" using eff by blast
      then have "length (recent t (asked path rs)) < WATCH_REPEATS" using old(2) [of t] by simp
      with True show ?thesis using requested_snoc [OF old(1) _ old(3)] by (simp add: asked_snoc)
    next
      case False
      with old(3) show ?thesis by (simp add: asked_snoc)
    qed
  qed
  moreover have "accounted_at t r' rs" if "admitted = []"
    using eff assms(1) that unfolding accounted_at_def by simp
  ultimately show ?thesis by simp
qed

text \<open>The repeats know no desk and no request, or one of the desks.\<close>

definition desk_among :: "config set \<Rightarrow> repeats \<Rightarrow> (rat \<times> string list) list \<Rightarrow> bool" where
  "desk_among D r requests \<longleftrightarrow> (case rp_desk r of None \<Rightarrow> requests = [] | Some d \<Rightarrow> d \<in> D)"

text \<open>The same of a whole watcher, from request number \<open>base\<close> on and for one desk.\<close>

definition counted :: "config set \<Rightarrow> nat \<Rightarrow> watch_world \<Rightarrow> bool" where
  "counted D base w \<longleftrightarrow> (let x = wx_watch (beside w) in
     base \<le> length (wt_requests x) \<and> \<not> wt_forgiven x
     \<and> accounted_at (now w) (wt_repeats x) (drop base (wt_requests x))
     \<and> (desk_among D (wt_repeats x) (drop base (wt_requests x)))
     \<and> (\<forall>(a, forgave) \<in> set (wx_answers (beside w)). \<not> forgave \<and> (case a of None \<Rightarrow> True | Some d \<Rightarrow> d \<in> D)))"

lemma accounted_nothing: "accounted_at t r [] \<Longrightarrow> accounted_at t ((forgive_repeats r)\<lparr>rp_desk := Some d\<rparr>) []"
  by (simp add: accounted_at_def asked_def past_of_def forgive_repeats_def)

lemma counted_moved: "counted D base w \<Longrightarrow> beside v = beside w \<Longrightarrow> now w \<le> now v \<Longrightarrow> counted D base v"
  unfolding counted_def Let_def by (auto intro: accounted_later)

lemma drift_distinct: "drift d reports known = Ok paths \<Longrightarrow> distinct paths"
  by (auto simp: drift_def Let_def rbind_Ok_iff split: if_splits sum.splits)

lemma admit_counted:
  assumes same: "\<And>a b. a \<in> D \<Longrightarrow> b \<in> D \<Longrightarrow> same_desk a b" and "d \<in> D"
    and acc: "accounted_at t r rs" "desk_among D r rs"
    and run: "admit d paths t r = (admitted, r')" "distinct paths"
  shows "accounted_at t r' (if admitted = [] then rs else rs @ [(t, admitted)]) \<and> (\<exists>d' \<in> D. rp_desk r' = Some d')"
proof -
  let ?r = "if (case rp_desk r of None \<Rightarrow> True | Some d' \<Rightarrow> \<not> same_desk d d')
      then (forgive_repeats r)\<lparr>rp_desk := Some d\<rparr> else r"
  have "accounted_at t ?r rs \<and> (\<exists>d' \<in> D. rp_desk ?r = Some d')"
    using acc \<open>d \<in> D\<close> same [OF \<open>d \<in> D\<close>] accounted_nothing by (auto simp: desk_among_def split: option.splits)
  then show ?thesis
    using admit_accounted [OF _ run(1) [unfolded admit_def] run(2)] admit_paths_effect [OF run(1) [unfolded admit_def] run(2)]
    by metis
qed

lemma judge_counted:
  assumes same: "\<And>a b. a \<in> D \<Longrightarrow> b \<in> D \<Longrightarrow> same_desk a b"
    and desk: "case desk of None \<Rightarrow> True | Some d \<Rightarrow> d \<in> D"
    and w: "base \<le> length (wt_requests w)" "\<not> wt_forgiven w" "accounted_at t (wt_repeats w) (drop base (wt_requests w))"
      "desk_among D (wt_repeats w) (drop base (wt_requests w))"
    and run: "watch_judge desk t w = Ok (goes_on, v)"
  shows "base \<le> length (wt_requests v) \<and> \<not> wt_forgiven v \<and> accounted_at t (wt_repeats v) (drop base (wt_requests v))
    \<and> (desk_among D (wt_repeats v) (drop base (wt_requests v)))"
proof (cases "case desk of None \<Rightarrow> False | Some d \<Rightarrow> cfg_enforce d = ''watch''")
  case False
  then have "v = w\<lparr>wt_pending := [], wt_first := None\<rparr>"
    using run by (auto simp: watch_judge_def Let_def split: option.splits)
  with w show ?thesis by simp
next
  case True
  then obtain d where d: "desk = Some d" "cfg_enforce d = ''watch''" by (auto split: option.splits)
  have calm: "watch_judge desk t w = rbind (drift d (wt_pending w) (wt_known w)) (\<lambda>paths.
      let (admitted, r) = admit d paths t (wt_repeats w); x = w\<lparr>wt_pending := [], wt_first := None, wt_repeats := r\<rparr>
      in Ok (True, if admitted = [] then x else x\<lparr>wt_requests := wt_requests w @ [(t, admitted)]\<rparr>))"
    using d w(2) by (simp add: watch_judge_def Let_def cong: if_cong)
  obtain paths where paths: "drift d (wt_pending w) (wt_known w) = Ok paths"
    using run unfolding calm by (auto simp: rbind_Ok_iff)
  obtain admitted r where adm: "admit d paths t (wt_repeats w) = (admitted, r)" by (metis surj_pair)
  have v: "v = (let x = w\<lparr>wt_pending := [], wt_first := None, wt_repeats := r\<rparr>
        in if admitted = [] then x else x\<lparr>wt_requests := wt_requests w @ [(t, admitted)]\<rparr>)"
    using run unfolding calm by (simp add: paths adm Let_def)
  have "d \<in> D" using desk d by simp
  from admit_counted [OF same this w(3,4) adm drift_distinct [OF paths]] obtain d' where
    "accounted_at t r (if admitted = [] then drop base (wt_requests w) else drop base (wt_requests w) @ [(t, admitted)])"
    "d' \<in> D" "rp_desk r = Some d'" by blast
  with w(1,2) show ?thesis by (auto simp: v Let_def desk_among_def)
qed

lemma slice_counted:
  assumes same: "\<And>a b. a \<in> D \<Longrightarrow> b \<in> D \<Longrightarrow> same_desk a b" and "counted D base u"
  shows "counted D base (snd (watch_slice ms u))"
proof -
  let ?w = "watch_absorb ms (ct_lease_held (control u)) (now u) (wx_watch (beside u))"
  have w: "base \<le> length (wt_requests ?w)" "\<not> wt_forgiven ?w" "accounted_at (now u) (wt_repeats ?w) (drop base (wt_requests ?w))"
      "desk_among D (wt_repeats ?w) (drop base (wt_requests ?w))"
    and ans: "\<forall>(a, forgave) \<in> set (wx_answers (beside u)). \<not> forgave \<and> (case a of None \<Rightarrow> True | Some d \<Rightarrow> d \<in> D)"
    using assms(2) by (simp_all add: counted_def watch_absorb_def Let_def)
  obtain desk forgave y where next': "next_answer ((beside u)\<lparr>wx_watch := ?w\<rparr>) = ((desk, forgave), y)"
    by (metis surj_pair)
  then have y: "\<not> forgave" "case desk of None \<Rightarrow> True | Some d \<Rightarrow> d \<in> D" "wx_watch y = ?w"
      "\<forall>(a, forgave) \<in> set (wx_answers y). \<not> forgave \<and> (case a of None \<Rightarrow> True | Some d \<Rightarrow> d \<in> D)"
    using ans by (auto simp: next_answer_def split: list.splits)
  have same_w: "?w\<lparr>wt_forgiven := wt_forgiven ?w \<or> forgave\<rparr> = ?w" using w(2) y(1) by simp
  show ?thesis
  proof (cases "wt_pending ?w \<noteq> [] \<and> watch_settled (now u) ?w")
    case False
    then have "watch_slice ms u = (Ok True, u\<lparr>beside := (beside u)\<lparr>wx_watch := ?w\<rparr>\<rparr>)"
      unfolding watch_slice_def Let_def by (rule if_not_P)
    with w ans show ?thesis by (simp add: counted_def Let_def)
  next
    case True
    then have run: "watch_slice ms u = (case watch_judge desk (now u) ?w of
        Inl e \<Rightarrow> (Raise e, u\<lparr>beside := y\<rparr>) | Inr (goes_on, v) \<Rightarrow> (Ok goes_on, u\<lparr>beside := y\<lparr>wx_watch := v\<rparr>\<rparr>))"
      by (simp add: watch_slice_def Let_def next' same_w)
    show ?thesis
    proof (cases "watch_judge desk (now u) ?w")
      case (Inl e)
      with w y show ?thesis by (simp add: run counted_def Let_def)
    next
      case (Inr res)
      obtain goes_on v where res: "res = (goes_on, v)" by (cases res)
      from judge_counted [OF same y(2) w Inr [unfolded res]] y(4) show ?thesis
        by (simp add: run Inr res counted_def Let_def)
    qed
  qed
qed

text \<open>
  C37. A register the device keeps setting back is not fought over: while the desk in effect stays
  the same and no reload forgives, serving a connection -- however long it lasts, whatever is
  reported and however it ends -- asks for a reconcile of any one register at most three times
  within any sixty seconds.
\<close>

theorem repeats_bounded:
  assumes "serve w = Some (r, v)"
    and "\<forall>(a, forgave) \<in> set (wx_answers (beside w)). \<not> forgave \<and> (case a of None \<Rightarrow> True | Some d \<Rightarrow> d \<in> D)"
    and "\<forall>a \<in> D. \<forall>b \<in> D. same_desk a b"
    and "wx_watch (beside w) = Watch\<lparr>wt_known := known, wt_requests := old\<rparr>"
  shows "\<exists>requests. wt_requests (wx_watch (beside v)) = old @ requests
    \<and> (\<forall>path t. length (filter (\<lambda>(s, paths). path \<in> set paths \<and> t - 60 < s \<and> s \<le> t) requests) \<le> 3)"
proof -
  have start: "counted D (length old) w"
    using assms(2) by (simp add: counted_def Let_def assms(4) Watch_def NO_REPEATS_def accounted_at_def asked_def past_of_def desk_among_def)
      (simp add: requested_within_def recent_def)
  have "counted D (length old) v"
  proof (rule serve_invariant [OF assms(1), where I = "counted D (length old)", OF start])
    fix w s v assume c: "counted D (length old) w" "should_stop w = (s, v)"
    show "counted D (length old) v" using stop_frame [OF c(2)] by (intro counted_moved [OF c(1)]) simp_all
  next
    fix w e v assume c: "counted D (length old) w" "messages SLICE w = (Raise e, v)"
    show "counted D (length old) v" using messages_failed [OF c(2)] by (intro counted_moved [OF c(1)]) simp_all
  next
    fix w ms u assume c: "counted D (length old) w" "messages SLICE w = (Ok ms, u)"
    have "counted D (length old) u" by (rule counted_moved [OF c(1) messages_beside [OF c(2)] messages_later [OF c(2)]])
    then show "counted D (length old) (snd (watch_slice ms u))" using assms(3) by (intro slice_counted) blast+
  qed
  then have acc: "accounted_at (now v) (wt_repeats (wx_watch (beside v))) (drop (length old) (wt_requests (wx_watch (beside v))))"
    by (simp add: counted_def Let_def)
  have few: "length (filter (\<lambda>(s, paths). path \<in> set paths \<and> t - 60 < s \<and> s \<le> t) requests)
      = requested_within t (asked path requests)" for path t requests
    by (induction requests) (auto simp: requested_within_def recent_def asked_def WATCH_REPEAT_WINDOW_def)
  obtain requests where requests: "wt_requests (wx_watch (beside v)) = old @ requests"
    using requests_extend [OF assms(1), of old] by (auto simp: assms(4))
  with acc have "requested_within t (asked path requests) \<le> 3" for path t
    by (simp add: accounted_at_def WATCH_REPEATS_def)
  with requests show ?thesis unfolding few by blast
qed

section \<open>Why a reconcile is asked for\<close>

text \<open>
  The specification of a contradiction: with the reports seen so far a reconcile of the desk would
  write the register, its policy is PIN, the device reports it reliably, and the report is a legal
  value other than the one the desk declares.
\<close>

definition contradicts :: "config \<Rightarrow> reports \<Rightarrow> string \<Rightarrow> report \<Rightarrow> bool" where
  "contradicts d known path rep \<longleftrightarrow> (\<exists>dev p w.
     device_for_name (cfg_device_name d) = Some dev
     \<and> application_plan d RECONCILE [] [] known = Ok p
     \<and> w \<in> set (pl_writes p) \<and> wr_path w = path \<and> wr_reason w \<noteq> PREREQUISITE
     \<and> policy_for path (Some dev) (cfg_policies d) = PIN
     \<and> verify_class_of (Some dev) path = Some VERIFIABLE
     \<and> judge_report (Observation [] (Some dev) [] []) path (wr_tags w, wr_args w) rep = Ok (True, False))"

lemma drift_expected_from:
  assumes "dget (drift_expected dev ws) path = Some e"
  shows "\<exists>w \<in> set ws. wr_path w = path \<and> e = (wr_tags w, wr_args w) \<and> wr_reason w \<noteq> PREREQUISITE
    \<and> verify_class_of dev path = Some VERIFIABLE"
  using assms unfolding drift_expected_def dget_dupdate
  by (auto split: option.splits dest!: map_of_SomeD)

lemma last_report_in: "last_report ms path = Some rep \<Longrightarrow> (path, rep) \<in> set ms"
proof (induction ms rule: rev_induct)
  case (snoc m ms)
  then show ?case by (cases m) (auto simp: last_report_snoc split: if_splits)
qed (simp add: last_report_def)

lemma reconcile_pinned:
  assumes "application_plan c RECONCILE [] [] known = Ok p" and "w \<in> set (pl_writes p)"
  shows "policy_for (wr_path w) (device_for_name (cfg_device_name c)) (cfg_policies c) = PIN"
proof -
  obtain es skip and e :: entry where e: "desired c = Ok es" "skipped_paths c RECONCILE [] [] known es = Ok skip"
      "e \<in> set es" "en_path e \<notin> set skip" "wr_path w = en_path e"
    using assms by (rule application_plan_writes)
  have "preserves_remember RECONCILE" by (simp add: preserves_remember_def)
  from skipped_repair(3) [OF e(2) this e(1) e(3)] e(4,5) show ?thesis by auto
qed

lemma drift_contradicts:
  assumes "drift d pending known = Ok paths" and "path \<in> set paths"
  shows "\<exists>rep. (path, rep) \<in> set pending \<and> contradicts d known path rep"
proof -
  from assms obtain dev p seen where dev: "device_for_name (cfg_device_name d) = Some dev"
    and p: "application_plan d RECONCILE [] [] known = Ok p"
    and seen: "absorb_all pending (Observation (drift_expected (Some dev) (pl_writes p)) (Some dev) [] []) = Ok seen"
    and paths: "paths = sorted_list_of_set (ob_mismatched seen - ob_invalid seen)"
    by (auto simp: drift_def Let_def rbind_Ok_iff split: if_splits sum.splits)
  let ?start = "Observation (drift_expected (Some dev) (pl_writes p)) (Some dev) [] []"
  have "path \<in> ob_mismatched seen - ob_invalid seen"
    using assms(2) unfolding paths by (cases "finite (ob_mismatched seen - ob_invalid seen)") auto
  then have "class_of seen path = (path \<in> ob_confirmed seen, True, False)" by (simp add: class_of_def)
  moreover have "classed ?start path (last_report pending path) (class_of seen path)"
    by (rule class_last [OF seen]) simp
  ultimately have "classed ?start path (last_report pending path) (path \<in> ob_confirmed seen, True, False)" by simp
  then obtain e rep where e: "dget (drift_expected (Some dev) (pl_writes p)) path = Some e"
      "last_report pending path = Some rep" "judge_report ?start path e rep = Ok (True, False)"
    by (auto simp: classed_def split: option.splits if_splits)
  obtain w where w: "w \<in> set (pl_writes p)" "wr_path w = path" "e = (wr_tags w, wr_args w)"
      "wr_reason w \<noteq> PREREQUISITE" "verify_class_of (Some dev) path = Some VERIFIABLE"
    using drift_expected_from [OF e(1)] by blast
  have "judge_report ?start = judge_report (Observation [] (Some dev) [] [])" by (rule judge_report_cong) simp
  with e(3) w(3) have "judge_report (Observation [] (Some dev) [] []) path (wr_tags w, wr_args w) rep = Ok (True, False)" by simp
  moreover have "policy_for path (Some dev) (cfg_policies d) = PIN" using reconcile_pinned [OF p w(1)] w(2) dev by simp
  ultimately show ?thesis using last_report_in [OF e(2)] dev p w unfolding contradicts_def by blast
qed

text \<open>What is pending was reported, and every request so far was justified by a report.\<close>

definition reasoned :: "config set \<Rightarrow> nat \<Rightarrow> nat \<Rightarrow> watch_world \<Rightarrow> bool" where
  "reasoned D n base w \<longleftrightarrow> n \<le> length (reported w)
     \<and> (\<forall>(d, _) \<in> set (wx_answers (beside w)). case d of None \<Rightarrow> True | Some d \<Rightarrow> d \<in> D)
     \<and> set (wt_pending (wx_watch (beside w))) \<subseteq> set (drop n (reported w))
     \<and> (\<forall>(t, paths) \<in> set (drop base (wt_requests (wx_watch (beside w)))). \<forall>path \<in> set paths.
          \<exists>d \<in> D. \<exists>known rep. cfg_enforce d = ''watch'' \<and> (path, rep) \<in> set (drop n (reported w)) \<and> contradicts d known path rep)"

lemma reasoned_moved:
  assumes "reasoned D n base w" and "beside v = beside w" and "reported v = reported w @ ms"
  shows "reasoned D n base v"
proof -
  have n: "n \<le> length (reported w)" using assms(1) by (simp add: reasoned_def)
  then have sub: "set (drop n (reported w)) \<subseteq> set (drop n (reported v))" "n \<le> length (reported v)" by (simp_all add: assms(3))
  show ?thesis using assms(1) sub unfolding reasoned_def assms(2) by blast
qed

lemma pending_reported:
  "set (wt_pending (watch_absorb ms owned t w)) \<subseteq> set (wt_pending w) \<union> set ms"
proof -
  have one: "set (dset k x d) \<subseteq> insert (k, x) (set d)" for k x and d :: reports
    by (induction d) (auto split: if_splits)
  have "set (foldl (\<lambda>m kv. dset (fst kv) (snd kv) m) d rs) \<subseteq> set d \<union> set rs" for d :: reports and rs
  proof (induction rs arbitrary: d)
    case (Cons kv rs)
    obtain k x where "kv = (k, x)" by (cases kv)
    then show ?case using Cons [of "dset k x d"] one [of k x d] by simp blast
  qed simp
  then have "set (dupdate d rs) \<subseteq> set d \<union> set rs" for d :: reports and rs by (simp add: dupdate_def)
  from this [of "wt_pending w" "registers_in ms"] show ?thesis
    by (auto simp: watch_absorb_def Let_def registers_in_def)
qed

lemma slice_reasoned:
  assumes c: "reasoned D n base w" and m: "messages SLICE w = (Ok ms, u)"
    and base: "base \<le> length (wt_requests (wx_watch (beside w)))"
  shows "reasoned D n base (snd (watch_slice ms u))"
proof -
  let ?w = "watch_absorb ms (ct_lease_held (control u)) (now u) (wx_watch (beside u))"
  obtain q v where v: "watch_slice ms u = (q, v)" by (cases "watch_slice ms u")
  note rep = messages_reported(1) [OF m] and bes = messages_beside [OF m]
  have u: "reasoned D n base u" by (rule reasoned_moved [OF c bes rep])
  have n: "n \<le> length (reported w)" using c by (simp add: reasoned_def)
  have "set (wt_pending ?w) \<subseteq> set (wt_pending (wx_watch (beside w))) \<union> set ms" using pending_reported bes by metis
  also have "\<dots> \<subseteq> set (drop n (reported u))" using c n rep by (auto simp: reasoned_def)
  finally have pend: "set (wt_pending ?w) \<subseteq> set (drop n (reported u))" .
  note eff = slice_effect [OF v]
  have why: "\<exists>d' \<in> D. \<exists>known rep. cfg_enforce d' = ''watch'' \<and> (path, rep) \<in> set (drop n (reported u)) \<and> contradicts d' known path rep"
    if "Some d \<in> fst ` set (wx_answers (beside u))" "cfg_enforce d = ''watch''"
      "drift d (wt_pending ?w) (wt_known ?w) = Ok paths" "path \<in> set paths" for d paths path
  proof -
    have "d \<in> D" using u that(1) by (force simp: reasoned_def)
    then show ?thesis using drift_contradicts [OF that(3,4)] pend that(2) by blast
  qed
  have old: "base \<le> length (wt_requests (wx_watch (beside u)))" using base bes by simp
  have "\<forall>(t, paths) \<in> set (drop base (wt_requests (wx_watch (beside v)))). \<forall>path \<in> set paths.
          \<exists>d \<in> D. \<exists>known rep. cfg_enforce d = ''watch'' \<and> (path, rep) \<in> set (drop n (reported u)) \<and> contradicts d known path rep"
  proof (cases "wt_requests (wx_watch (beside v)) = wt_requests (wx_watch (beside u))")
    case True
    then show ?thesis using u by (simp add: reasoned_def)
  next
    case False
    with eff obtain d paths admitted where one: "Some d \<in> fst ` set (wx_answers (beside u))" "cfg_enforce d = ''watch''"
        "drift d (wt_pending ?w) (wt_known ?w) = Ok paths" "set admitted \<subseteq> set paths"
        "wt_requests (wx_watch (beside v)) = wt_requests (wx_watch (beside u)) @ [(now u, admitted)]" by blast
    have "drop base (wt_requests (wx_watch (beside v))) = drop base (wt_requests (wx_watch (beside u))) @ [(now u, admitted)]"
      using old by (simp add: one(5))
    then show ?thesis using u why [OF one(1-3)] one(4) by (auto simp: reasoned_def)
  qed
  moreover have "\<forall>(d, _) \<in> set (wx_answers (beside v)). case d of None \<Rightarrow> True | Some d \<Rightarrow> d \<in> D"
    using eff u by (auto simp: reasoned_def)
  moreover have "set (wt_pending (wx_watch (beside v))) \<subseteq> set (drop n (reported u))" using eff pend by auto
  moreover have "reported v = reported u" "n \<le> length (reported u)" using eff u by (auto simp: reasoned_def)
  ultimately show ?thesis by (simp add: v reasoned_def)
qed

text \<open>
  C36. Watching never asks without a reason: every register a reconcile is asked for while one
  connection is served was reported on that connection with a legal value other than the declared
  one, under a desk that asks to be watched, and is one a reconcile would write, pinned and
  reliably reported.
\<close>

theorem requests_reasoned:
  assumes "serve w = Some (r, v)"
    and "wx_watch (beside w) = Watch\<lparr>wt_known := known, wt_repeats := repeats, wt_requests := old\<rparr>"
  shows "\<exists>requests. wt_requests (wx_watch (beside v)) = old @ requests
    \<and> (\<forall>(t, paths) \<in> set requests. \<forall>path \<in> set paths.
         \<exists>d known rep. Some d \<in> fst ` set (wx_answers (beside w)) \<and> cfg_enforce d = ''watch''
           \<and> (path, rep) \<in> set (drop (length (reported w)) (reported v)) \<and> contradicts d known path rep)"
proof -
  let ?D = "{d. Some d \<in> fst ` set (wx_answers (beside w))}" and ?n = "length (reported w)" and ?base = "length old"
  let ?I = "\<lambda>x. reasoned ?D ?n ?base x \<and> ?base \<le> length (wt_requests (wx_watch (beside x)))"
  have start: "?I w" by (force simp: reasoned_def assms(2) Watch_def split: option.splits)
  have "?I v"
  proof (rule serve_invariant [OF assms(1), where I = ?I, OF start])
    fix x s v assume c: "?I x" "should_stop x = (s, v)"
    then show "?I v" using stop_frame [OF c(2)] reasoned_moved [of ?D ?n ?base x v "[]"] by simp
  next
    fix x e v assume c: "?I x" "messages SLICE x = (Raise e, v)"
    then show "?I v" using messages_failed [OF c(2)] reasoned_moved [of ?D ?n ?base x v "[]"] by simp
  next
    fix x u :: watch_world and ms assume c: "?I x" "messages SLICE x = (Ok ms, u)"
    obtain q y where y: "watch_slice ms u = (q, y)" by (cases "watch_slice ms u")
    have "reasoned ?D ?n ?base y" using slice_reasoned [of ?D ?n ?base x ms u] c y by simp
    moreover have "?base \<le> length (wt_requests (wx_watch (beside y)))"
      using slice_effect [OF y] c(1) messages_beside [OF c(2)] by auto
    ultimately show "?I (snd (watch_slice ms u))" by (simp add: y)
  qed
  then have fin: "reasoned ?D ?n ?base v" by blast
  obtain requests where requests: "wt_requests (wx_watch (beside v)) = old @ requests"
    using requests_extend [OF assms(1), of old] by (auto simp: assms(2))
  have "\<forall>(t, paths) \<in> set requests. \<forall>path \<in> set paths. \<exists>d \<in> ?D. \<exists>known rep. cfg_enforce d = ''watch''
      \<and> (path, rep) \<in> set (drop ?n (reported v)) \<and> contradicts d known path rep"
    using fin by (simp add: reasoned_def requests)
  then have "\<exists>d known rep. Some d \<in> fst ` set (wx_answers (beside w)) \<and> cfg_enforce d = ''watch''
      \<and> (path, rep) \<in> set (drop ?n (reported v)) \<and> contradicts d known path rep"
    if "(t, paths) \<in> set requests" "path \<in> set paths" for t paths path
    using that by fast
  with requests show ?thesis by blast
qed

section \<open>A watched desk\<close>

text \<open>The small desk, watched; its link pinned, its faders remembered.\<close>

definition watched_desk :: config where "watched_desk = demo_config \<lparr>cfg_enforce := ''watch''\<rparr>"

lemma watched_sel [simp]: "cfg_routes watched_desk = [main_route]" "cfg_channels watched_desk = []" "cfg_globals watched_desk = []"
  "device_for_name (cfg_device_name watched_desk) = Some UCX2" "cfg_base watched_desk = ''keep''" "cfg_policies watched_desk = []"
  "cfg_enforce watched_desk = ''watch''"
  by (simp_all add: watched_desk_def demo_config_def default_config_def)

lemma watched_valid:
  "validate_route_pan [main_route] = Ok ()" "validate_autogain watched_desk = Ok ()" "validate_playback_mute watched_desk = Ok ()"
  by (simp_all add: validate_route_pan_def checked_pan_zero validate_autogain_def autogain_supported_def
      validate_playback_mute_def validated_mutes_def)

lemma watched_desired: "desired watched_desk = desired demo_config"
  unfolding demo_desired
  by (simp add: desired_def watched_valid check_pan_channels_def checked_pan_zero route_entries_def
      store_messages_def main_messages store_entry_def Entry_def send_order_def place_messages_def place_def
      base_part_def keep_base declared_links_def link_requirements_def channel_entries_def global_entries_def
      chan_path_inject mix_not_chan mix_not_chan [symmetric] less_eq_phase_def)

lemma watched_gains: "retained_gains watched_desk known linked b = []"
  by (simp add: retained_gains_def autogain_pairs_def autogain_supported_def)

lemma watched_remembered:
  "remembered_paths watched_desk known linked = Ok (sorted_set
     [chan_path ''output'' 1 ''volume'', chan_path ''output'' 2 ''volume''])"
  by (simp add: remembered_paths_def watched_desired demo_desired watched_gains demo_policies Entry_def)

lemma watched_plan:
  "\<exists>p. application_plan watched_desk RECONCILE [] [] known = Ok p
     \<and> pl_writes p = map (\<lambda>e. entry_write e UNCONDITIONAL)
         [Entry (chan_path ''playback'' 1 ''stereo'') ''i'' [VInt 1] LINK,
          Entry (chan_path ''output'' 1 ''stereo'') ''i'' [VInt 1] LINK,
          Entry (mix_path 1 ''playback'' 1) ''fi'' [VFloat (Fin 0), VInt 0] MIX]"
proof -
  obtain es where d: "desired watched_desk = Ok es"
    and es: "es = [Entry (chan_path ''playback'' 1 ''stereo'') ''i'' [VInt 1] LINK,
   Entry (chan_path ''output'' 1 ''stereo'') ''i'' [VInt 1] LINK,
   Entry (mix_path 1 ''playback'' 1) ''fi'' [VFloat (Fin 0), VInt 0] MIX,
   Entry (chan_path ''output'' 1 ''volume'') ''f'' [VFloat (Fin (- 10))] MIX,
   Entry (chan_path ''output'' 2 ''volume'') ''f'' [VFloat (Fin (- 10))] MIX]"
    using demo_desired watched_desired by auto
  have "reuse_links es [] = []" by (simp add: reuse_links_def)
  then have skip: "skipped_paths watched_desk RECONCILE [] [] known es =
      Ok (sorted_set [chan_path ''output'' 1 ''volume'', chan_path ''output'' 2 ''volume''])"
    by (simp add: skipped_paths_def preserves_remember_def watched_remembered Let_def demo_protected)
  show ?thesis
    by (simp add: application_plan_def d skip blind_plan)
      (simp add: es Entry_def chan_path_inject mix_not_chan playback_prerequisites_def declared_mutes_def
        less_eq_phase_def Let_def)
qed

text \<open>The link of the watched desk, reported off.\<close>

abbreviation watched_link :: string where "watched_link \<equiv> ''/output/1/stereo''"

lemma watched_link: "chan_path ''output'' 1 ''stereo'' = watched_link" by code_simp

lemmas watched_row = register_at_link [unfolded watched_link]

lemma watched_expected:
  assumes "pl_writes p = map (\<lambda>e. entry_write e UNCONDITIONAL)
         [Entry (chan_path ''playback'' 1 ''stereo'') ''i'' [VInt 1] LINK,
          Entry (chan_path ''output'' 1 ''stereo'') ''i'' [VInt 1] LINK,
          Entry (mix_path 1 ''playback'' 1) ''fi'' [VFloat (Fin 0), VInt 0] MIX]"
  shows "drift_expected (Some UCX2) (pl_writes p) = [(watched_link, (''i'', [VInt 1]))]"
  using verify_class_links [of 1] verify_class_mix [of 1 1]
  by (simp add: drift_expected_def assms entry_write_def Entry_def dupdate_def watched_link)

lemma watched_judged: "judge_report (Observation ex (Some UCX2) [] []) watched_link (''i'', [VInt 1]) (''i'', [VInt 0]) = Ok (True, False)"
  by (simp add: judge_report_def valid_feedback_def valid_argument_def not_comparable_def matches_def Observation_def
      match_argument_def int_domain_ok_def pan_argument_def suffix_to_prefix Let_def watched_row)

lemma watched_drift: "drift watched_desk [(watched_link, (''i'', [VInt 0]))] known = Ok [watched_link]"
proof -
  obtain p where p: "application_plan watched_desk RECONCILE [] [] known = Ok p"
    and ex: "drift_expected (Some UCX2) (pl_writes p) = [(watched_link, (''i'', [VInt 1]))]"
    using watched_plan watched_expected by blast
  have "reg_verify link_row = VERIFIABLE" by (simp add: link_row_def Register_def)
  then have "\<not> unobservable (Observation ex (Some UCX2) [] []) watched_link" for ex
    by (simp add: unobservable_def Observation_def watched_row)
  then have "absorb_all [(watched_link, (''i'', [VInt 0]))] (Observation [(watched_link, (''i'', [VInt 1]))] (Some UCX2) [] [])
      = Ok (class_report (note_report (Observation [(watched_link, (''i'', [VInt 1]))] (Some UCX2) [] []) watched_link (''i'', [VInt 0]))
          watched_link True False)"
    by (simp add: absorb_all_def absorb_def watched_judged Let_def)
  then show ?thesis
    by (simp add: drift_def p ex Let_def) (simp add: class_report_def note_report_def Observation_def Let_def)
qed

text \<open>A reader connection: the time, the last sequence number, what arrives, what was reported, the watcher.\<close>

definition reader_at :: "rat \<Rightarrow> int \<Rightarrow> (rat \<times> arrival) list \<Rightarrow> message list \<Rightarrow> watcher \<Rightarrow> watch_world" where
  "reader_at t n packets seen x = \<lparr>now = t, inbox = packets, sends = [], stops = [], outbox = [], acked = [], reported = seen,
     control = \<lparr>ct_sources = 1, ct_closed = False, ct_request_id = 1, ct_lease = None, ct_last_heartbeat = 0,
        ct_last_write = 0, ct_generation = 7, ct_last_sequence = n, ct_queue = [], ct_queue_bytes = 0,
        ct_epoch = [1], ct_device_name = [], ct_lease_held = False, ct_pid = 1, ct_traits = OSCMIX\<rparr>, beside = x\<rparr>"

lemma reader_heartbeat: "heartbeat (reader_at t n packets seen x) = (Ok (), reader_at t n packets seen x)"
  by (intro heartbeat_unleased) (simp_all add: reader_at_def)

lemma reader_stop: "should_stop (reader_at t n packets seen x) = (Ok False, reader_at t n packets seen x)"
  by (simp add: should_stop_def reader_at_def)

lemma reader_pop: "pop_delivery (reader_at t n packets seen x) = (Ok None, reader_at t n packets seen x)"
  by (simp add: pop_delivery_def field_def run_simps reader_at_def)

lemma reader_quiet:
  assumes "1 / 4 < g"
  shows "messages SLICE (reader_at t n [(g, a)] seen x) = (Ok [], reader_at (t + 1 / 4) n [(g - 1 / 4, a)] seen x)"
proof -
  let ?w = "reader_at t n [(g, a)] seen x" and ?v = "reader_at (t + 1 / 4) n [(g - 1 / 4, a)] seen x"
  have r: "receive (1 / 4) ?w = (Ok None, ?v)"
    using assms by (simp add: receive_def check_open_def field_def run_simps reader_stop socket_wait_def bind_def)
      (simp add: reader_at_def run_simps)
  have n: "now ?w = t" "now ?v = t + 1 / 4" by (simp_all add: reader_at_def)
  have "delivery_loop (t + 1 / 4) ?w = delivery_loop (t + 1 / 4) ?v"
    by (subst delivery_loop.simps) (simp add: bind_def reader_heartbeat reader_pop n r)
  also have "\<dots> = (Ok None, ?v)"
    by (subst delivery_loop.simps) (simp add: bind_def reader_heartbeat reader_pop n run_simps)
  finally show ?thesis by (simp add: messages_def next_delivery_def bind_def n SLICE_def run_simps)
qed

lemma reader_ends:
  assumes "0 \<le> g" and "g \<le> 1 / 4"
  shows "\<exists>v. messages SLICE (reader_at t n [(g, Datagram [] False)] seen x) = (Raise (BackendControlError (Some ECONNRESET)), v)
    \<and> reported v = seen \<and> beside v = x"
proof -
  let ?w = "reader_at t n [(g, Datagram [] False)] seen x"
  obtain v where r: "receive (1 / 4) ?w = (Raise (BackendControlError (Some ECONNRESET)), v)"
    using assms by (simp add: receive_def check_open_def field_def run_simps socket_wait_def bind_def arrived_def
        reader_at_def should_stop_def)
  have "now ?w = t" by (simp add: reader_at_def)
  moreover have "delivery_loop (t + 1 / 4) ?w = (Raise (BackendControlError (Some ECONNRESET)), v)"
    by (subst delivery_loop.simps) (simp add: bind_def reader_heartbeat reader_pop r \<open>now ?w = t\<close>)
  ultimately have m: "messages SLICE ?w = (Raise (BackendControlError (Some ECONNRESET)), v)"
    by (simp add: messages_def next_delivery_def SLICE_def bind_def)
  from messages_failed [OF m] m show ?thesis by (simp add: reader_at_def)
qed

text \<open>The report on its way, and taken.\<close>

definition off_bytes :: bytes where
  "off_bytes = (case encode_osc watched_link ''i'' [VInt 0] of Inr b \<Rightarrow> b | Inl _ \<Rightarrow> [])"

definition off_packet :: bytes where
  "off_packet = pack_packet (EV_OBSERVATION, 0, SRC_DEVICE, 1, off_bytes)"

lemma off_facts: "unpack_packet off_packet = (EV_OBSERVATION, 0, SRC_DEVICE, 1, off_bytes)"
  "length off_packet = 52" "off_packet \<noteq> []" "take 4 off_packet = MAGIC" "length off_bytes = 28" "off_bytes \<noteq> []"
  "decode_delivery off_bytes = Ok [(watched_link, ''i'', [VInt 0])]"
  by code_simp+

lemma reader_hears: "messages SLICE (reader_at 5 0 [(1 / 50, Datagram off_packet False), (21 / 10, a)] [] x)
   = (Ok [(watched_link, ''i'', [VInt 0])], reader_at (251 / 50) 1 [(21 / 10, a)] [(watched_link, ''i'', [VInt 0])] x)"
proof -
  let ?w = "reader_at 5 0 [(1 / 50, Datagram off_packet False), (21 / 10, a)] [] x"
  let ?v = "reader_at (251 / 50) 0 [(21 / 10, a)] [] x" and ?t = "reader_at (251 / 50) 1 [(21 / 10, a)] [] x"
  let ?dl = "\<lparr>dl_origin = SRC_DEVICE, dl_sequence = 1, dl_epoch = [1], dl_payload = off_bytes\<rparr>"
  let ?u = "?t\<lparr>control := (control ?t)\<lparr>ct_queue := [?dl], ct_queue_bytes := 52\<rparr>\<rparr>"
  have "delivery_loop (5 + 1 / 4) ?w = (Ok (Some ?dl), ?t)"
  proof (rule delivery_received)
    show "heartbeat ?w = (Ok (), ?w)" by (rule reader_heartbeat)
    show "ct_queue (control ?w) = []" "0 < 5 + 1 / 4 - now ?w" by (simp_all add: reader_at_def)
    show "receive (min (5 + 1 / 4 - now ?w) (1 / 4)) ?w = (Ok (Some (EV_OBSERVATION, 0, SRC_DEVICE, 1, off_bytes)), ?v)"
      by (simp add: receive_def check_open_def field_def run_simps should_stop_def socket_wait_def arrived_def bind_def
          off_facts HEADER_SIZE_def PAYLOAD_def reader_at_def)
    show "event (EV_OBSERVATION, 0, SRC_DEVICE, 1, off_bytes) ?v = (Ok (), ?u)"
      by (simp add: event_def observation_event_def EV_LEASE_def EV_WINDOW_def EV_OBSERVATION_def field_def upd_def run_simps
          off_facts SRC_DEVICE_def CONTROL_QUEUE_PACKETS_def CONTROL_QUEUE_BYTES_def HEADER_SIZE_def reader_at_def)
    show "heartbeat ?u = (Ok (), ?u)" by (intro heartbeat_unleased) (simp_all add: reader_at_def)
    show "pop_delivery ?u = (Ok (Some ?dl), ?t)"
      by (simp add: pop_delivery_def field_def upd_def run_simps off_facts HEADER_SIZE_def reader_at_def)
  qed
  moreover have "now ?w = 5" by (simp add: reader_at_def)
  ultimately show ?thesis
    by (simp add: messages_def next_delivery_def bind_def SLICE_def off_facts run_simps note_reported_def del: distrib_right_numeral)
      (simp add: reader_at_def)
qed

section \<open>A link taken back\<close>

definition watcher_of :: "watch \<Rightarrow> (config option \<times> bool) list \<Rightarrow> watcher" where
  "watcher_of w answers = \<lparr>wx_watch = w, wx_answers = answers\<rparr>"

definition pending_watch :: watch where
  "pending_watch = Watch\<lparr>wt_known := [(watched_link, (''i'', [VInt 0]))], wt_pending := [(watched_link, (''i'', [VInt 0]))],
     wt_first := Some (251 / 50), wt_last := 251 / 50\<rparr>"

definition asked_watch :: watch where
  "asked_watch = pending_watch\<lparr>wt_pending := [], wt_first := None,
     wt_repeats := \<lparr>rp_times = [(watched_link, [351 / 50])], rp_desk = Some watched_desk, rp_left = []\<rparr>,
     wt_requests := [(351 / 50, [watched_link])]\<rparr>"

definition desk_answers :: "(config option \<times> bool) list" where
  "desk_answers = [(Some watched_desk, False)]"

lemma waiting_slice:
  assumes "t < 351 / 50"
  shows "watch_slice [] (reader_at t 1 packets seen (watcher_of pending_watch answers))
    = (Ok True, reader_at t 1 packets seen (watcher_of pending_watch answers))"
  using assms
  by (simp add: watch_slice_def watch_absorb_def registers_in_def Let_def reader_at_def watcher_of_def pending_watch_def
      watch_settled_def WATCH_SETTLE_def WATCH_LONGEST_def dupdate_def)

lemma deciding_slice: "watch_slice [] (reader_at (351 / 50) 1 packets seen (watcher_of pending_watch desk_answers))
    = (Ok True, reader_at (351 / 50) 1 packets seen (watcher_of asked_watch []))"
proof -
  have "watch_judge (Some watched_desk) (351 / 50) pending_watch = Ok (True, asked_watch)"
    by (simp add: watch_judge_def pending_watch_def asked_watch_def Let_def Watch_def watched_drift admit_def NO_REPEATS_def
        forgive_repeats_def recent_def WATCH_REPEATS_def)
  moreover have "watch_absorb [] False (351 / 50) pending_watch = pending_watch" "wt_pending pending_watch \<noteq> []"
      "watch_settled (351 / 50) pending_watch" "pending_watch\<lparr>wt_forgiven := wt_forgiven pending_watch\<rparr> = pending_watch"
    by (simp_all add: watch_absorb_def registers_in_def Let_def pending_watch_def watch_settled_def WATCH_SETTLE_def dupdate_def)
  ultimately show ?thesis
    by (simp add: watch_slice_def Let_def reader_at_def watcher_of_def desk_answers_def next_answer_def)
qed

lemma hearing_slice: "watch_slice [(watched_link, ''i'', [VInt 0])] (reader_at (251 / 50) 1 packets seen (watcher_of Watch answers))
    = (Ok True, reader_at (251 / 50) 1 packets seen (watcher_of pending_watch answers))"
proof -
  have "registers_in [(watched_link, ''i'', [VInt 0])] = [(watched_link, ''i'', [VInt 0])]" by code_simp
  then show ?thesis
    by (simp add: watch_slice_def watch_absorb_def Let_def reader_at_def watcher_of_def pending_watch_def learn_def KNOWN_LIMIT_def
        watch_settled_def WATCH_SETTLE_def WATCH_LONGEST_def dupdate_def Watch_def)
qed

definition reader_start :: watch_world where
  "reader_start = reader_at 5 0 [(1 / 50, Datagram off_packet False), (21 / 10, Datagram [] False)] [] (watcher_of Watch desk_answers)"

lemma serve_on:
  assumes "should_stop w = (Ok False, w)" and "messages SLICE w = (Ok ms, u)" and "watch_slice ms u = (Ok True, t)"
  shows "serve w = serve t"
  using assms by (subst serve.simps) simp

lemma serve_waits:
  assumes "1 / 4 < g" and "t + 1 / 4 < 351 / 50"
  shows "serve (reader_at t 1 [(g, a)] seen (watcher_of pending_watch answers))
    = serve (reader_at (t + 1 / 4) 1 [(g - 1 / 4, a)] seen (watcher_of pending_watch answers))"
  by (rule serve_on [OF reader_stop reader_quiet [OF assms(1)] waiting_slice [OF assms(2)]])

lemma reader_run: "\<exists>v. serve reader_start = Some (Raise (BackendControlError (Some ECONNRESET)), v)
    \<and> reported v = [(watched_link, ''i'', [VInt 0])] \<and> beside v = watcher_of asked_watch []"
proof -
  let ?seen = "[(watched_link, ''i'', [VInt 0])]" and ?a = "Datagram [] False"
  have "serve reader_start = serve (reader_at (251 / 50) 1 [(21 / 10, ?a)] ?seen (watcher_of pending_watch desk_answers))"
    unfolding reader_start_def by (rule serve_on [OF reader_stop reader_hears hearing_slice])
  also have "\<dots> = serve (reader_at (677 / 100) 1 [(7 / 20, ?a)] ?seen (watcher_of pending_watch desk_answers))"
    by (simp add: serve_waits)
  also have "\<dots> = serve (reader_at (351 / 50) 1 [(1 / 10, ?a)] ?seen (watcher_of asked_watch []))"
    by (rule serve_on [OF reader_stop reader_quiet [of "7 / 20" "677 / 100", simplified] deciding_slice])
  finally have run: "serve reader_start = serve (reader_at (351 / 50) 1 [(1 / 10, ?a)] ?seen (watcher_of asked_watch []))" .
  obtain v where v: "messages SLICE (reader_at (351 / 50) 1 [(1 / 10, ?a)] ?seen (watcher_of asked_watch []))
      = (Raise (BackendControlError (Some ECONNRESET)), v)" "reported v = ?seen" "beside v = watcher_of asked_watch []"
    using reader_ends [of "1 / 10" "351 / 50" 1 ?seen "watcher_of asked_watch []"] by auto
  have "serve (reader_at (351 / 50) 1 [(1 / 10, ?a)] ?seen (watcher_of asked_watch []))
      = Some (Raise (BackendControlError (Some ECONNRESET)), v)"
    by (subst serve.simps) (simp add: reader_stop v(1))
  with run v show ?thesis by simp
qed

lemma requests_reasoned_witness:
  "\<exists>v. serve reader_start = Some (Raise (BackendControlError (Some ECONNRESET)), v)
     \<and> wt_requests (wx_watch (beside v)) = [(351 / 50, [watched_link])]
     \<and> (\<exists>d known rep. (watched_link, rep) \<in> set (reported v) \<and> contradicts d known watched_link rep)"
proof -
  obtain v where v: "serve reader_start = Some (Raise (BackendControlError (Some ECONNRESET)), v)"
      "beside v = watcher_of asked_watch []"
    using reader_run by blast
  have fresh: "wx_watch (beside reader_start) = Watch\<lparr>wt_known := [], wt_repeats := NO_REPEATS, wt_requests := []\<rparr>"
    by (simp add: reader_start_def reader_at_def watcher_of_def Watch_def)
  have "wt_requests (wx_watch (beside v)) = [(351 / 50, [watched_link])]"
    by (simp add: v(2) watcher_of_def asked_watch_def)
  moreover have "reported reader_start = []" by (simp add: reader_start_def reader_at_def)
  ultimately show ?thesis using requests_reasoned [OF v(1) fresh] v(1) by auto
qed

lemma repeats_bounded_witness:
  "\<exists>v requests. serve reader_start = Some (Raise (BackendControlError (Some ECONNRESET)), v)
     \<and> wt_requests (wx_watch (beside v)) = requests \<and> map snd requests = [[watched_link]]
     \<and> (\<forall>path t. length (filter (\<lambda>(s, paths). path \<in> set paths \<and> t - 60 < s \<and> s \<le> t) requests) \<le> 3)"
proof -
  obtain v where v: "serve reader_start = Some (Raise (BackendControlError (Some ECONNRESET)), v)"
      "beside v = watcher_of asked_watch []"
    using reader_run by blast
  have fresh: "wx_watch (beside reader_start) = Watch\<lparr>wt_known := [], wt_requests := []\<rparr>"
    and answers: "wx_answers (beside reader_start) = [(Some watched_desk, False)]"
    by (simp_all add: reader_start_def reader_at_def watcher_of_def Watch_def desk_answers_def)
  have "same_desk watched_desk watched_desk" by (simp add: same_desk_def same_values_def)
  then have "\<exists>requests. wt_requests (wx_watch (beside v)) = [] @ requests
    \<and> (\<forall>path t. length (filter (\<lambda>(s, paths). path \<in> set paths \<and> t - 60 < s \<and> s \<le> t) requests) \<le> 3)"
    by (intro repeats_bounded [OF v(1) _ _ fresh, of "{watched_desk}"]) (simp_all add: answers)
  moreover have "wt_requests (wx_watch (beside v)) = [(351 / 50, [watched_link])]"
    by (simp add: v(2) watcher_of_def asked_watch_def)
  ultimately show ?thesis using v(1) by auto
qed

end
