(* ===== verification/PeakSafe.thy ===== *)
theory PeakSafe
  imports Applying
begin

text \<open>
  What a peak-safe switch does to the wire: every write of the switch itself stands between a
  complete pull-down of the changed outputs and the writes that give their volumes back, which
  are attempted after a failed switch as well.
\<close>

section \<open>The wrapper\<close>








section \<open>The switch of an apply\<close>


section \<open>A switch whose pull-down is refused\<close>










end
