(* ===== verification/Spec2Isabelle.thy ===== *)
theory Spec2Isabelle
  imports Verify Watch PeakSafe Outcome
begin

text \<open>
  A model of oscmix-desk (\<^verbatim>\<open>src/src/oscmix_desk\<close>), the program that declares the routing of a
  Fireface UCX II in a config and keeps the device at it through the oscmix backend, and the
  theorems that make it correct.

  \<^bold>\<open>The program.\<close> A config names routes, channel and global settings and policies. From it the
  program computes the desired registers (\<^verbatim>\<open>reconcile.desired\<close>), reads what the device reports
  over a control connection (\<^verbatim>\<open>backend.Control\<close>, packets of \<^verbatim>\<open>protocol.py\<close> around OSC), plans the
  writes and applies them in phases (\<^verbatim>\<open>routing.py\<close>): mute, links, the barrier that waits for the
  links to be reported, matrix, channel settings, release. What was reported is judged in a window
  (\<^verbatim>\<open>observation.py\<close>).

  \<^bold>\<open>The theories\<close>, in the order the code has its layers.

  \<^item> \<open>Prelude\<close>, \<open>PyFloat\<close>, \<open>PyText\<close>: results and exceptions (\<^verbatim>\<open>errors.py\<close>), insertion-ordered
    dictionaries with their interface \<open>py_dict\<close>, paths as strings, IEEE 754 rounding with the
    interface \<open>float_format\<close> (exact rationals, no fuel), text of numbers.
  \<^item> \<open>Registers\<close>, \<open>Devices\<close>, \<open>DeviceFacts\<close>: \<^verbatim>\<open>registers.py\<close> and the whole UCX II table of \<^verbatim>\<open>devices.py\<close>.
  \<^item> \<open>Numeric\<close>: \<^verbatim>\<open>numeric.py\<close>; a legal setting is confirmed by its own report.
  \<^item> \<open>Model\<close>, \<open>Playback\<close>, \<open>Autogain\<close>, \<open>Mirrors\<close>, \<open>Base\<close>, \<open>DspLimits\<close>: the config and its static
    validation, one theory per module (\<open>DspLimits\<close> is \<^verbatim>\<open>limits.py\<close>).
  \<^item> \<open>Reconcile\<close>, \<open>Planning\<close>, \<open>Release\<close>, \<open>Retention\<close>: \<^verbatim>\<open>reconcile.py\<close>; the desired state against a
    reference list of claims, the plan of every intent, the order of a release of a mute, and what
    a passed retention check protects.
  \<^item> \<open>Osc\<close>, \<open>Observation\<close>: \<^verbatim>\<open>osc.py\<close> over bytes and \<^verbatim>\<open>observation.py\<close>.
  \<^item> \<open>Effects\<close>: actions over a world with exceptions, and the interface \<open>action_frame\<close> of a relation
    every composed action keeps. \<open>Backend\<close>: \<^verbatim>\<open>backend.py\<close> and \<^verbatim>\<open>protocol.py\<close>, with \<open>connection_frame\<close>
    and \<open>lease_frame\<close> carrying such a relation through every loop once. \<open>Connection\<close>: its
    invariant, the accounting of writes, the deadline of a request. \<open>Draining\<close>: the measure of the
    loops above it.
  \<^item> \<open>Streams\<close>, \<open>Prechecks\<close>, \<open>Routing\<close>: \<^verbatim>\<open>streams.py\<close>, \<^verbatim>\<open>prechecks.py\<close> with \<^verbatim>\<open>peaksafe.py\<close>, and
    \<^verbatim>\<open>routing.py\<close>. \<open>Raising\<close>: what they can raise. \<open>Applying\<close>, \<open>PeakSafe\<close>, \<open>Barrier\<close>: what an
    apply does to the wire, whatever the device, the backend and the stop check do.

  \<^bold>\<open>The environment.\<close> A \<open>world\<close> holds the time (an exact rational), the packets to arrive with the
  delay before each, the outcomes of the next sends, the answers of the stop check, and logs of
  what was sent, acknowledged and reported. The theorems hold for every such world. Loops end by
  the measure (packets to come, queued deliveries, milliseconds to the deadline): no fuel is used,
  every function is total.

  \<^bold>\<open>Not modelled.\<close> Command lines, printing, logging and messages of exceptions; starting processes,
  systemd and desktop integration; the parsing of /proc and of files. Sets of paths are lists read
  through \<^term>\<open>set\<close>.
\<close>

end
